(* ===== verification/Prelude.thy ===== *)
theory Prelude
  imports Main "HOL-Library.Word" "HOL-Library.Monad_Syntax"
begin

text \<open>
  Shared vocabulary of the development: the machine types of \<^verbatim>\<open>src/src/include/types.h\<close>
  (x86-32, so pointers and \<^verbatim>\<open>size_t\<close> are 32-bit words), the sets of addresses that the
  frame conditions talk about, and the word lemmas every component needs.
\<close>

unbundle bit_operations_syntax

section \<open>Machine types\<close>

type_synonym u8 = "8 word"
type_synonym u16 = "16 word"
type_synonym u32 = "32 word"

text \<open>An address and a \<^verbatim>\<open>size_t\<close> are both \<^verbatim>\<open>unsigned int\<close>; memory is addressed by bytes.\<close>

type_synonym addr = "32 word"
type_synonym mem = "addr \<Rightarrow> u8"

abbreviation NULL :: addr where
  "NULL \<equiv> 0"

text \<open>The bytes of a character string literal, without its terminating NUL.\<close>

definition bytes :: "string \<Rightarrow> u8 list" where
  "bytes s = map of_char s"

lemma bytes_Nil [simp]: "bytes [] = []"
  by (simp add: bytes_def)

lemma bytes_Cons [simp]: "bytes (c # cs) = of_char c # bytes cs"
  by (simp add: bytes_def)

lemma bytes_append [simp]: "bytes (s @ t) = bytes s @ bytes t"
  by (simp add: bytes_def)

lemma bytes_eq_Nil [simp]: "bytes s = [] \<longleftrightarrow> s = []"
  by (simp add: bytes_def)

lemma length_bytes [simp]: "length (bytes s) = length s"
  by (simp add: bytes_def)

section \<open>Collections\<close>

text \<open>
  \<open>frame\<close>: what a write or an operation leaves unchanged; \<open>inv_intros\<close>: an operation keeps
  an invariant of its component.
\<close>

named_theorems frame \<open>what an operation leaves unchanged\<close>
named_theorems inv_intros \<open>an operation keeps an invariant\<close>

section \<open>Words\<close>

lemma unat_of_nat_lt [simp]: "n < 2 ^ 32 \<Longrightarrow> unat (of_nat n :: u32) = n"
  by (simp add: unat_of_nat take_bit_nat_eq_self)

lemma unat_u32_lt: "unat (x :: u32) < 2 ^ 32"
  using unsigned_less [of x] by simp

lemma unat_u8_lt: "unat (x :: u8) < 256"
  using unsigned_less [of x] by simp

lemma unat_plus_no_wrap: "unat x + unat y < 2 ^ 32 \<Longrightarrow> unat (x + y :: u32) = unat x + unat y"
  by (simp add: unat_word_ariths)

lemma unat_Suc_no_wrap: "unat x + 1 < 2 ^ 32 \<Longrightarrow> unat (x + 1 :: u32) = unat x + 1"
  by (simp add: unat_word_ariths)

lemma unat_minus_no_wrap: "unat y \<le> unat x \<Longrightarrow> unat (x - y :: u32) = unat x - unat y"
  by (simp add: unat_sub word_le_nat_alt)

lemma u32_eq_unat: "(x :: u32) = y \<longleftrightarrow> unat x = unat y"
  by (simp add: word_unat_eq_iff)

lemma of_nat_eq_u32: "a < 2 ^ 32 \<Longrightarrow> b < 2 ^ 32 \<Longrightarrow> (of_nat a = (of_nat b :: u32)) \<longleftrightarrow> a = b"
  by (metis unat_of_nat_lt)

lemma of_nat_unat_u32 [simp]: "of_nat (unat x) = (x :: u32)"
  by simp

lemma sint_small:
  assumes "unat (w :: u32) < 2 ^ 31"
  shows "sint w = int (unat w)"
proof -
  have b: "- (2 ^ 31) \<le> int n \<and> int n < 2 ^ 31" if "n < 2 ^ 31" for n using that by simp
  have "sint w = signed_take_bit 31 (int (unat w))" by (simp add: sint_uint uint_nat [symmetric])
  also have "\<dots> = int (unat w)" 
    using b [OF assms] by (intro signed_take_bit_int_eq_self) (erule conjE, assumption)+
  finally show ?thesis .
qed

lemma sint_eq: "sint (w :: u32) = (int (unat w) + 2 ^ 31) mod 2 ^ 32 - 2 ^ 31"
  by (simp add: sint_uint signed_take_bit_eq_take_bit_shift take_bit_eq_mod)

lemma sless_0: "(w :: u32) <s 0 \<longleftrightarrow> 2 ^ 31 \<le> unat w"
proof (cases "unat w < 2 ^ 31")
  case True
  then show ?thesis by (simp add: word_sless_alt sint_small)
next
  case False
  have shift: "(int n + 2 ^ 31) mod 2 ^ 32 = int n - 2 ^ 31" if "2 ^ 31 \<le> n" "n < 2 ^ 32" for n
    using that mod_pos_geq [of "2 ^ 32" "int n + 2 ^ 31"] by (simp add: mod_pos_pos_trivial)
  have "(int (unat w) + 2 ^ 31) mod 2 ^ 32 = int (unat w) - 2 ^ 31"
    using False unat_u32_lt [of w] by (intro shift) simp_all
  then have "sint w = int (unat w) - 2 ^ 32" by (simp only: sint_eq) simp
  moreover have "int (unat w) - 2 ^ 32 < 0" using unat_u32_lt [of w] by (simp only: of_nat_less_iff [symmetric, where 'a = int]) simp
  ultimately have "sint w < 0" by (simp only:)
  then show ?thesis using False by (simp add: word_sless_alt)
qed

lemma unat_neg_u32:
  assumes "(w :: u32) \<noteq> 0"
  shows "unat (- w) = 2 ^ 32 - unat w"
proof -
  have "- w = of_nat (2 ^ 32 - unat w)" using unat_u32_lt [of w] by (simp add: of_nat_diff)
  moreover have "0 < unat w" using assms by (simp add: unat_gt_0)
  then have "unat (of_nat (2 ^ 32 - unat w) :: u32) = 2 ^ 32 - unat w" by (intro unat_of_nat_lt) simp
  ultimately show ?thesis by simp
qed

section \<open>Address ranges\<close>

text \<open>
  The addresses \<open>a, ..., a + n - 1\<close> as a set; \<open>a\<close> and \<open>n\<close> are natural numbers, so a range
  never wraps around the end of the address space.
\<close>

definition range_of :: "nat \<Rightarrow> nat \<Rightarrow> addr set" where
  "range_of a n = {x. a \<le> unat x \<and> unat x < a + n}"

lemma in_range_of [simp]: "x \<in> range_of a n \<longleftrightarrow> a \<le> unat x \<and> unat x < a + n"
  by (simp add: range_of_def)

lemma range_of_disjoint: "a + n \<le> b \<or> b + k \<le> a \<Longrightarrow> range_of a n \<inter> range_of b k = {}"
  by auto

lemma range_of_subset: "b \<le> a \<Longrightarrow> a + n \<le> b + k \<Longrightarrow> range_of a n \<subseteq> range_of b k"
  by auto

lemma range_overlap:
  "range_of a n \<inter> range_of b k = {} \<Longrightarrow> 0 < n \<Longrightarrow> 0 < k \<Longrightarrow> a + n \<le> 2 ^ 32 \<Longrightarrow> b + k \<le> 2 ^ 32 \<Longrightarrow>
    a + n \<le> b \<or> b + k \<le> a"
proof (rule ccontr)
  assume d: "range_of a n \<inter> range_of b k = {}" and "0 < n" "0 < k"
    and l: "a + n \<le> 2 ^ 32" "b + k \<le> 2 ^ 32" and "\<not> (a + n \<le> b \<or> b + k \<le> a)"
  then have "max a b < a + n" "max a b < b + k" by auto
  then have "unat (of_nat (max a b) :: addr) = max a b" using l by (intro unat_of_nat_lt) linarith
  with \<open>max a b < a + n\<close> \<open>max a b < b + k\<close>
  have "of_nat (max a b) \<in> range_of a n \<inter> range_of b k" by simp
  with d show False by blast
qed

text \<open>Two memories agree on a set of addresses.\<close>

definition agree_on :: "addr set \<Rightarrow> mem \<Rightarrow> mem \<Rightarrow> bool" where
  "agree_on S m m' \<longleftrightarrow> (\<forall>x\<in>S. m x = m' x)"

lemma agree_onD: "agree_on S m m' \<Longrightarrow> x \<in> S \<Longrightarrow> m x = m' x"
  by (simp add: agree_on_def)

lemma agree_on_refl [simp]: "agree_on S m m"
  by (simp add: agree_on_def)

lemma agree_on_trans: "agree_on S m m' \<Longrightarrow> agree_on S m' m'' \<Longrightarrow> agree_on S m m''"
  by (simp add: agree_on_def)

lemma agree_on_sym: "agree_on S m m' \<Longrightarrow> agree_on S m' m"
  by (simp add: agree_on_def)

lemma agree_on_mono: "agree_on S m m' \<Longrightarrow> T \<subseteq> S \<Longrightarrow> agree_on T m m'"
  by (auto simp: agree_on_def)

lemma agree_on_upd: "a \<notin> S \<Longrightarrow> agree_on S m m' \<Longrightarrow> agree_on S m (m'(a := v))"
  by (auto simp: agree_on_def)

lemma agree_on_of_upd: "a \<notin> S \<Longrightarrow> agree_on S (m(a := v)) m' \<Longrightarrow> agree_on S m m'"
  unfolding agree_on_def by (metis fun_upd_apply)

text \<open>What a C array of \<open>n\<close> bytes at address \<open>a\<close> holds.\<close>

definition bytes_at :: "mem \<Rightarrow> addr \<Rightarrow> nat \<Rightarrow> u8 list" where
  "bytes_at m a n = map (\<lambda>i. m (a + of_nat i)) [0..<n]"

lemma length_bytes_at [simp]: "length (bytes_at m a n) = n"
  by (simp add: bytes_at_def)

lemma nth_bytes_at [simp]: "i < n \<Longrightarrow> bytes_at m a n ! i = m (a + of_nat i)"
  by (simp add: bytes_at_def)

lemma bytes_at_0 [simp]: "bytes_at m a 0 = []"
  by (simp add: bytes_at_def)

lemma bytes_at_Suc: "bytes_at m a (Suc n) = m a # bytes_at m (a + 1) n"
proof (rule nth_equalityI)
  fix i assume "i < length (bytes_at m a (Suc n))"
  then show "bytes_at m a (Suc n) ! i = (m a # bytes_at m (a + 1) n) ! i"
    by (cases i) (simp_all add: algebra_simps)
qed simp

lemma bytes_at_add: "bytes_at m a (i + j) = bytes_at m a i @ bytes_at m (a + of_nat i) j"
  by (induction i arbitrary: a) (simp_all add: bytes_at_Suc algebra_simps)

lemma bytes_at_cong:
  assumes "agree_on (range_of (unat a) n) m m'" and "unat a + n \<le> 2 ^ 32"
  shows "bytes_at m a n = bytes_at m' a n"
proof (rule nth_equalityI)
  fix i assume "i < length (bytes_at m a n)"
  then have i: "i < n" by simp
  with assms(2) have "unat (a + of_nat i) = unat a + i"
    by (subst unat_plus_no_wrap) simp_all
  with i assms(1) have "m (a + of_nat i) = m' (a + of_nat i)"
    by (intro agree_onD [OF assms(1)]) simp
  with i show "bytes_at m a n ! i = bytes_at m' a n ! i" by simp
qed simp

lemma bytes_at_eq_iff:
  "bytes_at m a n = bytes_at m' b n \<longleftrightarrow> (\<forall>i<n. m (a + of_nat i) = m' (b + of_nat i))"
  by (auto simp: bytes_at_def)

lemma drop_bytes_at: "k \<le> n \<Longrightarrow> drop k (bytes_at m a n) = bytes_at m (a + of_nat k) (n - k)"
  using bytes_at_add [of m a k "n - k"] by simp

lemma take_bytes_at: "k \<le> n \<Longrightarrow> take k (bytes_at m a n) = bytes_at m a k"
  by (simp add: bytes_at_def take_map)

end
