(* ===== verification/CMem.thy ===== *)
theory CMem
  imports Prelude
begin

text \<open>
  Byte memory. The kernel runs on flat physical memory with no paging, so a C object is a run
  of bytes at a 32-bit address and \<^verbatim>\<open>uint32_t\<close> fields are stored low byte first. The second part
  models \<^verbatim>\<open>memcpy\<close>, \<^verbatim>\<open>memset\<close>, \<^verbatim>\<open>memcmp\<close> and \<^verbatim>\<open>memmove\<close> of \<^verbatim>\<open>src/src/kernel/memory.c\<close>: each
  \<^verbatim>\<open>while (n--)\<close> loop runs exactly \<open>n\<close> times, so it is a recursion on the natural number \<open>n\<close>, while
  the pointers are words and wrap around.
\<close>

section \<open>Reading and writing words\<close>

definition load32 :: "mem \<Rightarrow> addr \<Rightarrow> u32" where
  "load32 m a = ucast (m a) OR push_bit 8 (ucast (m (a + 1)))
     OR push_bit 16 (ucast (m (a + 2))) OR push_bit 24 (ucast (m (a + 3)))"

definition store32 :: "mem \<Rightarrow> addr \<Rightarrow> u32 \<Rightarrow> mem" where
  "store32 m a v = m(a := ucast v, a + 1 := ucast (drop_bit 8 v),
     a + 2 := ucast (drop_bit 16 v), a + 3 := ucast (drop_bit 24 v))"

lemma split_u32:
  "(ucast (ucast (v :: u32) :: u8) OR push_bit 8 (ucast (ucast (drop_bit 8 v) :: u8))
     OR push_bit 16 (ucast (ucast (drop_bit 16 v) :: u8))
     OR push_bit 24 (ucast (ucast (drop_bit 24 v) :: u8)) :: u32) = v"
proof (rule bit_word_eqI, goal_cases)
  case (1 n)
  consider "n < 8" | "8 \<le> n" "n < 16" | "16 \<le> n" "n < 24" | "24 \<le> n" by linarith
  then show ?case
    using 1 by cases (auto simp: bit_simps)
qed

lemma load32_store32 [simp]: "load32 (store32 m a v) a = v"
  by (simp add: load32_def store32_def split_u32)

lemma store32_other:
  "x \<notin> {a, a + 1, a + 2, a + 3} \<Longrightarrow> store32 m a v x = m x"
  by (auto simp: store32_def)

lemma unat_offset: "unat a + k < 2 ^ 32 \<Longrightarrow> unat (a + of_nat k :: addr) = unat a + k"
  by (subst unat_plus_no_wrap) simp_all

lemma word_offsets:
  assumes "unat a + 4 \<le> 2 ^ 32"
  shows "{a, a + 1, a + 2, a + 3} = range_of (unat a) 4"
proof -
  have k: "unat (a + 1) = unat a + 1" "unat (a + 2) = unat a + 2" "unat (a + 3) = unat a + 3"
    using unat_offset [of a 1] unat_offset [of a 2] unat_offset [of a 3] assms by simp_all
  show ?thesis
  proof (intro set_eqI iffI)
    fix x assume "x \<in> {a, a + 1, a + 2, a + 3}"
    with k show "x \<in> range_of (unat a) 4" by auto
  next
    fix x assume "x \<in> range_of (unat a) 4"
    then have "unat x = unat a \<or> unat x = unat a + 1 \<or> unat x = unat a + 2 \<or> unat x = unat a + 3"
      by auto
    with k show "x \<in> {a, a + 1, a + 2, a + 3}" by (metis insert_iff word_unat_eq_iff)
  qed
qed

lemma store32_outside:
  "unat a + 4 \<le> 2 ^ 32 \<Longrightarrow> x \<notin> range_of (unat a) 4 \<Longrightarrow> store32 m a v x = m x"
  using store32_other [of x a m v] word_offsets [of a] by metis

lemma agree_on_store32:
  assumes "unat a + 4 \<le> 2 ^ 32" and "range_of (unat a) 4 \<inter> S = {}" and "agree_on S m m'"
  shows "agree_on S m (store32 m' a v)"
proof -
  have "agree_on S m' (store32 m' a v)"
    unfolding agree_on_def
  proof
    fix x assume "x \<in> S"
    with assms(2) have "x \<notin> {a, a + 1, a + 2, a + 3}"
      by (auto simp: word_offsets [OF assms(1)])
    then show "m' x = store32 m' a v x" by (simp add: store32_other)
  qed
  with assms(3) show ?thesis by (rule agree_on_trans)
qed

lemma load32_cong:
  assumes "agree_on (range_of (unat a) 4) m m'" and "unat a + 4 \<le> 2 ^ 32"
  shows "load32 m a = load32 m' a"
proof -
  have "\<forall>x \<in> {a, a + 1, a + 2, a + 3}. m x = m' x"
    using assms(1) unfolding word_offsets [OF assms(2)] by (simp add: agree_on_def)
  then show ?thesis by (simp add: load32_def)
qed

lemma load32_store32_other:
  assumes "unat a + 4 \<le> unat b \<or> unat b + 4 \<le> unat a"
    and "unat a + 4 \<le> 2 ^ 32" "unat b + 4 \<le> 2 ^ 32"
  shows "load32 (store32 m b v) a = load32 m a"
proof -
  have "agree_on (range_of (unat a) 4) m (store32 m b v)"
    using assms by (intro agree_on_store32 agree_on_refl) auto
  then show ?thesis using assms(2) by (simp add: load32_cong)
qed

lemma load32_upd_other:
  assumes "x \<notin> {a, a + 1, a + 2, a + 3}"
  shows "load32 (m(x := v)) a = load32 m a"
  using assms by (auto simp: load32_def)

lemma load32_upd_outside:
  "unat a + 4 \<le> 2 ^ 32 \<Longrightarrow> x \<notin> range_of (unat a) 4 \<Longrightarrow> load32 (m(x := v)) a = load32 m a"
  using load32_upd_other [of x a m v] word_offsets [of a] by metis

section \<open>memcpy\<close>

primrec memcpy_loop :: "mem \<Rightarrow> addr \<Rightarrow> addr \<Rightarrow> nat \<Rightarrow> mem" where
  "memcpy_loop m d s 0 = m"
| "memcpy_loop m d s (Suc n) = memcpy_loop (m(d := m s)) (d + 1) (s + 1) n"

definition memcpy :: "mem \<Rightarrow> addr \<Rightarrow> addr \<Rightarrow> u32 \<Rightarrow> mem" where
  "memcpy m dest src n = memcpy_loop m dest src (unat n)"

section \<open>memset\<close>

primrec memset_loop :: "mem \<Rightarrow> addr \<Rightarrow> u8 \<Rightarrow> nat \<Rightarrow> mem" where
  "memset_loop m p c 0 = m"
| "memset_loop m p c (Suc n) = memset_loop (m(p := c)) (p + 1) c n"

text \<open>The \<^verbatim>\<open>int\<close> argument is cast to \<^verbatim>\<open>uint8_t\<close> at each store.\<close>

definition memset :: "mem \<Rightarrow> addr \<Rightarrow> int \<Rightarrow> u32 \<Rightarrow> mem" where
  "memset m s c n = memset_loop m s (word_of_int c) (unat n)"

section \<open>memcmp\<close>

primrec memcmp_loop :: "mem \<Rightarrow> addr \<Rightarrow> addr \<Rightarrow> nat \<Rightarrow> int" where
  "memcmp_loop m p1 p2 0 = 0"
| "memcmp_loop m p1 p2 (Suc n) =
     (if m p1 \<noteq> m p2 then uint (m p1) - uint (m p2) else memcmp_loop m (p1 + 1) (p2 + 1) n)"

definition memcmp :: "mem \<Rightarrow> addr \<Rightarrow> addr \<Rightarrow> u32 \<Rightarrow> int" where
  "memcmp m s1 s2 n = memcmp_loop m s1 s2 (unat n)"

section \<open>memmove\<close>

text \<open>The backward loop: both pointers are decremented before the byte is moved.\<close>

primrec memmove_back :: "mem \<Rightarrow> addr \<Rightarrow> addr \<Rightarrow> nat \<Rightarrow> mem" where
  "memmove_back m d s 0 = m"
| "memmove_back m d s (Suc n) = memmove_back (m(d - 1 := m (s - 1))) (d - 1) (s - 1) n"

definition memmove :: "mem \<Rightarrow> addr \<Rightarrow> addr \<Rightarrow> u32 \<Rightarrow> mem" where
  "memmove m dest src n =
     (if dest < src then memcpy_loop m dest src (unat n)
      else memmove_back m (dest + n) (src + n) (unat n))"

section \<open>Correctness of the copies\<close>

lemma succ_addr: "unat (d :: addr) + Suc n \<le> 2 ^ 32 \<Longrightarrow> n \<noteq> 0 \<Longrightarrow> unat (d + 1) = unat d + 1"
  by (rule unat_Suc_no_wrap) simp

lemma agree_on_memcpy_loop [frame]:
  "unat d + n \<le> 2 ^ 32 \<Longrightarrow> range_of (unat d) n \<inter> S = {} \<Longrightarrow> agree_on S m (memcpy_loop m d s n)"
proof (induction n arbitrary: m d s)
  case (Suc n)
  have d: "d \<notin> S" using Suc.prems(2) by fastforce
  show ?case
  proof (cases "n = 0")
    case True
    with d show ?thesis by (auto simp: agree_on_def)
  next
    case False
    with Suc.prems have "unat (d + 1) = unat d + 1" by (simp add: succ_addr)
    then have "range_of (unat (d + 1)) n \<subseteq> range_of (unat d) (Suc n)" by auto
    with Suc.prems \<open>unat (d + 1) = unat d + 1\<close>
    have "agree_on S (m(d := m s)) (memcpy_loop (m(d := m s)) (d + 1) (s + 1) n)"
      by (intro Suc.IH) auto
    with d show ?thesis by (simp add: agree_on_of_upd)
  qed
qed simp

text \<open>
  A forward copy is right when the regions do not overlap, and also when the destination
  starts below the source: each source byte is read before it is overwritten.
\<close>

lemma memcpy_loop_nth:
  assumes "unat d + n \<le> 2 ^ 32" "unat s + n \<le> 2 ^ 32"
    and "unat d \<le> unat s \<or> unat s + n \<le> unat d" and "i < n"
  shows "memcpy_loop m d s n (d + of_nat i) = m (s + of_nat i)"
  using assms
proof (induction n arbitrary: m d s i)
  case (Suc n)
  show ?case
  proof (cases i)
    case 0
    have "agree_on {d} (m(d := m s)) (memcpy_loop (m(d := m s)) (d + 1) (s + 1) n)"
    proof (cases "n = 0")
      case False
      with Suc.prems have "unat (d + 1) = unat d + 1" by (simp add: succ_addr)
      with Suc.prems show ?thesis by (intro agree_on_memcpy_loop) auto
    qed simp
    with 0 show ?thesis by (simp add: agree_on_def)
  next
    case (Suc j)
    with Suc.prems have j: "j < n" by simp
    with Suc.prems have d: "unat (d + 1) = unat d + 1" and s: "unat (s + 1) = unat s + 1"
      by (simp_all add: succ_addr)
    have sj: "unat (s + 1 + of_nat j) = unat s + 1 + j"
      using Suc.prems(2) j s by (subst unat_offset) simp_all
    have "s + 1 + of_nat j \<noteq> d"
      using Suc.prems(3) j sj by auto
    moreover have "memcpy_loop (m(d := m s)) (d + 1) (s + 1) n (d + 1 + of_nat j)
        = (m(d := m s)) (s + 1 + of_nat j)"
      using Suc.prems j d s by (intro Suc.IH) auto
    ultimately show ?thesis using Suc by (simp add: algebra_simps)
  qed
qed simp

lemma agree_on_memmove_back [frame]:
  "unat d + n \<le> 2 ^ 32 \<Longrightarrow> range_of (unat d) n \<inter> S = {} \<Longrightarrow>
    agree_on S m (memmove_back m (d + of_nat n) s n)"
proof (induction n arbitrary: m s)
  case (Suc n)
  have "unat (d + of_nat n) = unat d + n"
    using Suc.prems(1) by (intro unat_offset) simp
  then have "d + of_nat n \<in> range_of (unat d) (Suc n)" by simp
  with Suc.prems(2) have d: "d + of_nat n \<notin> S" by blast
  have "agree_on S (m(d + of_nat n := m (s - 1)))
      (memmove_back (m(d + of_nat n := m (s - 1))) (d + of_nat n) (s - 1) n)"
    using Suc.prems by (intro Suc.IH) fastforce+
  with d show ?case by (simp add: agree_on_of_upd)
qed simp

lemma memmove_back_nth:
  assumes "unat d + n \<le> 2 ^ 32" "unat s + n \<le> 2 ^ 32"
    and "unat s \<le> unat d \<or> unat d + n \<le> unat s" and "i < n"
  shows "memmove_back m (d + of_nat n) (s + of_nat n) n (d + of_nat i) = m (s + of_nat i)"
  using assms
proof (induction n arbitrary: m)
  case (Suc n)
  let ?m = "m(d + of_nat n := m (s + of_nat n))"
  have top: "unat (d + of_nat n) = unat d + n"
    using Suc.prems(1) by (intro unat_offset) simp
  show ?case
  proof (cases "i = n")
    case True
    have "agree_on {d + of_nat n} ?m (memmove_back ?m (d + of_nat n) (s + of_nat n) n)"
      using Suc.prems(1) top by (intro agree_on_memmove_back) auto
    with True show ?thesis by (simp add: agree_on_def)
  next
    case False
    with Suc.prems have i: "i < n" by simp
    have "unat (s + of_nat i) = unat s + i"
      using Suc.prems(2) i by (intro unat_offset) simp
    with top Suc.prems(3) i have "s + of_nat i \<noteq> d + of_nat n" by auto
    moreover have "memmove_back ?m (d + of_nat n) (s + of_nat n) n (d + of_nat i) = ?m (s + of_nat i)"
      using Suc.prems i by (intro Suc.IH) auto
    ultimately show ?thesis by simp
  qed
qed simp

lemma bytes_at_memcpy:
  assumes "unat d + unat n \<le> 2 ^ 32" "unat s + unat n \<le> 2 ^ 32"
    and "unat d \<le> unat s \<or> unat s + unat n \<le> unat d"
  shows "bytes_at (memcpy m d s n) d (unat n) = bytes_at m s (unat n)"
  using memcpy_loop_nth [OF assms] by (simp add: bytes_at_eq_iff memcpy_def)

lemma agree_on_memcpy [frame]:
  "unat d + unat n \<le> 2 ^ 32 \<Longrightarrow> range_of (unat d) (unat n) \<inter> S = {} \<Longrightarrow>
    agree_on S m (memcpy m d s n)"
  by (simp add: memcpy_def agree_on_memcpy_loop)

lemma agree_on_memmove [frame]:
  "unat d + unat n \<le> 2 ^ 32 \<Longrightarrow> range_of (unat d) (unat n) \<inter> S = {} \<Longrightarrow>
    agree_on S m (memmove m d s n)"
  using agree_on_memmove_back [of d "unat n" S m "s + n"]
  by (simp add: memmove_def agree_on_memcpy_loop)

lemma bytes_at_memmove:
  assumes "unat d + unat n \<le> 2 ^ 32" "unat s + unat n \<le> 2 ^ 32"
  shows "bytes_at (memmove m d s n) d (unat n) = bytes_at m s (unat n)"
proof (cases "d < s")
  case True
  then have "unat d \<le> unat s \<or> unat s + unat n \<le> unat d" by (simp add: word_less_nat_alt)
  from memcpy_loop_nth [OF assms this] True show ?thesis
    by (simp add: memmove_def bytes_at_eq_iff)
next
  case False
  then have "unat s \<le> unat d \<or> unat d + unat n \<le> unat s"
    by (simp add: word_less_nat_alt)
  from memmove_back_nth [OF assms this] False show ?thesis
    by (simp add: memmove_def bytes_at_eq_iff)
qed

lemma memset_loop_spec:
  "unat d + n \<le> 2 ^ 32 \<Longrightarrow>
    memset_loop m d c n x = (if x \<in> range_of (unat d) n then c else m x)"
proof (induction n arbitrary: m d)
  case (Suc n)
  show ?case
  proof (cases "n = 0")
    case True
    then show ?thesis by (auto simp: word_unat_eq_iff)
  next
    case False
    with Suc.prems have d: "unat (d + 1) = unat d + 1" by (simp add: succ_addr)
    with Suc.prems have "memset_loop (m(d := c)) (d + 1) c n x
        = (if x \<in> range_of (unat (d + 1)) n then c else (m(d := c)) x)"
      by (intro Suc.IH) simp
    with d show ?thesis by (auto simp: word_unat_eq_iff)
  qed
qed auto

lemma bytes_at_memset:
  assumes "unat d + unat n \<le> 2 ^ 32"
  shows "bytes_at (memset m d c n) d (unat n) = replicate (unat n) (word_of_int c)"
proof (rule nth_equalityI)
  fix i assume "i < length (bytes_at (memset m d c n) d (unat n))"
  then have i: "i < unat n" by simp
  with assms have "unat (d + of_nat i) = unat d + i" by (intro unat_offset) simp
  with assms i show "bytes_at (memset m d c n) d (unat n) ! i = replicate (unat n) (word_of_int c) ! i"
    by (simp add: memset_def memset_loop_spec)
qed simp

lemma agree_on_memset [frame]:
  "unat d + unat n \<le> 2 ^ 32 \<Longrightarrow> range_of (unat d) (unat n) \<inter> S = {} \<Longrightarrow>
    agree_on S m (memset m d c n)"
  by (auto simp: agree_on_def memset_def memset_loop_spec)

text \<open>\<^verbatim>\<open>memcmp\<close> returns the difference at the first position where the regions differ.\<close>

lemma memcmp_loop_zero: "memcmp_loop m a b n = 0 \<longleftrightarrow> bytes_at m a n = bytes_at m b n"
  by (induction n arbitrary: a b) (auto simp: bytes_at_Suc dest: unsigned_word_eqI)

lemma memcmp_loop_first:
  "i < n \<Longrightarrow> (\<forall>j<i. m (a + of_nat j) = m (b + of_nat j)) \<Longrightarrow> m (a + of_nat i) \<noteq> m (b + of_nat i) \<Longrightarrow>
    memcmp_loop m a b n = uint (m (a + of_nat i)) - uint (m (b + of_nat i))"
proof (induction n arbitrary: a b i)
  case (Suc n)
  show ?case
  proof (cases i)
    case 0
    with Suc.prems show ?thesis by simp
  next
    case (Suc k)
    have eq: "m (a + 1 + of_nat j) = m (b + 1 + of_nat j)" if "j < k" for j
      using Suc.prems(2) that Suc by (force simp: algebra_simps dest: spec [of _ "Suc j"])
    have "m a = m b" using Suc.prems(2) Suc by (force dest: spec [of _ 0])
    with Suc.IH [of k "a + 1" "b + 1"] Suc.prems Suc eq show ?thesis
      by (simp add: algebra_simps)
  qed
qed simp

end
