(* ===== verification/CString.thy ===== *)
theory CString
  imports CMem "HOL-Library.Signed_Division"
begin

text \<open>
  The string library \<^verbatim>\<open>src/src/lib/string.c\<close>. A \<^verbatim>\<open>const char *\<close> is an address in memory or a
  string literal of the program (read-only data that no store reaches). A loop over a string ends
  only at a NUL byte, so the functions are partial: \<open>None\<close> is a loop that never meets one. The
  second half relates each function to the byte list a C string stands for.
\<close>

section \<open>Pointers to constant strings\<close>

datatype cptr = Ptr addr | Lit string

fun deref :: "mem \<Rightarrow> cptr \<Rightarrow> u8" where
  "deref m (Ptr a) = m a"
| "deref m (Lit s) = (case s of [] \<Rightarrow> 0 | c # _ \<Rightarrow> of_char c)"

text \<open>\<^verbatim>\<open>p++\<close>, and \<^verbatim>\<open>p + i\<close>.\<close>

fun pinc :: "cptr \<Rightarrow> cptr" where
  "pinc (Ptr a) = Ptr (a + 1)"
| "pinc (Lit s) = Lit (tl s)"

fun padd :: "cptr \<Rightarrow> u32 \<Rightarrow> cptr" where
  "padd (Ptr a) i = Ptr (a + i)"
| "padd (Lit s) i = Lit (drop (unat i) s)"

section \<open>string.c\<close>

partial_function (option) strlen_loop :: "mem \<Rightarrow> cptr \<Rightarrow> u32 \<Rightarrow> u32 option" where
  "strlen_loop m s len =
     (if deref m (padd s len) \<noteq> 0 then strlen_loop m s (len + 1) else Some len)"

definition strlen :: "mem \<Rightarrow> cptr \<Rightarrow> u32 option" where
  "strlen m s = strlen_loop m s 0"

partial_function (option) strcmp_loop :: "mem \<Rightarrow> cptr \<Rightarrow> cptr \<Rightarrow> (cptr \<times> cptr) option" where
  "strcmp_loop m s1 s2 =
     (if deref m s1 \<noteq> 0 \<and> deref m s1 = deref m s2 then strcmp_loop m (pinc s1) (pinc s2)
      else Some (s1, s2))"

definition strcmp :: "mem \<Rightarrow> cptr \<Rightarrow> cptr \<Rightarrow> int option" where
  "strcmp m s1 s2 =
     do { (p1, p2) \<leftarrow> strcmp_loop m s1 s2; Some (uint (deref m p1) - uint (deref m p2)) }"

primrec strncmp_loop :: "mem \<Rightarrow> cptr \<Rightarrow> cptr \<Rightarrow> nat \<Rightarrow> cptr \<times> cptr \<times> nat" where
  "strncmp_loop m s1 s2 0 = (s1, s2, 0)"
| "strncmp_loop m s1 s2 (Suc n) =
     (if deref m s1 \<noteq> 0 \<and> deref m s1 = deref m s2 then strncmp_loop m (pinc s1) (pinc s2) n
      else (s1, s2, Suc n))"

definition strncmp :: "mem \<Rightarrow> cptr \<Rightarrow> cptr \<Rightarrow> u32 \<Rightarrow> int" where
  "strncmp m s1 s2 n =
     (let (p1, p2, k) = strncmp_loop m s1 s2 (unat n)
      in if k = 0 then 0 else uint (deref m p1) - uint (deref m p2))"

text \<open>The writers return \<^verbatim>\<open>dest\<close>, which the caller has; the model returns the memory.\<close>

partial_function (option) strcpy :: "mem \<Rightarrow> addr \<Rightarrow> cptr \<Rightarrow> mem option" where
  "strcpy m d src =
     (let c = deref m src; m' = m(d := c)
      in if c \<noteq> 0 then strcpy m' (d + 1) (pinc src) else Some m')"

text \<open>
  The copy loop of \<^verbatim>\<open>strncpy\<close> tests \<open>n\<close>, then copies a byte, then tests the byte, and only then
  decrements \<open>n\<close>: the iteration that copies the NUL does not count.
\<close>

primrec strncpy_copy :: "mem \<Rightarrow> addr \<Rightarrow> cptr \<Rightarrow> nat \<Rightarrow> mem \<times> addr \<times> nat" where
  "strncpy_copy m d src 0 = (m, d, 0)"
| "strncpy_copy m d src (Suc n) =
     (let c = deref m src; m' = m(d := c)
      in if c \<noteq> 0 then strncpy_copy m' (d + 1) (pinc src) n else (m', d + 1, Suc n))"

definition strncpy :: "mem \<Rightarrow> addr \<Rightarrow> cptr \<Rightarrow> u32 \<Rightarrow> mem" where
  "strncpy m dest src n =
     (let (m', d, k) = strncpy_copy m dest src (unat n) in memset_loop m' d 0 k)"

partial_function (option) strcat_end :: "mem \<Rightarrow> addr \<Rightarrow> addr option" where
  "strcat_end m d = (if m d \<noteq> 0 then strcat_end m (d + 1) else Some d)"

definition strcat :: "mem \<Rightarrow> addr \<Rightarrow> cptr \<Rightarrow> mem option" where
  "strcat m dest src = do { d \<leftarrow> strcat_end m dest; strcpy m d src }"

text \<open>The searches: the result is a pointer, NULL when nothing is found.\<close>

partial_function (option) strchr_loop :: "mem \<Rightarrow> cptr \<Rightarrow> u8 \<Rightarrow> int \<Rightarrow> cptr option" where
  "strchr_loop m s ch c =
     (if deref m s \<noteq> 0 then (if deref m s = ch then Some s else strchr_loop m (pinc s) ch c)
      else Some (if c = 0 then s else Ptr NULL))"

definition strchr :: "mem \<Rightarrow> cptr \<Rightarrow> int \<Rightarrow> cptr option" where
  "strchr m s c = strchr_loop m s (word_of_int c) c"

partial_function (option) strrchr_loop :: "mem \<Rightarrow> cptr \<Rightarrow> cptr \<Rightarrow> u8 \<Rightarrow> (cptr \<times> cptr) option" where
  "strrchr_loop m s found ch =
     (if deref m s \<noteq> 0 then strrchr_loop m (pinc s) (if deref m s = ch then s else found) ch
      else Some (s, found))"

definition strrchr :: "mem \<Rightarrow> cptr \<Rightarrow> int \<Rightarrow> cptr option" where
  "strrchr m s c =
     do { (e, found) \<leftarrow> strrchr_loop m s (Ptr NULL) (word_of_int c);
          Some (if c = 0 then e else found) }"

partial_function (option) strstr_match :: "mem \<Rightarrow> cptr \<Rightarrow> cptr \<Rightarrow> cptr option" where
  "strstr_match m h n =
     (if deref m h \<noteq> 0 \<and> deref m n \<noteq> 0 \<and> deref m h = deref m n
      then strstr_match m (pinc h) (pinc n) else Some n)"

partial_function (option) strstr_loop :: "mem \<Rightarrow> cptr \<Rightarrow> cptr \<Rightarrow> cptr option" where
  "strstr_loop m haystack needle =
     (if deref m haystack \<noteq> 0 then
        do { n \<leftarrow> strstr_match m haystack needle;
             if deref m n = 0 then Some haystack
             else strstr_loop m (pinc haystack) needle }
      else Some (Ptr NULL))"

definition strstr :: "mem \<Rightarrow> cptr \<Rightarrow> cptr \<Rightarrow> cptr option" where
  "strstr m haystack needle =
     (if deref m needle = 0 then Some haystack else strstr_loop m haystack needle)"

text \<open>
  \<^verbatim>\<open>itoa\<close>: \<^verbatim>\<open>value\<close> and \<^verbatim>\<open>base\<close> are \<^verbatim>\<open>int\<close>, held as 32-bit words; \<^verbatim>\<open>uvalue % base\<close> is an unsigned
  division, which traps for base 0 (\<open>None\<close>) and never reaches 0 for base 1. Negating the
  smallest \<^verbatim>\<open>int\<close> wraps, as the code does on the target.
\<close>

definition itoa_digit :: "u32 \<Rightarrow> u8" where
  "itoa_digit divisor =
     (if divisor <s 10 then ucast (48 + divisor) else ucast (97 + divisor - 10))"

partial_function (option) itoa_digits :: "mem \<Rightarrow> addr \<Rightarrow> u32 \<Rightarrow> u32 \<Rightarrow> (mem \<times> addr) option" where
  "itoa_digits m p uvalue base =
     (if base = 0 then None
      else (let m' = m(p := itoa_digit (uvalue mod base)); uvalue' = uvalue div base
            in if uvalue' \<noteq> 0 then itoa_digits m' (p + 1) uvalue' base else Some (m', p + 1)))"

function itoa_reverse :: "mem \<Rightarrow> addr \<Rightarrow> addr \<Rightarrow> mem" where
  "itoa_reverse m p1 p2 =
     (if p1 < p2 then
        (let tmp = m p1 in itoa_reverse (m(p1 := m p2, p2 := tmp)) (p1 + 1) (p2 - 1))
      else m)"
  by pat_completeness auto
termination
proof (relation "measure (\<lambda>(m, p1, p2). unat p2 - unat p1)", goal_cases)
  case (2 m p1 p2 x)
  then have "unat p1 < unat p2" by (simp add: word_less_nat_alt)
  moreover from this have "unat (p1 + 1) = unat p1 + 1"
    using unat_u32_lt [of p2] by (intro unat_Suc_no_wrap) simp
  moreover have "unat (p2 - 1) = unat p2 - 1"
    using \<open>unat p1 < unat p2\<close> by (subst unat_minus_no_wrap) simp_all
  ultimately show ?case by simp
qed simp

declare itoa_reverse.simps [simp del]

definition itoa :: "mem \<Rightarrow> u32 \<Rightarrow> addr \<Rightarrow> u32 \<Rightarrow> mem option" where
  "itoa m val str base =
     (let neg = (val <s 0 \<and> base = 10);
          m0 = (if neg then m(str := 45) else m);
          start = (if neg then str + 1 else str);
          uvalue = (if neg then - val else val)
      in do {
        (m1, p) \<leftarrow> itoa_digits m0 start uvalue base;
        Some (itoa_reverse (m1(p := 0)) start (p - 1))
      })"

text \<open>\<^verbatim>\<open>atoi\<close>: \<^verbatim>\<open>char\<close> is signed, and the running \<^verbatim>\<open>int\<close> result wraps.\<close>

definition is_digit_char :: "u8 \<Rightarrow> bool" where
  "is_digit_char c \<longleftrightarrow> 48 \<le>s c \<and> c \<le>s 57"

partial_function (option) atoi_skip :: "mem \<Rightarrow> cptr \<Rightarrow> cptr option" where
  "atoi_skip m str =
     (if deref m str = 32 \<or> deref m str = 9 then atoi_skip m (pinc str) else Some str)"

partial_function (option) atoi_digits :: "mem \<Rightarrow> cptr \<Rightarrow> u32 \<Rightarrow> u32 option" where
  "atoi_digits m str result =
     (if is_digit_char (deref m str)
      then atoi_digits m (pinc str) (result * 10 + (scast (deref m str) - 48))
      else Some result)"

definition atoi :: "mem \<Rightarrow> cptr \<Rightarrow> u32 option" where
  "atoi m str = do {
     s \<leftarrow> atoi_skip m str;
     result \<leftarrow> atoi_digits m (if deref m s = 45 \<or> deref m s = 43 then pinc s else s) 0;
     Some (if deref m s = 45 then - 1 * result else 1 * result) }"

section \<open>Character classification\<close>

definition toupper :: "int \<Rightarrow> int" where "toupper c = (if 97 \<le> c \<and> c \<le> 122 then c - 32 else c)"
definition tolower :: "int \<Rightarrow> int" where "tolower c = (if 65 \<le> c \<and> c \<le> 90 then c + 32 else c)"
definition isalpha :: "int \<Rightarrow> bool" where
  "isalpha c \<longleftrightarrow> (97 \<le> c \<and> c \<le> 122) \<or> (65 \<le> c \<and> c \<le> 90)"
definition isdigit :: "int \<Rightarrow> bool" where "isdigit c \<longleftrightarrow> 48 \<le> c \<and> c \<le> 57"
definition isalnum :: "int \<Rightarrow> bool" where "isalnum c \<longleftrightarrow> isalpha c \<or> isdigit c"
definition isspace :: "int \<Rightarrow> bool" where
  "isspace c \<longleftrightarrow> c = 32 \<or> c = 9 \<or> c = 10 \<or> c = 13 \<or> c = 12 \<or> c = 11"

section \<open>The byte list of a C string\<close>

text \<open>\<open>cstr m p s\<close>: at \<open>p\<close> stands the string \<open>s\<close>, free of NUL, followed by a NUL.\<close>

primrec cstr :: "mem \<Rightarrow> cptr \<Rightarrow> u8 list \<Rightarrow> bool" where
  "cstr m p [] \<longleftrightarrow> deref m p = 0"
| "cstr m p (c # cs) \<longleftrightarrow> deref m p = c \<and> c \<noteq> 0 \<and> cstr m (pinc p) cs"

lemma cstr_unique: "cstr m p s \<Longrightarrow> cstr m p t \<Longrightarrow> s = t"
proof (induction s arbitrary: p t)
  case Nil
  then show ?case by (cases t) auto
next
  case (Cons c cs)
  then show ?case by (cases t) auto
qed

lemma cstr_nonzero: "cstr m p s \<Longrightarrow> 0 \<notin> set s"
  by (induction s arbitrary: p) auto

lemma cstr_Lit: "0 \<notin> set (bytes s) \<Longrightarrow> cstr m (Lit s) (bytes s)"
  by (induction s) auto

lemma cstr_Ptr: "cstr m (Ptr a) s \<longleftrightarrow>
    bytes_at m a (length s) = s \<and> m (a + of_nat (length s)) = 0 \<and> 0 \<notin> set s"
proof (induction s arbitrary: a)
  case (Cons c cs)
  show ?case by (auto simp: bytes_at_Suc Cons.IH algebra_simps)
qed simp

lemma cstr_append:
  "cstr m (Ptr a) (x @ y) \<longleftrightarrow> bytes_at m a (length x) = x \<and> 0 \<notin> set x \<and> cstr m (Ptr (a + of_nat (length x))) y"
  by (induction x arbitrary: a) (auto simp: bytes_at_Suc algebra_simps)

text \<open>The addresses a pointer's first \<open>n\<close> bytes occupy, and that they do not wrap.\<close>

fun cspan :: "cptr \<Rightarrow> nat \<Rightarrow> addr set" where
  "cspan (Ptr a) n = range_of (unat a) n"
| "cspan (Lit s) n = {}"

fun cfits :: "cptr \<Rightarrow> nat \<Rightarrow> bool" where
  "cfits (Ptr a) n \<longleftrightarrow> unat a + n \<le> 2 ^ 32"
| "cfits (Lit s) n \<longleftrightarrow> True"

lemma deref_cong: "agree_on (cspan p n) m m' \<Longrightarrow> 0 < n \<Longrightarrow> deref m p = deref m' p"
  by (cases p) (auto simp: agree_on_def)

lemma cspan_pinc: "cfits p (Suc (Suc n)) \<Longrightarrow> cspan (pinc p) (Suc n) \<subseteq> cspan p (Suc (Suc n))"
  by (cases p) (auto simp: unat_Suc_no_wrap)

lemma cfits_pinc: "cfits p (Suc (Suc n)) \<Longrightarrow> cfits (pinc p) (Suc n)"
  by (cases p) (auto simp: unat_Suc_no_wrap)

lemma cstr_cong:
  assumes "agree_on (cspan p (Suc (length s))) m m'" "cfits p (Suc (length s))"
  shows "cstr m p s \<longleftrightarrow> cstr m' p s"
  using assms
proof (induction s arbitrary: p)
  case Nil
  then show ?case by (simp add: deref_cong)
next
  case (Cons c cs)
  have "deref m p = deref m' p" by (rule deref_cong [OF Cons.prems(1)]) simp
  moreover have "cstr m (pinc p) cs \<longleftrightarrow> cstr m' (pinc p) cs"
    using Cons.prems cspan_pinc [of p "length cs"] by (intro Cons.IH agree_on_mono [OF Cons.prems(1)] cfits_pinc) auto
  ultimately show ?case by simp
qed

section \<open>strlen, strcmp and strncmp\<close>

lemma padd_0 [simp]: "padd p 0 = p"
  by (cases p) simp_all

lemma padd_inc: "unat len + 1 < 2 ^ 32 \<Longrightarrow> padd p (len + 1) = pinc (padd p len)"
  by (cases p) (simp_all add: unat_Suc_no_wrap add.assoc drop_Suc tl_drop)

lemma strlen_loop_eq:
  "cstr m (padd p len) s \<Longrightarrow> unat len + length s < 2 ^ 32 \<Longrightarrow>
    strlen_loop m p len = Some (len + of_nat (length s))"
proof (induction s arbitrary: len)
  case Nil
  then show ?case by (simp add: strlen_loop.simps)
next
  case (Cons c cs)
  have "unat (len + 1) = unat len + 1" using Cons.prems(2) by (intro unat_Suc_no_wrap) simp
  then have "strlen_loop m p (len + 1) = Some (len + 1 + of_nat (length cs))"
    using Cons.prems by (intro Cons.IH) (simp_all add: padd_inc)
  with Cons.prems(1) show ?case by (subst strlen_loop.simps) (simp add: algebra_simps)
qed

lemma strlen_eq: "cstr m p s \<Longrightarrow> length s < 2 ^ 32 \<Longrightarrow> strlen m p = Some (of_nat (length s))"
  using strlen_loop_eq [of m p 0 s] by (simp add: strlen_def)

fun cmp_bytes :: "u8 list \<Rightarrow> u8 list \<Rightarrow> int" where
  "cmp_bytes [] [] = 0"
| "cmp_bytes (c # s) [] = uint c"
| "cmp_bytes [] (d # t) = - uint d"
| "cmp_bytes (c # s) (d # t) = (if c = d then cmp_bytes s t else uint c - uint d)"

lemma strcmp_eq: "cstr m p s \<Longrightarrow> cstr m q t \<Longrightarrow> strcmp m p q = Some (cmp_bytes s t)"
proof (induction s t arbitrary: p q rule: cmp_bytes.induct)
  case (4 c s d t)
  then show ?case by (cases "c = d") (auto simp: strcmp_def strcmp_loop.simps [of m p q])
qed (simp_all add: strcmp_def strcmp_loop.simps)

lemma uint_eq_0: "uint (c :: u8) = 0 \<longleftrightarrow> c = 0"
  by (simp add: uint_0_iff)

lemma cmp_bytes_0: "0 \<notin> set s \<Longrightarrow> 0 \<notin> set t \<Longrightarrow> cmp_bytes s t = 0 \<longleftrightarrow> s = t"
  by (induction s t rule: cmp_bytes.induct) (auto simp: uint_eq_0 dest: unsigned_word_eqI)

lemma strcmp_0: "cstr m p s \<Longrightarrow> cstr m q t \<Longrightarrow> strcmp m p q = Some 0 \<longleftrightarrow> s = t"
  by (simp add: strcmp_eq cmp_bytes_0 cstr_nonzero)

lemma strncmp_eq:
  "cstr m p s \<Longrightarrow> cstr m q t \<Longrightarrow> strncmp m p q n = cmp_bytes (take (unat n) s) (take (unat n) t)"
proof -
  have "cstr m p s \<Longrightarrow> cstr m q t \<Longrightarrow>
    (case strncmp_loop m p q k of (p1, p2, j) \<Rightarrow> if j = 0 then 0 else uint (deref m p1) - uint (deref m p2))
      = cmp_bytes (take k s) (take k t)" for k p q s t
  proof (induction k arbitrary: p q s t)
    case (Suc k)
    then show ?case by (cases s; cases t) auto
  qed simp
  then show "cstr m p s \<Longrightarrow> cstr m q t \<Longrightarrow> strncmp m p q n = cmp_bytes (take (unat n) s) (take (unat n) t)"
    by (simp add: strncmp_def)
qed

section \<open>The writers\<close>

text \<open>Storing a byte list from an address on; every writer is such a store.\<close>

primrec put_bytes :: "mem \<Rightarrow> addr \<Rightarrow> u8 list \<Rightarrow> mem" where
  "put_bytes m d [] = m"
| "put_bytes m d (b # bs) = put_bytes (m(d := b)) (d + 1) bs"

lemma put_bytes_append: "put_bytes m d (xs @ ys) = put_bytes (put_bytes m d xs) (d + of_nat (length xs)) ys"
  by (induction xs arbitrary: m d) (simp_all add: algebra_simps)

lemma put_bytes_apply:
  "unat d + length bs \<le> 2 ^ 32 \<Longrightarrow>
    put_bytes m d bs x = (if x \<in> range_of (unat d) (length bs) then bs ! (unat x - unat d) else m x)"
proof (induction bs arbitrary: m d)
  case (Cons b bs)
  show ?case
  proof (cases "bs = []")
    case True
    then show ?thesis by (auto simp: word_unat_eq_iff)
  next
    case False
    with Cons.prems have d: "unat (d + 1) = unat d + 1" by (intro succ_addr [of d "length bs"]) simp_all
    with Cons.prems have "put_bytes (m(d := b)) (d + 1) bs x
        = (if x \<in> range_of (unat (d + 1)) (length bs) then bs ! (unat x - unat (d + 1)) else (m(d := b)) x)"
      by (intro Cons.IH) simp
    with d show ?thesis by (auto simp: word_unat_eq_iff nth_Cons')
  qed
qed auto

lemma agree_on_put_bytes [frame]:
  "unat d + length bs \<le> 2 ^ 32 \<Longrightarrow> range_of (unat d) (length bs) \<inter> S = {} \<Longrightarrow>
    agree_on S m (put_bytes m d bs)"
  by (auto simp: agree_on_def put_bytes_apply)

lemma bytes_at_put_bytes:
  assumes "unat d + length bs \<le> 2 ^ 32"
  shows "bytes_at (put_bytes m d bs) d (length bs) = bs"
proof (rule nth_equalityI)
  fix i assume "i < length (bytes_at (put_bytes m d bs) d (length bs))"
  then have i: "i < length bs" by simp
  with assms have "unat (d + of_nat i) = unat d + i" by (intro unat_offset) simp
  with assms i show "bytes_at (put_bytes m d bs) d (length bs) ! i = bs ! i"
    by (simp add: put_bytes_apply)
qed simp

lemma memset_loop_put: "memset_loop m d c n = put_bytes m d (replicate n c)"
  by (induction n arbitrary: m d) simp_all

lemma cstr_put_bytes:
  assumes "unat d + length s < 2 ^ 32" "0 \<notin> set s"
  shows "cstr (put_bytes m d (s @ [0])) (Ptr d) s"
proof -
  have b: "unat d + length (s @ [0]) \<le> 2 ^ 32" using assms(1) by simp
  from bytes_at_put_bytes [OF b, of m] have
    "bytes_at (put_bytes m d (s @ [0])) d (length s) @ bytes_at (put_bytes m d (s @ [0])) (d + of_nat (length s)) 1
      = s @ [0]"
    by (simp add: bytes_at_add [symmetric])
  then have "bytes_at (put_bytes m d (s @ [0])) d (length s) = s"
    "bytes_at (put_bytes m d (s @ [0])) (d + of_nat (length s)) 1 = [0]"
    by (simp_all add: append_eq_append_conv)
  then show ?thesis using assms(2) by (simp add: cstr_Ptr bytes_at_Suc)
qed

text \<open>A source that the destination region does not overlap.\<close>

lemma cstr_after_store:
  assumes "cstr m p s" "d \<notin> cspan p (Suc (length s))" "cfits p (Suc (length s))"
  shows "cstr (m(d := v)) p s"
  using assms cstr_cong [of p s m "m(d := v)"] by (simp add: agree_on_upd)

lemma strcpy_eq:
  "cstr m src s \<Longrightarrow> unat d + length s < 2 ^ 32 \<Longrightarrow> cfits src (Suc (length s)) \<Longrightarrow>
    cspan src (Suc (length s)) \<inter> range_of (unat d) (Suc (length s)) = {} \<Longrightarrow>
    strcpy m d src = Some (put_bytes m d (s @ [0]))"
proof (induction s arbitrary: m d src)
  case Nil
  then show ?case by (subst strcpy.simps) simp
next
  case (Cons c cs)
  let ?n = "Suc (length cs)"
  have d: "unat (d + 1) = unat d + 1" using Cons.prems(2) by (intro unat_Suc_no_wrap) simp
  have sub: "cspan (pinc src) ?n \<subseteq> cspan src (Suc ?n)" and f: "cfits (pinc src) ?n"
    using Cons.prems(3) cspan_pinc cfits_pinc by simp_all
  have disj: "cspan src (Suc ?n) \<inter> range_of (unat d) (Suc ?n) = {}" using Cons.prems(4) by simp
  have "d \<in> range_of (unat d) (Suc ?n)" by simp
  with disj sub have "d \<notin> cspan (pinc src) ?n" by blast
  then have "cstr (m(d := c)) (pinc src) cs" using Cons.prems(1) f by (intro cstr_after_store) simp_all
  moreover have "range_of (unat (d + 1)) ?n \<subseteq> range_of (unat d) (Suc ?n)" using d by auto
  then have "cspan (pinc src) ?n \<inter> range_of (unat (d + 1)) ?n = {}" using disj sub by blast
  ultimately have "strcpy (m(d := c)) (d + 1) (pinc src) = Some (put_bytes (m(d := c)) (d + 1) (cs @ [0]))"
    using Cons.prems(2) d f by (intro Cons.IH) (simp_all del: fun_upd_apply)
  with Cons.prems(1) show ?case by (subst strcpy.simps) (simp add: Let_def)
qed

text \<open>A source behind the destination: the copy goes upwards, so the two may overlap.\<close>

lemma strcpy_down:
  "cstr m (Ptr q) s \<Longrightarrow> unat q + length s < 2 ^ 32 \<Longrightarrow> unat d \<le> unat q \<Longrightarrow>
    strcpy m d (Ptr q) = Some (put_bytes m d (s @ [0]))"
proof (induction s arbitrary: m d q)
  case Nil
  then show ?case by (subst strcpy.simps) simp
next
  case (Cons c cs)
  have u: "unat (q + 1) = unat q + 1" using Cons.prems(2) by (intro unat_Suc_no_wrap) simp
  have d: "unat (d + 1) = unat d + 1" using Cons.prems(2,3) by (intro unat_Suc_no_wrap) simp
  have "cstr (m(d := c)) (Ptr (q + 1)) cs"
    using Cons.prems u by (intro cstr_after_store) simp_all
  then have "strcpy (m(d := c)) (d + 1) (Ptr (q + 1)) = Some (put_bytes (m(d := c)) (d + 1) (cs @ [0]))"
    using Cons.prems(2,3) d u by (intro Cons.IH) (simp_all del: fun_upd_apply)
  with Cons.prems(1) show ?case by (subst strcpy.simps) (simp add: Let_def)
qed

lemma strncpy_copy_eq:
  "cstr m src s \<Longrightarrow> unat d + n < 2 ^ 32 \<Longrightarrow> cfits src (Suc (length s)) \<Longrightarrow>
    cspan src (Suc (length s)) \<inter> range_of (unat d) n = {} \<Longrightarrow>
    strncpy_copy m d src n =
      (if length s < n then (put_bytes m d (s @ [0]), d + of_nat (length s) + 1, n - length s)
       else (put_bytes m d (take n s), d + of_nat n, 0))"
proof (induction s arbitrary: m d src n)
  case Nil
  then show ?case by (cases n) simp_all
next
  case (Cons c cs)
  show ?case
  proof (cases n)
    case 0
    then show ?thesis by simp
  next
    case (Suc k)
    have d: "unat (d + 1) = unat d + 1" using Cons.prems(2) Suc by (intro unat_Suc_no_wrap) simp
    have sub: "cspan (pinc src) (Suc (length cs)) \<subseteq> cspan src (Suc (Suc (length cs)))"
      and f: "cfits (pinc src) (Suc (length cs))"
      using Cons.prems(3) cspan_pinc cfits_pinc by simp_all
    have disj: "cspan src (Suc (Suc (length cs))) \<inter> range_of (unat d) n = {}" using Cons.prems(4) by simp
    have "d \<in> range_of (unat d) n" using Suc by simp
    with disj sub have "d \<notin> cspan (pinc src) (Suc (length cs))" by blast
    then have "cstr (m(d := c)) (pinc src) cs" using Cons.prems(1) f by (intro cstr_after_store) simp_all
    moreover have "range_of (unat (d + 1)) k \<subseteq> range_of (unat d) n" using d Suc by auto
    then have "cspan (pinc src) (Suc (length cs)) \<inter> range_of (unat (d + 1)) k = {}" using disj sub by blast
    ultimately have "strncpy_copy (m(d := c)) (d + 1) (pinc src) k =
      (if length cs < k then (put_bytes (m(d := c)) (d + 1) (cs @ [0]), d + 1 + of_nat (length cs) + 1, k - length cs)
       else (put_bytes (m(d := c)) (d + 1) (take k cs), d + 1 + of_nat k, 0))"
      using Cons.prems(2) Suc d f by (intro Cons.IH) (simp_all del: fun_upd_apply)
    with Cons.prems(1) Suc show ?thesis by (simp add: Let_def algebra_simps)
  qed
qed

text \<open>A source shorter than \<open>n\<close>: the string, its NUL, and then \<open>n - length s\<close> more zeros.\<close>

lemma strncpy_short:
  assumes "cstr m src s" "length s < unat n" "unat d + unat n < 2 ^ 32" "cfits src (Suc (length s))"
    and "cspan src (Suc (length s)) \<inter> range_of (unat d) (unat n) = {}"
  shows "strncpy m d src n = put_bytes m d (s @ replicate (Suc (unat n - length s)) 0)"
  using strncpy_copy_eq [OF assms(1,3,4,5)] assms(2)
  by (simp add: strncpy_def memset_loop_put put_bytes_append algebra_simps)

text \<open>A source of at least \<open>n\<close> bytes: the first \<open>n\<close> bytes and no NUL.\<close>

lemma strncpy_long:
  assumes "cstr m src s" "unat n \<le> length s" "unat d + unat n < 2 ^ 32" "cfits src (Suc (length s))"
    and "cspan src (Suc (length s)) \<inter> range_of (unat d) (unat n) = {}"
  shows "strncpy m d src n = put_bytes m d (take (unat n) s)"
  using strncpy_copy_eq [OF assms(1,3,4,5)] assms(2) by (simp add: strncpy_def)

lemma strcat_end_eq: "cstr m (Ptr d) s \<Longrightarrow> strcat_end m d = Some (d + of_nat (length s))"
proof (induction s arbitrary: d)
  case Nil
  then show ?case by (subst strcat_end.simps) simp
next
  case (Cons c cs)
  then show ?case by (subst strcat_end.simps) (simp add: algebra_simps)
qed

lemma strcat_eq:
  assumes "cstr m (Ptr d) s" "cstr m src t" "unat d + length s + length t < 2 ^ 32"
    and "cfits src (Suc (length t))"
    and "cspan src (Suc (length t)) \<inter> range_of (unat d + length s) (Suc (length t)) = {}"
  shows "strcat m d src = Some (put_bytes m (d + of_nat (length s)) (t @ [0]))"
proof -
  have "unat (d + of_nat (length s)) = unat d + length s"
    using assms(3) by (intro unat_offset) simp
  then have "strcpy m (d + of_nat (length s)) src = Some (put_bytes m (d + of_nat (length s)) (t @ [0]))"
    using assms by (intro strcpy_eq) simp_all
  with strcat_end_eq [OF assms(1)] show ?thesis by (simp add: strcat_def)
qed

lemma strcat_down:
  assumes "cstr m (Ptr d) s" "cstr m (Ptr q) t" "unat q + length t < 2 ^ 32" "unat d + length s \<le> unat q"
  shows "strcat m d (Ptr q) = Some (put_bytes m (d + of_nat (length s)) (t @ [0]))"
proof -
  have "unat (d + of_nat (length s)) = unat d + length s"
    using assms(3,4) by (intro unat_offset) simp
  then have "strcpy m (d + of_nat (length s)) (Ptr q) = Some (put_bytes m (d + of_nat (length s)) (t @ [0]))"
    using assms by (intro strcpy_down) simp_all
  with strcat_end_eq [OF assms(1)] show ?thesis by (simp add: strcat_def)
qed

lemma strcat_cstr:
  assumes "cstr m (Ptr d) s" "cstr m src t" "unat d + length s + length t < 2 ^ 32"
  shows "cstr (put_bytes m (d + of_nat (length s)) (t @ [0])) (Ptr d) (s @ t)"
proof -
  let ?e = "d + of_nat (length s)"
  let ?m = "put_bytes m ?e (t @ [0])"
  have e: "unat ?e = unat d + length s" using assms(3) by (intro unat_offset) simp
  have "cstr ?m (Ptr ?e) t"
    using e assms(3) cstr_nonzero [OF assms(2)] by (intro cstr_put_bytes) simp_all
  moreover have "agree_on (range_of (unat d) (length s)) m ?m"
    using e assms(3) by (intro agree_on_put_bytes) auto
  then have "bytes_at m d (length s) = bytes_at ?m d (length s)"
    using assms(3) by (intro bytes_at_cong) simp_all
  ultimately show ?thesis
    using assms(1) by (simp add: cstr_Ptr bytes_at_add algebra_simps)
qed

section \<open>The searches\<close>

text \<open>\<open>p + i\<close> by repeated increments.\<close>

abbreviation padv :: "cptr \<Rightarrow> nat \<Rightarrow> cptr" where
  "padv p i \<equiv> (pinc ^^ i) p"

lemma padv_Ptr: "padv (Ptr a) i = Ptr (a + of_nat i)"
  by (induction i) (simp_all add: algebra_simps)

lemma padv_Suc: "padv (pinc p) i = padv p (Suc i)"
  by (simp add: funpow_swap1)

lemma cstr_padv: "cstr m p (s @ t) \<Longrightarrow> cstr m (padv p (length s)) t"
proof (induction s arbitrary: p)
  case (Cons c cs)
  then have "cstr m (padv (pinc p) (length cs)) t" by (intro Cons.IH) simp
  then show ?case by (simp only: padv_Suc list.size(4)) simp
qed simp

lemma strchr_loop_eq:
  "cstr m p s \<Longrightarrow> strchr_loop m p ch c = Some
    (if ch \<in> set s then padv p (length (takeWhile (\<lambda>x. x \<noteq> ch) s))
     else if c = 0 then padv p (length s) else Ptr NULL)"
proof (induction s arbitrary: p)
  case Nil
  then show ?case by (subst strchr_loop.simps) simp
next
  case (Cons x xs)
  then show ?case
    by (subst strchr_loop.simps) (auto simp: padv_Suc simp del: funpow.simps(2))
qed

text \<open>The last occurrence: \<open>ch\<close> at position \<open>length us\<close> and no \<open>ch\<close> behind it.\<close>

lemma strrchr_loop_eq:
  "cstr m p s \<Longrightarrow> \<exists>r. strrchr_loop m p found ch = Some (padv p (length s), r)
    \<and> (ch \<notin> set s \<longrightarrow> r = found)
    \<and> (\<forall>us vs. s = us @ ch # vs \<longrightarrow> ch \<notin> set vs \<longrightarrow> r = padv p (length us))"
proof (induction s arbitrary: p found)
  case Nil
  then show ?case by (subst strrchr_loop.simps) simp
next
  case (Cons x xs)
  define f where "f = (if x = ch then p else found)"
  from Cons.prems have "cstr m (pinc p) xs" by simp
  from Cons.IH [OF this, of f] obtain r where
    r: "strrchr_loop m (pinc p) f ch = Some (padv (pinc p) (length xs), r)" "ch \<notin> set xs \<longrightarrow> r = f"
      "\<forall>us vs. xs = us @ ch # vs \<longrightarrow> ch \<notin> set vs \<longrightarrow> r = padv (pinc p) (length us)" by blast
  have "strrchr_loop m p found ch = Some (padv p (length (x # xs)), r)"
    using Cons.prems r(1) by (subst strrchr_loop.simps) (simp add: f_def padv_Suc del: funpow.simps(2))
  moreover have "r = padv p (length us)" if "x # xs = us @ ch # vs" "ch \<notin> set vs" for us vs
  proof (cases us)
    case Nil
    with that r(2) show ?thesis by (simp add: f_def)
  next
    case (Cons u us')
    with that r(3) have "r = padv (pinc p) (length us')" by simp
    with Cons show ?thesis by (simp add: padv_Suc del: funpow.simps(2))
  qed
  ultimately show ?case using r(2) by (auto simp: f_def)
qed

fun first_sub :: "u8 list \<Rightarrow> u8 list \<Rightarrow> nat option" where
  "first_sub t [] = (if t = [] then Some 0 else None)"
| "first_sub t (c # cs) =
     (if take (length t) (c # cs) = t then Some 0 else map_option Suc (first_sub t cs))"

lemma strstr_match_eq:
  "cstr m h s \<Longrightarrow> cstr m n t \<Longrightarrow>
    \<exists>n'. strstr_match m h n = Some n' \<and> (deref m n' = 0 \<longleftrightarrow> take (length t) s = t)"
proof (induction t arbitrary: h n s)
  case Nil
  then show ?case by (subst strstr_match.simps) simp
next
  case (Cons c cs)
  show ?case
  proof (cases s)
    case Nil
    with Cons.prems show ?thesis by (subst strstr_match.simps) simp
  next
    case (Cons x xs)
    show ?thesis
    proof (cases "x = c")
      case True
      from Cons Cons.prems Cons.IH [of "pinc h" xs "pinc n"] obtain n' where
        "strstr_match m (pinc h) (pinc n) = Some n'" "deref m n' = 0 \<longleftrightarrow> take (length cs) xs = cs"
        by auto
      with True Cons Cons.prems show ?thesis by (subst strstr_match.simps) simp
    next
      case False
      with Cons Cons.prems show ?thesis by (subst strstr_match.simps) simp
    qed
  qed
qed

lemma strstr_loop_eq:
  "cstr m p s \<Longrightarrow> cstr m q t \<Longrightarrow> t \<noteq> [] \<Longrightarrow>
    strstr_loop m p q = Some (case first_sub t s of None \<Rightarrow> Ptr NULL | Some i \<Rightarrow> padv p i)"
proof (induction s arbitrary: p)
  case Nil
  then show ?case by (subst strstr_loop.simps) simp
next
  case (Cons c cs)
  from strstr_match_eq [OF Cons.prems(1,2)] obtain n' where
    n': "strstr_match m p q = Some n'" "deref m n' = 0 \<longleftrightarrow> take (length t) (c # cs) = t" by blast
  have IH: "strstr_loop m (pinc p) q = Some (case first_sub t cs of None \<Rightarrow> Ptr NULL | Some i \<Rightarrow> padv (pinc p) i)"
    using Cons.prems by (intro Cons.IH) simp_all
  from Cons.prems have nz: "deref m p \<noteq> 0" by simp
  show ?case
  proof (cases "take (length t) (c # cs) = t")
    case True
    with n' nz show ?thesis by (subst strstr_loop.simps) simp
  next
    case False
    with n' nz IH show ?thesis
      by (subst strstr_loop.simps) (auto simp: padv_Suc split: option.splits simp del: funpow.simps(2))
  qed
qed

lemma strstr_eq:
  assumes "cstr m p s" "cstr m q t"
  shows "strstr m p q = Some (case first_sub t s of None \<Rightarrow> Ptr NULL | Some i \<Rightarrow> padv p i)"
proof (cases t)
  case Nil
  with assms show ?thesis by (cases s) (simp_all add: strstr_def)
next
  case (Cons c cs)
  with assms strstr_loop_eq [OF assms] show ?thesis by (simp add: strstr_def)
qed

text \<open>\<open>first_sub\<close> is the first position at which the needle stands.\<close>

lemma first_sub_Some:
  "first_sub t s = Some i \<Longrightarrow> i \<le> length s \<and> take (length t) (drop i s) = t
    \<and> (\<forall>j<i. take (length t) (drop j s) \<noteq> t)"
proof (induction s arbitrary: i)
  case (Cons c cs)
  show ?case
  proof (cases i)
    case (Suc k)
    with Cons.prems have "first_sub t cs = Some k" "take (length t) (c # cs) \<noteq> t"
      by (auto split: if_splits)
    with Cons.IH [of k] Suc show ?thesis by (auto simp: less_Suc_eq_0_disj)
  qed (use Cons.prems in \<open>auto split: if_splits\<close>)
qed (auto split: if_splits)

lemma first_sub_None: "first_sub t s = None \<Longrightarrow> take (length t) (drop j s) \<noteq> t"
proof (induction s arbitrary: j)
  case (Cons c cs)
  then show ?case by (cases j) (auto split: if_splits)
qed (auto split: if_splits)

end
