(* ===== verification/CString_Num.thy ===== *)
theory CString_Num
  imports CString
begin

text \<open>
  The number conversions \<^verbatim>\<open>itoa\<close> and \<^verbatim>\<open>atoi\<close> of \<^verbatim>\<open>src/src/lib/string.c\<close>: the digit loop produces
  the digits in reverse, the swap loop turns them around, and reading a printed number back gives
  the number. Then the properties of the string library.
\<close>

section \<open>The digit loop of itoa\<close>

text \<open>The digits of \<open>n\<close> in base \<open>b\<close>, least significant first.\<close>

function rdigits :: "nat \<Rightarrow> nat \<Rightarrow> nat list" where
  "rdigits b n = n mod b # (if b < 2 \<or> n < b then [] else rdigits b (n div b))"
  by pat_completeness auto
termination by (relation "measure snd") auto

declare rdigits.simps [simp del]

definition digit_char :: "nat \<Rightarrow> u8" where
  "digit_char d = (if d < 10 then of_nat (48 + d) else of_nat (87 + d))"

lemma rdigits_bound: "2 \<le> b \<Longrightarrow> \<forall>d\<in>set (rdigits b n). d < b"
proof (induction b n rule: rdigits.induct)
  case (1 b n)
  then show ?case by (subst rdigits.simps) (auto simp: )
qed

lemma rdigits_nonempty: "rdigits b n \<noteq> []"
  by (subst rdigits.simps) simp

text \<open>A 32-bit number has at most 32 digits.\<close>

lemma length_rdigits: "n < 2 ^ k \<Longrightarrow> 0 < k \<Longrightarrow> length (rdigits b n) \<le> k"
proof (induction b n arbitrary: k rule: rdigits.induct)
  case (1 b n)
  show ?case
  proof (cases "b < 2 \<or> n < b")
    case True
    with "1.prems" show ?thesis by (subst rdigits.simps) simp
  next
    case False
    then have b: "2 \<le> b" "b \<le> n" by simp_all
    then have "k \<noteq> 1" using "1.prems" by auto
    then obtain j where k: "k = Suc j" "0 < j" using "1.prems"(2) by (cases k) auto
    have "n div b \<le> n div 2" using b by (intro div_le_mono2) simp_all
    also have "\<dots> < 2 ^ j" using "1.prems"(1) k by (simp add: less_mult_imp_div_less)
    finally have "length (rdigits b (n div b)) \<le> j" using False k(2) by (intro "1.IH") simp_all
    with False k show ?thesis by (subst rdigits.simps) simp
  qed
qed

lemma itoa_digit_eq: "d < 36 \<Longrightarrow> itoa_digit (of_nat d) = digit_char d"
proof -
  have "list_all (\<lambda>d. itoa_digit (of_nat d) = digit_char d) [0..<36]"
    by code_simp
  then show "d < 36 \<Longrightarrow> itoa_digit (of_nat d) = digit_char d" by (simp add: list_all_iff)
qed

lemma digit_char_nonzero: "d < 36 \<Longrightarrow> digit_char d \<noteq> 0"
proof -
  have "list_all (\<lambda>d. digit_char d \<noteq> 0) [0..<36]" by code_simp
  then show "d < 36 \<Longrightarrow> digit_char d \<noteq> 0" by (simp add: list_all_iff)
qed

lemma itoa_digits_eq:
  "2 \<le> unat base \<Longrightarrow> unat base \<le> 36 \<Longrightarrow>
    itoa_digits m p u base =
      Some (put_bytes m p (map digit_char (rdigits (unat base) (unat u))),
            p + of_nat (length (rdigits (unat base) (unat u))))"
proof (induction "unat base" "unat u" arbitrary: m p u rule: rdigits.induct)
  case (1 u)
  let ?b = "unat base" and ?d = "itoa_digit (u mod base)"
  have nz: "base \<noteq> 0" using "1.prems"(1) by auto
  have "unat u mod ?b < 2 ^ 32"
    using unat_u32_lt [of u] by (rule le_less_trans [OF mod_less_eq_dividend])
  then have "unat (of_nat (unat u mod ?b) :: u32) = unat u mod ?b" by (rule unat_of_nat_lt)
  then have "u mod base = of_nat (unat u mod ?b)"
    by (simp only: word_unat_eq_iff unat_mod)
  then have d: "?d = digit_char (unat u mod ?b)"
    using "1.prems" itoa_digit_eq [of "unat u mod ?b"]
    by (simp add: less_le_trans [OF mod_less_divisor])
  have dv: "unat (u div base) = unat u div ?b" by (simp add: unat_div)
  show ?case
  proof (cases "unat u < ?b")
    case True
    then have "u div base = 0" using dv by (simp add: word_unat_eq_iff)
    with True nz d show ?thesis
      by (subst itoa_digits.simps, subst (1 2) rdigits.simps) (simp add: Let_def)
  next
    case False
    then have "u div base \<noteq> 0" using dv "1.prems"(1) by (auto simp: div_eq_0_iff word_unat_eq_iff)
    moreover have "itoa_digits (m(p := ?d)) (p + 1) (u div base) base =
      Some (put_bytes (m(p := ?d)) (p + 1) (map digit_char (rdigits ?b (unat (u div base)))),
            p + 1 + of_nat (length (rdigits ?b (unat (u div base)))))"
      using False "1.prems" dv by (intro "1.hyps") simp_all
    ultimately show ?thesis
      using False nz d dv "1.prems"(1)
      by (subst itoa_digits.simps, subst (1 2) rdigits.simps) (simp add: Let_def algebra_simps)
  qed
qed

section \<open>The swap loop\<close>

text \<open>Swapping the two ends and reversing what is between them reverses the whole.\<close>

lemma reverse_from_inner:
  assumes n: "2 \<le> n" "unat p + n \<le> 2 ^ 32" and q: "q = p + of_nat (n - 1)"
    and M: "M = m(p := m q, q := m p)"
    and in1: "agree_on (- range_of (unat p + 1) (n - 2)) M R"
    and in2: "\<forall>j<n - 2. R (p + 1 + of_nat j) = M (p + 1 + of_nat (n - 2 - 1 - j))"
  shows "agree_on (- range_of (unat p) n) m R" "\<forall>i<n. R (p + of_nat i) = m (p + of_nat (n - 1 - i))"
proof -
  have uq: "unat q = unat p + (n - 1)" unfolding q using n by (intro unat_offset) simp
  then have pq: "p \<noteq> q" using n by auto
  then have ends: "M p = m q" "M q = m p" and oth: "\<And>x. x \<noteq> p \<Longrightarrow> x \<noteq> q \<Longrightarrow> M x = m x"
    by (simp_all add: M)
  show "agree_on (- range_of (unat p) n) m R"
    unfolding agree_on_def
  proof
    fix x assume x: "x \<in> - range_of (unat p) n"
    then have "x \<noteq> p" "x \<noteq> q" using uq n by auto
    moreover have "M x = R x" using x by (intro agree_onD [OF in1]) auto
    ultimately show "m x = R x" using oth by metis
  qed
  show "\<forall>i<n. R (p + of_nat i) = m (p + of_nat (n - 1 - i))"
  proof (intro allI impI)
    fix i assume i: "i < n"
    consider "i = 0" | "i = n - 1" | j where "i = Suc j" "j < n - 2"
      using i n by (cases i) fastforce+
    then show "R (p + of_nat i) = m (p + of_nat (n - 1 - i))"
    proof cases
      case 1
      have "M p = R p" by (intro agree_onD [OF in1]) simp
      with 1 ends q show ?thesis by simp
    next
      case 2
      have "M q = R q" using uq n by (intro agree_onD [OF in1]) auto
      with 2 ends q show ?thesis by simp
    next
      case 3
      let ?a = "p + 1 + of_nat (n - 2 - 1 - j)"
      have p1: "unat (p + 1) = unat p + 1" using n by (intro unat_Suc_no_wrap) simp
      have ua: "unat ?a = unat p + 1 + (n - 2 - 1 - j)"
        using n 3 p1 by (subst unat_offset) simp_all
      have "unat ?a \<noteq> unat p" "unat ?a \<noteq> unat q" unfolding ua uq using 3 n by linarith+
      then have "?a \<noteq> p" "?a \<noteq> q" by metis+
      then have "M ?a = m ?a" by (rule oth)
      moreover have "n - 1 - i = 1 + (n - 2 - 1 - j)" using 3 by simp
      then have "?a = p + of_nat (n - 1 - i)" by (simp only: of_nat_add of_nat_1 add.assoc)
      moreover have "p + of_nat i = p + 1 + of_nat j" using 3(1) by simp
      moreover have "R (p + 1 + of_nat j) = M ?a" using in2 3(2) by blast
      ultimately show ?thesis by (simp only:)
    qed
  qed
qed

lemma itoa_reverse_spec:
  "0 < n \<Longrightarrow> unat p + n \<le> 2 ^ 32 \<Longrightarrow>
    agree_on (- range_of (unat p) n) m (itoa_reverse m p (p + of_nat n - 1))
    \<and> (\<forall>i<n. itoa_reverse m p (p + of_nat n - 1) (p + of_nat i) = m (p + of_nat (n - 1 - i)))"
proof (induction n arbitrary: m p rule: less_induct)
  case (less n)
  let ?q = "p + of_nat n - 1"
  have q: "?q = p + of_nat (n - 1)" using less.prems by (simp add: of_nat_diff)
  have uq: "unat ?q = unat p + (n - 1)" unfolding q using less.prems by (intro unat_offset) simp
  show ?case
  proof (cases "n < 2")
    case True
    then have "n = 1" using less.prems by simp
    then show ?thesis by (simp add: itoa_reverse.simps)
  next
    case False
    define M where "M = m(p := m ?q, ?q := m p)"
    define R where "R = itoa_reverse M (p + 1) (?q - 1)"
    have "p < ?q" using uq False by (simp add: word_less_nat_alt)
    then have step: "itoa_reverse m p ?q = R"
      unfolding R_def M_def by (subst itoa_reverse.simps) (simp add: Let_def)
    have p1: "unat (p + 1) = unat p + 1" using less.prems False by (intro unat_Suc_no_wrap) simp
    have inner: "agree_on (- range_of (unat p + 1) (n - 2)) M R
      \<and> (\<forall>j<n - 2. R (p + 1 + of_nat j) = M (p + 1 + of_nat (n - 2 - 1 - j)))"
    proof (cases "n = 2")
      case True
      then have "R = M" unfolding R_def using p1
        by (subst itoa_reverse.simps) (simp add: word_less_nat_alt)
      with True show ?thesis by simp
    next
      case n2: False
      have q2: "p + 1 + of_nat (n - 2) - 1 = ?q - 1" using False by (simp add: of_nat_diff)
      have "n - 2 < n" "0 < n - 2" "unat (p + 1) + (n - 2) \<le> 2 ^ 32"
        using less.prems False n2 p1 by simp_all
      from less.IH [OF this, of M] show ?thesis unfolding q2 p1 R_def .
    qed
    have "2 \<le> n" using False by simp
    from reverse_from_inner [OF this less.prems(2) q M_def conjunct1 [OF inner] conjunct2 [OF inner]]
    show ?thesis unfolding step by blast
  qed
qed

lemma itoa_reverse_put:
  assumes "bs \<noteq> []" "unat p + length bs \<le> 2 ^ 32" "bytes_at m p (length bs) = bs"
  shows "itoa_reverse m p (p + of_nat (length bs) - 1) = put_bytes m p (rev bs)"
proof
  fix x
  let ?n = "length bs" and ?R = "itoa_reverse m p (p + of_nat (length bs) - 1)"
  have spec: "agree_on (- range_of (unat p) ?n) m ?R" "\<forall>i<?n. ?R (p + of_nat i) = m (p + of_nat (?n - 1 - i))"
    using itoa_reverse_spec [of ?n p m] assms(1,2) by simp_all
  show "?R x = put_bytes m p (rev bs) x"
  proof (cases "x \<in> range_of (unat p) ?n")
    case True
    define i where "i = unat x - unat p"
    have i: "i < ?n" "x = p + of_nat i"
      using True unat_offset [of p i] assms(2) by (auto simp: i_def word_unat_eq_iff)
    have "bytes_at m p ?n ! (?n - 1 - i) = m (p + of_nat (?n - 1 - i))"
      using i(1) by (intro nth_bytes_at) simp
    then have "?R x = bs ! (?n - 1 - i)" using spec(2) i assms(3) by simp
    moreover have "put_bytes m p (rev bs) x = rev bs ! i"
      using True assms(2) by (simp add: put_bytes_apply i_def)
    ultimately show ?thesis using i(1) by (simp add: rev_nth)
  next
    case False
    then have "m x = ?R x" by (intro agree_onD [OF spec(1)]) simp
    with False assms(2) show ?thesis by (auto simp: put_bytes_apply)
  qed
qed

section \<open>itoa\<close>

text \<open>The text of a number: a minus sign for negative numbers in base 10, then the digits.\<close>

definition itoa_text :: "u32 \<Rightarrow> u32 \<Rightarrow> u8 list" where
  "itoa_text val base =
     (if val <s 0 \<and> base = 10 then 45 # map digit_char (rev (rdigits 10 (unat (- val))))
      else map digit_char (rev (rdigits (unat base) (unat val))))"

text \<open>The digits from \<open>start\<close> on: reversed, terminated, turned around.\<close>

lemma itoa_core:
  fixes m :: mem and start :: addr and u base :: u32
  assumes "2 \<le> unat base" "unat base \<le> 36" "unat start + 33 \<le> 2 ^ 32"
  defines "ds \<equiv> map digit_char (rev (rdigits (unat base) (unat u)))"
  obtains m1 p where "itoa_digits m start u base = Some (m1, p)"
    "agree_on (- range_of (unat start) (length ds + 1)) m (itoa_reverse (m1(p := 0)) start (p - 1))"
    "cstr (itoa_reverse (m1(p := 0)) start (p - 1)) (Ptr start) ds" "length ds \<le> 32"
proof -
  let ?rs = "map digit_char (rdigits (unat base) (unat u))"
  let ?m1 = "put_bytes m start ?rs" and ?p = "start + of_nat (length ?rs)"
  let ?m2 = "?m1(?p := 0)" and ?m3 = "itoa_reverse (?m1(?p := 0)) start (?p - 1)"
  have rev: "ds = rev ?rs" by (simp add: ds_def rev_map)
  have len: "length ?rs \<le> 32" using length_rdigits [of "unat u" 32 "unat base"] unat_u32_lt [of u] by simp
  have ne: "?rs \<noteq> []" using rdigits_nonempty by simp
  have fit: "unat start + length ?rs \<le> 2 ^ 32" using len assms(3) by simp
  have up: "unat ?p = unat start + length ?rs" using len assms(3) by (intro unat_offset) simp
  have m2: "agree_on (range_of (unat start) (length ?rs)) ?m1 ?m2"
    using up by (intro agree_on_upd) auto
  have "bytes_at ?m1 start (length ?rs) = bytes_at ?m2 start (length ?rs)"
    by (rule bytes_at_cong [OF m2 fit])
  then have b2: "bytes_at ?m2 start (length ?rs) = ?rs" using bytes_at_put_bytes [OF fit, of m] by simp
  have m3: "?m3 = put_bytes ?m2 start ds"
    using itoa_reverse_put [OF ne fit b2] by (simp add: rev)
  have ld: "length ds = length ?rs" by (simp add: rev)
  have "agree_on (- range_of (unat start) (length ds)) ?m2 ?m3"
    unfolding m3 using fit by (intro agree_on_put_bytes) (auto simp: ld)
  then have "?m2 ?p = ?m3 ?p" by (rule agree_onD) (use up in \<open>simp add: ld\<close>)
  then have z: "?m3 ?p = 0" by simp
  have "0 \<notin> set ds"
    using rdigits_bound [of "unat base" "unat u"] assms(1,2) digit_char_nonzero unfolding ds_def by fastforce
  moreover have "bytes_at ?m3 start (length ds) = ds"
    unfolding m3 using fit by (intro bytes_at_put_bytes) (simp add: ld)
  ultimately have c: "cstr ?m3 (Ptr start) ds" using z by (simp add: cstr_Ptr ld)
  have "agree_on (- range_of (unat start) (length ds + 1)) m ?m1"
    using fit by (intro agree_on_put_bytes) (auto simp: ld)
  then have "agree_on (- range_of (unat start) (length ds + 1)) m ?m2"
    using up by (intro agree_on_upd) (auto simp: ld)
  moreover have "agree_on (- range_of (unat start) (length ds + 1)) ?m2 ?m3"
    unfolding m3 using fit by (intro agree_on_put_bytes) (auto simp: ld)
  ultimately have a: "agree_on (- range_of (unat start) (length ds + 1)) m ?m3" by (rule agree_on_trans)
  show thesis
    by (rule that [OF _ a c]) (use itoa_digits_eq [OF assms(1,2)] len ld in simp_all)
qed

lemma itoa_eq:
  assumes "2 \<le> unat base" "unat base \<le> 36" "unat str + 34 \<le> 2 ^ 32"
  obtains m' where "itoa m val str base = Some m'" "cstr m' (Ptr str) (itoa_text val base)"
    "agree_on (- range_of (unat str) (length (itoa_text val base) + 1)) m m'"
proof (cases "val <s 0 \<and> base = 10")
  case False
  have t: "itoa_text val base = map digit_char (rev (rdigits (unat base) (unat val)))"
    using False by (auto simp: itoa_text_def)
  have "unat str + 33 \<le> 2 ^ 32" using assms(3) by simp
  from itoa_core [OF assms(1,2) this, where u = val and m = m] obtain m1 p where
    d: "itoa_digits m str val base = Some (m1, p)"
    "cstr (itoa_reverse (m1(p := 0)) str (p - 1)) (Ptr str) (itoa_text val base)"
    "agree_on (- range_of (unat str) (length (itoa_text val base) + 1)) m (itoa_reverse (m1(p := 0)) str (p - 1))"
    unfolding t by metis
  show thesis
    by (rule that [OF _ d(2,3)]) (use False d(1) in \<open>auto simp: itoa_def Let_def\<close>)
next
  case True
  have b: "base = 10" "unat base = 10" using True by simp_all
  have s1: "unat (str + 1) = unat str + 1" using assms(3) by (intro unat_Suc_no_wrap) simp
  then have "unat (str + 1) + 33 \<le> 2 ^ 32" using assms(3) by simp
  from itoa_core [OF assms(1,2) this, where u = "- val" and m = "m(str := 45)"] obtain m1 p ds where
    d: "itoa_digits (m(str := 45)) (str + 1) (- val) base = Some (m1, p)"
    "cstr (itoa_reverse (m1(p := 0)) (str + 1) (p - 1)) (Ptr (str + 1)) ds"
    "agree_on (- range_of (unat (str + 1)) (length ds + 1)) (m(str := 45))
      (itoa_reverse (m1(p := 0)) (str + 1) (p - 1))"
    and ds: "ds = map digit_char (rev (rdigits 10 (unat (- val))))"
    unfolding b(2) by blast
  have t: "itoa_text val base = 45 # ds" using True ds by (simp add: itoa_text_def)
  let ?m = "itoa_reverse (m1(p := 0)) (str + 1) (p - 1)"
  have "(m(str := 45)) str = ?m str" by (rule agree_onD [OF d(3)]) (use s1 in simp)
  then have "?m str = 45" by simp
  with d(2) have c: "cstr ?m (Ptr str) (itoa_text val base)" by (simp add: t)
  have "agree_on (- range_of (unat str) (length (itoa_text val base) + 1)) (m(str := 45)) ?m"
    by (rule agree_on_mono [OF d(3)]) (use s1 in \<open>auto simp: t\<close>)
  then have a: "agree_on (- range_of (unat str) (length (itoa_text val base) + 1)) m ?m"
    by (rule agree_on_of_upd [rotated]) simp
  show thesis
    by (rule that [OF _ c a]) (use True d(1) in \<open>simp add: itoa_def Let_def\<close>)
qed

section \<open>atoi\<close>

definition digits_value :: "u32 \<Rightarrow> nat list \<Rightarrow> u32" where
  "digits_value = foldl (\<lambda>r d. r * 10 + of_nat d)"

lemma digit_char_scan:
  "d < 10 \<Longrightarrow> is_digit_char (digit_char d) \<and> (scast (digit_char d) :: u32) - 48 = of_nat d
    \<and> digit_char d \<notin> {9, 32, 43, 45}"
proof -
  have "list_all (\<lambda>d. is_digit_char (digit_char d) \<and> (scast (digit_char d) :: u32) - 48 = of_nat d
    \<and> digit_char d \<notin> {9, 32, 43, 45}) [0..<10]" by code_simp
  then show "d < 10 \<Longrightarrow> is_digit_char (digit_char d) \<and> (scast (digit_char d) :: u32) - 48 = of_nat d
    \<and> digit_char d \<notin> {9, 32, 43, 45}" by (simp add: list_all_iff)
qed

lemma atoi_digits_eq:
  "cstr m p (map digit_char ds) \<Longrightarrow> \<forall>d\<in>set ds. d < 10 \<Longrightarrow> atoi_digits m p r = Some (digits_value r ds)"
proof (induction ds arbitrary: p r)
  case Nil
  moreover have "\<not> is_digit_char 0" by code_simp
  ultimately show ?case by (subst atoi_digits.simps) (simp add: digits_value_def)
next
  case (Cons d ds)
  with digit_char_scan [of d] show ?case
    by (subst atoi_digits.simps) (simp add: digits_value_def)
qed

lemma digits_value_rdigits: "digits_value 0 (rev (rdigits 10 n)) = of_nat n"
proof (induction "10 :: nat" n rule: rdigits.induct)
  case (1 n)
  show ?case
  proof (cases "n < 10")
    case True
    then show ?thesis by (subst rdigits.simps) (simp add: digits_value_def)
  next
    case False
    then have "digits_value 0 (rev (rdigits 10 (n div 10))) = of_nat (n div 10)" by (intro "1.hyps") simp
    moreover have "(of_nat (n div 10) :: u32) * 10 + of_nat (n mod 10) = of_nat (n div 10 * 10 + n mod 10)"
      by (simp only: of_nat_add of_nat_mult) simp
    ultimately show ?thesis using False
      by (subst rdigits.simps) (simp add: digits_value_def)
  qed
qed

lemma atoi_text:
  assumes "cstr m p (itoa_text val 10)"
  shows "atoi m p = Some val"
proof -
  have bd: "\<forall>d\<in>set (rev (rdigits 10 n)). d < 10" for n using rdigits_bound [of 10 n] by simp
  show ?thesis
  proof (cases "val <s 0")
    case True
    with assms have c: "deref m p = 45" "cstr m (pinc p) (map digit_char (rev (rdigits 10 (unat (- val)))))"
      by (simp_all add: itoa_text_def)
    have "atoi_digits m (pinc p) 0 = Some (- val)"
      using atoi_digits_eq [OF c(2) bd] digits_value_rdigits [of "unat (- val)"] by simp
    with c(1) show ?thesis by (simp add: atoi_def atoi_skip.simps)
  next
    case False
    with assms have c: "cstr m p (map digit_char (rev (rdigits 10 (unat val))))"
      by (simp add: itoa_text_def)
    obtain d ds where "rev (rdigits 10 (unat val)) = d # ds"
      using rdigits_nonempty [of 10 "unat val"] by (cases "rev (rdigits 10 (unat val))") auto
    moreover from this have "d < 10" using bd [of "unat val"] by simp
    ultimately have "deref m p \<notin> {9, 32, 43, 45}" using c digit_char_scan [of d] by simp
    moreover have "atoi_digits m p 0 = Some val"
      using atoi_digits_eq [OF c bd] digits_value_rdigits [of "unat val"] by simp
    ultimately show ?thesis by (simp add: atoi_def atoi_skip.simps)
  qed
qed

section \<open>Properties of the string library\<close>

text \<open>
  C23: \<^verbatim>\<open>strcmp\<close> decides equality of strings: on two terminated strings it returns, and it
  returns 0 exactly when they are the same; otherwise it returns the difference of the first
  pair of bytes that differ, as unsigned bytes, where the NUL of a string that is a proper prefix
  of the other counts as 0: the longer string is the greater one.
\<close>
theorem strcmp_decides:
  assumes "cstr m p s" "cstr m q t"
  shows "\<exists>r. strcmp m p q = Some r \<and> (r = 0 \<longleftrightarrow> s = t)
    \<and> (\<forall>us c d s' t'. s = us @ c # s' \<longrightarrow> t = us @ d # t' \<longrightarrow> c \<noteq> d \<longrightarrow> r = uint c - uint d)
    \<and> (\<forall>c s'. s = t @ c # s' \<longrightarrow> r = uint c) \<and> (\<forall>d t'. t = s @ d # t' \<longrightarrow> r = - uint d)"
proof -
  have pre: "cmp_bytes (t @ c # s') t = uint c" "cmp_bytes s (s @ c # s') = - uint c" for c s'
    by (induction t, simp_all) (induction s, simp_all)
  have "cmp_bytes (us @ c # s') (us @ d # t') = uint c - uint d" if "c \<noteq> d" for us s' t' and c d :: u8
    using that by (induction us) simp_all
  with strcmp_eq [OF assms] cmp_bytes_0 cstr_nonzero [OF assms(1)] cstr_nonzero [OF assms(2)] pre
  show ?thesis by (intro exI [of _ "cmp_bytes s t"]) auto
qed

lemma ls_lz: "bytes ''ls'' = [108] @ 115 # []" "bytes ''lz'' = [108] @ 122 # []" "bytes ''lss'' = bytes ''ls'' @ 115 # []"
  by simp_all

theorem strcmp_decides_witness:
  "(\<exists>r. strcmp (\<lambda>_. 0) (Lit ''ls'') (Lit ''lz'') = Some r \<and> r = -7)
    \<and> (\<exists>r. strcmp (\<lambda>_. 0) (Lit ''ls'') (Lit ''lss'') = Some r \<and> r = -115)"
proof -
  obtain r where r: "strcmp (\<lambda>_. 0) (Lit ''ls'') (Lit ''lz'') = Some r"
    "\<forall>us c d s' t'. bytes ''ls'' = us @ c # s' \<longrightarrow> bytes ''lz'' = us @ d # t' \<longrightarrow> c \<noteq> d \<longrightarrow> r = uint c - uint d"
    using strcmp_decides [OF cstr_Lit cstr_Lit, of "''ls''" "''lz''" "\<lambda>_. 0"] by auto
  obtain r' where r': "strcmp (\<lambda>_. 0) (Lit ''ls'') (Lit ''lss'') = Some r'"
    "\<forall>d t'. bytes ''lss'' = bytes ''ls'' @ d # t' \<longrightarrow> r' = - uint d"
    using strcmp_decides [OF cstr_Lit cstr_Lit, of "''ls''" "''lss''" "\<lambda>_. 0"] by auto
  have "r = uint (115 :: u8) - uint (122 :: u8)" using r(2) [rule_format, OF ls_lz(1,2)] by simp
  moreover have "r' = - uint (115 :: u8)" using r'(2) ls_lz(3) by blast
  ultimately show ?thesis using r(1) r'(1) by simp
qed

text \<open>
  C24: \<^verbatim>\<open>strcat\<close> appends: when the two strings and the NUL fit behind \<^verbatim>\<open>dest\<close> and the source does not
  overlap the bytes written, \<^verbatim>\<open>dest\<close> holds the concatenation and nothing else changes.
\<close>
theorem strcat_appends:
  assumes "cstr m (Ptr d) s" "cstr m src t" "unat d + length s + length t < 2 ^ 32"
    and "cfits src (Suc (length t))"
    and "cspan src (Suc (length t)) \<inter> range_of (unat d + length s) (Suc (length t)) = {}"
  shows "\<exists>m'. strcat m d src = Some m' \<and> cstr m' (Ptr d) (s @ t)
    \<and> agree_on (- range_of (unat d + length s) (Suc (length t))) m m'"
proof -
  have e: "unat (d + of_nat (length s)) = unat d + length s" using assms(3) by (intro unat_offset) simp
  then have "agree_on (- range_of (unat d + length s) (Suc (length t))) m (put_bytes m (d + of_nat (length s)) (t @ [0]))"
    using assms(3) by (intro agree_on_put_bytes) auto
  with strcat_eq [OF assms] strcat_cstr [OF assms(1-3)] show ?thesis by blast
qed

definition text_mem :: "addr \<Rightarrow> string \<Rightarrow> mem" where
  "text_mem a s = put_bytes (\<lambda>_. 0) a (bytes s @ [0])"

lemma cstr_text_mem: "unat a + length s < 2 ^ 32 \<Longrightarrow> 0 \<notin> set (bytes s) \<Longrightarrow> cstr (text_mem a s) (Ptr a) (bytes s)"
  unfolding text_mem_def by (intro cstr_put_bytes) simp_all

theorem strcat_appends_witness:
  "\<exists>m'. strcat (text_mem 0x1000 ''boot'') 0x1000 (Lit ''.txt'') = Some m'
    \<and> cstr m' (Ptr 0x1000) (bytes ''boot'' @ bytes ''.txt'')"
  using strcat_appends [OF cstr_text_mem [of "0x1000" "''boot''"] cstr_Lit [of "''.txt''"]] by auto

text \<open>
  C25: \<^verbatim>\<open>strncpy\<close> of a string shorter than \<^verbatim>\<open>n\<close> stores the string and zeros, but \<open>n + 1\<close> bytes in
  all: the byte behind the \<open>n\<close>-byte buffer becomes 0, whatever it held.
\<close>
theorem strncpy_overruns:
  assumes "cstr m src s" "length s < unat n" "unat d + unat n < 2 ^ 32" "cfits src (Suc (length s))"
    and "cspan src (Suc (length s)) \<inter> range_of (unat d) (unat n) = {}"
  shows "cstr (strncpy m d src n) (Ptr d) s \<and> strncpy m d src n (d + n) = 0
    \<and> agree_on (- range_of (unat d) (unat n + 1)) m (strncpy m d src n)"
proof (intro conjI)
  let ?bs = "s @ replicate (Suc (unat n - length s)) 0"
  have eq: "strncpy m d src n = put_bytes m d ?bs" by (rule strncpy_short [OF assms])
  have len: "length ?bs = unat n + 1" using assms(2) by simp
  have b: "unat d + length ?bs \<le> 2 ^ 32" unfolding len using assms(3) by simp
  show "agree_on (- range_of (unat d) (unat n + 1)) m (strncpy m d src n)"
    unfolding eq using b len by (intro agree_on_put_bytes) auto
  have "unat (d + n) = unat d + unat n" using assms(3) by (intro unat_plus_no_wrap) simp
  then show "strncpy m d src n (d + n) = 0"
    unfolding eq using b len assms(2) by (simp add: put_bytes_apply nth_append)
  define r where "r = unat n - length s"
  have eq2: "strncpy m d src n = put_bytes (put_bytes m d (s @ [0])) (d + of_nat (length s) + 1) (replicate r 0)"
    unfolding eq r_def by (simp add: put_bytes_append)
  have "cstr (put_bytes m d (s @ [0])) (Ptr d) s"
    using assms(2,3) cstr_nonzero [OF assms(1)] by (intro cstr_put_bytes) simp_all
  moreover have e: "unat (d + of_nat (length s) + 1) = unat d + length s + 1"
    using assms(2,3) by (simp add: unat_offset unat_Suc_no_wrap)
  then have "agree_on (range_of (unat d) (Suc (length s))) (put_bytes m d (s @ [0])) (strncpy m d src n)"
    unfolding eq2 using assms(2,3) by (intro agree_on_put_bytes) (auto simp: r_def)
  ultimately show "cstr (strncpy m d src n) (Ptr d) s"
    using cstr_cong [of "Ptr d" s "put_bytes m d (s @ [0])" "strncpy m d src n"] assms(2,3) by simp
qed

theorem strncpy_overruns_witness:
  "(strncpy (\<lambda>_. 0xFF) 0x1000 (Lit ''ab'') 8) 0x1008 = 0"
  using strncpy_overruns [OF cstr_Lit [of "''ab''" "\<lambda>_. 0xFF"], of 8 "0x1000"] by simp

text \<open>
  \<^verbatim>\<open>strstr\<close> returns the first place at which the needle stands in the haystack, and NULL when
  it stands nowhere.
\<close>
theorem strstr_first:
  assumes "cstr m p s" "cstr m q t"
  shows "(\<exists>i\<le>length s. strstr m p q = Some (padv p i) \<and> take (length t) (drop i s) = t
      \<and> (\<forall>j<i. take (length t) (drop j s) \<noteq> t))
    \<or> strstr m p q = Some (Ptr NULL) \<and> (\<forall>j. take (length t) (drop j s) \<noteq> t)"
proof (cases "first_sub t s")
  case None
  then show ?thesis using first_sub_None [OF None] strstr_eq [OF assms] by simp
next
  case (Some i)
  then show ?thesis using first_sub_Some [OF Some] strstr_eq [OF assms] by auto
qed

theorem strstr_first_witness:
  "strstr (\<lambda>_. 0) (Lit ''notes.txt'') (Lit ''xyz'') = Some (Ptr NULL)"
  using strstr_first [OF cstr_Lit [of "''notes.txt''" "\<lambda>_. 0"] cstr_Lit [of "''xyz''" "\<lambda>_. 0"]]
  by (auto simp: le_Suc_eq less_Suc_eq)

text \<open>
  C26: every \<^verbatim>\<open>int\<close> printed by \<^verbatim>\<open>itoa\<close> in base 10 is read back by \<^verbatim>\<open>atoi\<close>, the smallest one
  included; \<^verbatim>\<open>itoa\<close> returns and writes the text and its NUL only.
\<close>
theorem itoa_atoi_roundtrip:
  assumes "unat str + 34 \<le> 2 ^ 32"
  shows "\<exists>m'. itoa m val str 10 = Some m' \<and> atoi m' (Ptr str) = Some val
    \<and> cstr m' (Ptr str) (itoa_text val 10)
    \<and> agree_on (- range_of (unat str) (length (itoa_text val 10) + 1)) m m'"
proof -
  obtain m' where "itoa m val str 10 = Some m'" "cstr m' (Ptr str) (itoa_text val 10)"
    "agree_on (- range_of (unat str) (length (itoa_text val 10) + 1)) m m'"
    by (rule itoa_eq [of 10 str m val]) (use assms in simp_all)
  with atoi_text show ?thesis by blast
qed

theorem itoa_atoi_roundtrip_witness:
  "\<exists>m'. itoa (\<lambda>_. 0) 0x80000000 0x1000 10 = Some m' \<and> atoi m' (Ptr 0x1000) = Some 0x80000000"
  using itoa_atoi_roundtrip [of "0x1000" "\<lambda>_. 0" "0x80000000"] by auto

end
