(* ===== verification/Ports.thy ===== *)
theory Ports
  imports Prelude
begin

text \<open>
  Port input and output and the processor's interrupt flag: the inline functions of
  \<^verbatim>\<open>src/src/kernel/kernel.h\<close>. The hardware is a parameter of the state: \<open>dev\<close> says which byte a
  port delivers after a given history of port accesses, and \<open>trace\<close> is that history, newest first.
\<close>

datatype io_event =
    Outb u16 u8
  | Inb u16 u8
  | Outw u16 u16
  | Inw u16 u16
  | Outl u16 u32
  | Inl u16 u32
  | Sti
  | Cli
  | Lidt u32

record ports =
  dev :: "io_event list \<Rightarrow> u16 \<Rightarrow> u8"
  trace :: "io_event list"
  int_flag :: bool

definition outb :: "u16 \<Rightarrow> u8 \<Rightarrow> 'a ports_scheme \<Rightarrow> 'a ports_scheme" where
  "outb port v st = st\<lparr>trace := Outb port v # trace st\<rparr>"

definition inb :: "u16 \<Rightarrow> 'a ports_scheme \<Rightarrow> u8 \<times> 'a ports_scheme" where
  "inb port st = (let ret = dev st (trace st) port in (ret, st\<lparr>trace := Inb port ret # trace st\<rparr>))"

definition outw :: "u16 \<Rightarrow> u16 \<Rightarrow> 'a ports_scheme \<Rightarrow> 'a ports_scheme" where
  "outw port v st = st\<lparr>trace := Outw port v # trace st\<rparr>"

text \<open>The wider accesses, which no driver here makes; the answer of the hardware is an argument.\<close>

definition inw :: "(io_event list \<Rightarrow> u16 \<Rightarrow> u16) \<Rightarrow> u16 \<Rightarrow> 'a ports_scheme \<Rightarrow> u16 \<times> 'a ports_scheme" where
  "inw answer port st = (let ret = answer (trace st) port in (ret, st\<lparr>trace := Inw port ret # trace st\<rparr>))"

definition outl :: "u16 \<Rightarrow> u32 \<Rightarrow> 'a ports_scheme \<Rightarrow> 'a ports_scheme" where
  "outl port v st = st\<lparr>trace := Outl port v # trace st\<rparr>"

definition inl :: "(io_event list \<Rightarrow> u16 \<Rightarrow> u32) \<Rightarrow> u16 \<Rightarrow> 'a ports_scheme \<Rightarrow> u32 \<times> 'a ports_scheme" where
  "inl answer port st = (let ret = answer (trace st) port in (ret, st\<lparr>trace := Inl port ret # trace st\<rparr>))"

definition io_wait :: "'a ports_scheme \<Rightarrow> 'a ports_scheme" where
  "io_wait st = outb 0x80 0 st"

definition enable_interrupts :: "'a ports_scheme \<Rightarrow> 'a ports_scheme" where
  "enable_interrupts st = st\<lparr>int_flag := True, trace := Sti # trace st\<rparr>"

definition disable_interrupts :: "'a ports_scheme \<Rightarrow> 'a ports_scheme" where
  "disable_interrupts st = st\<lparr>int_flag := False, trace := Cli # trace st\<rparr>"

lemma port_frames [simp]:
  "ports.more (outb p v st) = ports.more st" "dev (outb p v st) = dev st"
  "trace (outb p v st) = Outb p v # trace st" "int_flag (outb p v st) = int_flag st"
  "ports.more (outw p w st) = ports.more st" "dev (outw p w st) = dev st"
  "trace (outw p w st) = Outw p w # trace st" "int_flag (outw p w st) = int_flag st"
  "ports.more (snd (inb p st)) = ports.more st" "dev (snd (inb p st)) = dev st"
  "trace (snd (inb p st)) = Inb p (dev st (trace st) p) # trace st"
  "int_flag (snd (inb p st)) = int_flag st" "fst (inb p st) = dev st (trace st) p"
  by (simp_all add: outb_def outw_def inb_def Let_def)

end
