(* ===== verification/Vga.thy ===== *)
theory Vga
  imports Ports CString
begin

text \<open>
  The text console \<^verbatim>\<open>src/src/drivers/vga.c\<close>: 80 by 25 cells of 16 bits, a cursor and a colour. The
  video memory is a map from cell indices to cells (index \<open>i\<close> is the 16-bit word at
  \<^verbatim>\<open>0xB8000 + 2 * i\<close>), total on all indices, so that a write outside the screen would show up as a
  changed cell beyond 1999. The hardware cursor is programmed through the ports. \<^verbatim>\<open>size_t\<close> is \<open>u32\<close>.
\<close>

section \<open>State and operations\<close>

definition VGA_WIDTH :: u32 where "VGA_WIDTH = 80"
definition VGA_HEIGHT :: u32 where "VGA_HEIGHT = 25"
definition VGA_CTRL_PORT :: u16 where "VGA_CTRL_PORT = 0x3D4"
definition VGA_DATA_PORT :: u16 where "VGA_DATA_PORT = 0x3D5"

record vga = ports +
  vga_row :: u32
  vga_col :: u32
  vga_color :: u8
  vga_buffer :: "u32 \<Rightarrow> u16"

text \<open>\<^verbatim>\<open>enum vga_color\<close>\<close>

datatype color =
    BLACK | BLUE | GREEN | CYAN | RED | MAGENTA | BROWN | LIGHT_GREY
  | DARK_GREY | LIGHT_BLUE | LIGHT_GREEN | LIGHT_CYAN | LIGHT_RED | LIGHT_MAGENTA | LIGHT_BROWN | WHITE

definition colors :: "color list" where
  "colors = [BLACK, BLUE, GREEN, CYAN, RED, MAGENTA, BROWN, LIGHT_GREY,
     DARK_GREY, LIGHT_BLUE, LIGHT_GREEN, LIGHT_CYAN, LIGHT_RED, LIGHT_MAGENTA, LIGHT_BROWN, WHITE]"

fun color_code :: "color \<Rightarrow> u8" where
  "color_code BLACK = 0" | "color_code BLUE = 1" | "color_code GREEN = 2" | "color_code CYAN = 3"
| "color_code RED = 4" | "color_code MAGENTA = 5" | "color_code BROWN = 6" | "color_code LIGHT_GREY = 7"
| "color_code DARK_GREY = 8" | "color_code LIGHT_BLUE = 9" | "color_code LIGHT_GREEN = 10"
| "color_code LIGHT_CYAN = 11" | "color_code LIGHT_RED = 12" | "color_code LIGHT_MAGENTA = 13"
| "color_code LIGHT_BROWN = 14" | "color_code WHITE = 15"

definition VGA_MAKE_COLOR :: "color \<Rightarrow> color \<Rightarrow> u8" where
  "VGA_MAKE_COLOR fg bg = push_bit 4 (color_code bg) OR color_code fg"

definition vga_entry :: "u8 \<Rightarrow> u8 \<Rightarrow> u16" where
  "vga_entry c color = ucast c OR push_bit 8 (ucast color)"

definition vga_update_cursor :: "'a vga_scheme \<Rightarrow> 'a vga_scheme" where
  "vga_update_cursor st =
     (let pos = ucast (vga_row st * VGA_WIDTH + vga_col st) :: u16
      in outb VGA_DATA_PORT (ucast (pos AND 0xFF))
           (outb VGA_CTRL_PORT 15
             (outb VGA_DATA_PORT (ucast (drop_bit 8 pos AND 0xFF))
               (outb VGA_CTRL_PORT 14 st))))"

definition vga_init :: "'a vga_scheme \<Rightarrow> 'a vga_scheme" where
  "vga_init st = st\<lparr>vga_row := 0, vga_col := 0, vga_color := VGA_MAKE_COLOR LIGHT_GREY BLACK\<rparr>"

text \<open>The nested loops over rows and columns.\<close>

definition clear_cells :: "u16 \<Rightarrow> (u32 \<Rightarrow> u16) \<Rightarrow> (u32 \<Rightarrow> u16)" where
  "clear_cells blank b =
     fold (\<lambda>y. fold (\<lambda>x b. b(of_nat y * VGA_WIDTH + of_nat x := blank)) [0..<unat VGA_WIDTH])
       [0..<unat VGA_HEIGHT] b"

definition vga_clear :: "'a vga_scheme \<Rightarrow> 'a vga_scheme" where
  "vga_clear st =
     vga_update_cursor
       (st\<lparr>vga_buffer := clear_cells (vga_entry 32 (vga_color st)) (vga_buffer st), vga_row := 0, vga_col := 0\<rparr>)"

definition vga_set_color :: "color \<Rightarrow> color \<Rightarrow> 'a vga_scheme \<Rightarrow> 'a vga_scheme" where
  "vga_set_color fg bg st = st\<lparr>vga_color := VGA_MAKE_COLOR fg bg\<rparr>"

definition scroll_cell :: "nat \<Rightarrow> nat \<Rightarrow> (u32 \<Rightarrow> u16) \<Rightarrow> (u32 \<Rightarrow> u16)" where
  "scroll_cell y x b =
     (let src = of_nat y * VGA_WIDTH + of_nat x; dst = (of_nat y - 1) * VGA_WIDTH + of_nat x
      in b(dst := b src))"

definition scroll_up :: "(u32 \<Rightarrow> u16) \<Rightarrow> (u32 \<Rightarrow> u16)" where
  "scroll_up b = fold (\<lambda>y. fold (scroll_cell y) [0..<unat VGA_WIDTH]) [1..<unat VGA_HEIGHT] b"

definition clear_last :: "u16 \<Rightarrow> (u32 \<Rightarrow> u16) \<Rightarrow> (u32 \<Rightarrow> u16)" where
  "clear_last blank b =
     fold (\<lambda>x b. b((VGA_HEIGHT - 1) * VGA_WIDTH + of_nat x := blank)) [0..<unat VGA_WIDTH] b"

definition vga_scroll :: "'a vga_scheme \<Rightarrow> 'a vga_scheme" where
  "vga_scroll st =
     st\<lparr>vga_buffer := clear_last (vga_entry 32 (vga_color st)) (scroll_up (vga_buffer st)),
        vga_row := VGA_HEIGHT - 1\<rparr>"

definition put_cell :: "u8 \<Rightarrow> 'a vga_scheme \<Rightarrow> 'a vga_scheme" where
  "put_cell c st =
     st\<lparr>vga_buffer := (vga_buffer st)(vga_row st * VGA_WIDTH + vga_col st := vga_entry c (vga_color st))\<rparr>"

text \<open>\<^verbatim>\<open>vga_putchar\<close> in its three parts: the character, the line wrap, the scrolling.\<close>

definition putchar_char :: "u8 \<Rightarrow> 'a vga_scheme \<Rightarrow> 'a vga_scheme" where
  "putchar_char c st =
     (if c = 10 then st\<lparr>vga_col := 0, vga_row := vga_row st + 1\<rparr>
      else if c = 13 then st\<lparr>vga_col := 0\<rparr>
      else if c = 9 then st\<lparr>vga_col := (vga_col st + 4) AND NOT 3\<rparr>
      else if c = 8 then
        (if 0 < vga_col st then put_cell 32 (st\<lparr>vga_col := vga_col st - 1\<rparr>) else st)
      else (put_cell c st)\<lparr>vga_col := vga_col st + 1\<rparr>)"

definition putchar_wrap :: "'a vga_scheme \<Rightarrow> 'a vga_scheme" where
  "putchar_wrap st = (if VGA_WIDTH \<le> vga_col st then st\<lparr>vga_col := 0, vga_row := vga_row st + 1\<rparr> else st)"

definition vga_putchar :: "u8 \<Rightarrow> 'a vga_scheme \<Rightarrow> 'a vga_scheme" where
  "vga_putchar c st =
     (let st1 = putchar_wrap (putchar_char c st);
          st2 = (if VGA_HEIGHT \<le> vga_row st1 then vga_scroll st1 else st1)
      in vga_update_cursor st2)"

text \<open>Printing a string reads memory up to the NUL; without one the loop never ends.\<close>

partial_function (option) vga_print :: "mem \<Rightarrow> cptr \<Rightarrow> 'a vga_scheme \<Rightarrow> 'a vga_scheme option" where
  "vga_print m str st =
     (if deref m str \<noteq> 0 then vga_print m (pinc str) (vga_putchar (deref m str) st) else Some st)"

definition vga_println :: "mem \<Rightarrow> cptr \<Rightarrow> 'a vga_scheme \<Rightarrow> 'a vga_scheme option" where
  "vga_println m str st = do { st' \<leftarrow> vga_print m str st; Some (vga_putchar 10 st') }"

text \<open>
  \<^verbatim>\<open>vga_print_dec\<close>: the local \<^verbatim>\<open>buffer\<close> holds the digits, least significant first; the loop runs while
  the number is positive as an \<^verbatim>\<open>int\<close>, and negating the smallest \<^verbatim>\<open>int\<close> leaves it negative.
\<close>

function dec_digits :: "int \<Rightarrow> u8 list" where
  "dec_digits num = (if 0 < num then word_of_int (48 + num mod 10) # dec_digits (num div 10) else [])"
  by pat_completeness auto
termination by (relation "measure nat") auto

declare dec_digits.simps [simp del]

definition vga_print_dec :: "u32 \<Rightarrow> 'a vga_scheme \<Rightarrow> 'a vga_scheme" where
  "vga_print_dec num st =
     (let negative = num <s 0; num' = (if negative then - num else num)
      in if num' = 0 then vga_putchar 48 st
         else (let buffer = dec_digits (sint num');
                   st1 = (if negative then vga_putchar 45 st else st)
               in fold vga_putchar (rev buffer) st1))"

text \<open>\<^verbatim>\<open>vga_print_hex\<close>: eight digits filled in from the right, then the leading zeros skipped.\<close>

definition hex_chars :: "u8 list" where
  "hex_chars = bytes ''0123456789ABCDEF''"

primrec hex_fill :: "nat \<Rightarrow> u32 \<Rightarrow> u8 list \<Rightarrow> u8 list" where
  "hex_fill 0 num buffer = buffer"
| "hex_fill (Suc i) num buffer = hex_fill i (drop_bit 4 num) (hex_chars ! unat (num AND 0xF) # buffer)"

fun hex_skip :: "u8 list \<Rightarrow> u8 list" where
  "hex_skip (c # d # cs) = (if c = 48 then hex_skip (d # cs) else c # d # cs)"
| "hex_skip cs = cs"

definition vga_print_hex :: "u32 \<Rightarrow> 'a vga_scheme \<Rightarrow> 'a vga_scheme" where
  "vga_print_hex num st = fold vga_putchar (bytes ''0x'' @ hex_skip (hex_fill 8 num [])) st"

section \<open>Cursor and positioned output\<close>

definition vga_set_cursor :: "u32 \<Rightarrow> u32 \<Rightarrow> 'a vga_scheme \<Rightarrow> 'a vga_scheme" where
  "vga_set_cursor row col st =
     (if row < VGA_HEIGHT \<and> col < VGA_WIDTH then vga_update_cursor (st\<lparr>vga_row := row, vga_col := col\<rparr>) else st)"

definition vga_get_row :: "'a vga_scheme \<Rightarrow> u32" where "vga_get_row st = vga_row st"
definition vga_get_col :: "'a vga_scheme \<Rightarrow> u32" where "vga_get_col st = vga_col st"

definition vga_hide_cursor :: "'a vga_scheme \<Rightarrow> 'a vga_scheme" where
  "vga_hide_cursor st = outb VGA_DATA_PORT 0x20 (outb VGA_CTRL_PORT 0x0A st)"

definition vga_show_cursor :: "'a vga_scheme \<Rightarrow> 'a vga_scheme" where
  "vga_show_cursor st =
     (let st1 = outb VGA_CTRL_PORT 0x0A st;
          (v1, st2) = inb VGA_DATA_PORT st1;
          st3 = outb VGA_DATA_PORT (v1 AND 0xC0 OR 14) st2;
          st4 = outb VGA_CTRL_PORT 0x0B st3;
          (v2, st5) = inb VGA_DATA_PORT st4
      in outb VGA_DATA_PORT (v2 AND 0xE0 OR 15) st5)"

definition vga_put_at :: "u32 \<Rightarrow> u32 \<Rightarrow> u8 \<Rightarrow> 'a vga_scheme \<Rightarrow> 'a vga_scheme" where
  "vga_put_at row col c st =
     (if row < VGA_HEIGHT \<and> col < VGA_WIDTH
      then st\<lparr>vga_buffer := (vga_buffer st)(row * VGA_WIDTH + col := vga_entry c (vga_color st))\<rparr>
      else st)"

partial_function (option) print_at_loop :: "mem \<Rightarrow> u32 \<Rightarrow> cptr \<Rightarrow> 'a vga_scheme \<Rightarrow> 'a vga_scheme option" where
  "print_at_loop m col str st =
     (if deref m str \<noteq> 0 \<and> vga_col st < VGA_WIDTH then
        (let st' = (if deref m str = 10 then st\<lparr>vga_row := vga_row st + 1, vga_col := col\<rparr>
                    else (vga_put_at (vga_row st) (vga_col st) (deref m str) st)\<lparr>vga_col := vga_col st + 1\<rparr>)
         in print_at_loop m col (pinc str) st')
      else Some st)"

definition vga_print_at :: "mem \<Rightarrow> u32 \<Rightarrow> u32 \<Rightarrow> cptr \<Rightarrow> 'a vga_scheme \<Rightarrow> 'a vga_scheme option" where
  "vga_print_at m row col str st = do {
     st' \<leftarrow> print_at_loop m col str (st\<lparr>vga_row := row, vga_col := col\<rparr>);
     Some (st'\<lparr>vga_row := vga_row st, vga_col := vga_col st\<rparr>)
   }"

definition vga_print_centered :: "mem \<Rightarrow> u32 \<Rightarrow> cptr \<Rightarrow> 'a vga_scheme \<Rightarrow> 'a vga_scheme option" where
  "vga_print_centered m row str st = do {
     len \<leftarrow> strlen m str;
     vga_print_at m row (if len < VGA_WIDTH then (VGA_WIDTH - len) div 2 else 0) str st
   }"

end
