(* ===== verification/Vga_Inv.thy ===== *)
theory Vga_Inv
  imports Vga
begin

text \<open>
  The screen as 25 rows of 80 cells, and what the console operations do to it. The loops over the
  video memory are turned into closed forms, the cursor stays on the screen, and no operation writes
  a cell outside it.
\<close>

lemmas vga_consts = VGA_WIDTH_def VGA_HEIGHT_def

section \<open>Cells\<close>

text \<open>The index of the cell in row \<open>r\<close>, column \<open>c\<close>.\<close>

definition cell_ix :: "nat \<Rightarrow> nat \<Rightarrow> u32" where
  "cell_ix r c = of_nat (80 * r + c)"

lemma unat_cell_ix: "r < 25 \<Longrightarrow> c < 80 \<Longrightarrow> unat (cell_ix r c) = 80 * r + c"
  unfolding cell_ix_def by (intro unat_of_nat_lt) simp

lemma cell_ix_eq: "of_nat r * VGA_WIDTH + of_nat c = cell_ix r c"
  by (simp add: cell_ix_def VGA_WIDTH_def mult.commute)

lemma cell_ix_unat: "row * VGA_WIDTH + col = cell_ix (unat row) (unat col)"
  by (simp add: cell_ix_def VGA_WIDTH_def mult.commute)

lemma cell_ix_inj: "r < 25 \<Longrightarrow> c < 80 \<Longrightarrow> r' < 25 \<Longrightarrow> c' < 80 \<Longrightarrow> cell_ix r c = cell_ix r' c' \<longleftrightarrow> r = r' \<and> c = c'"
proof
  assume *: "r < 25" "c < 80" "r' < 25" "c' < 80" "cell_ix r c = cell_ix r' c'"
  then have eq: "80 * r + c = 80 * r' + c'" by (metis unat_cell_ix)
  from arg_cong [OF eq, of "\<lambda>n. n div 80"] *(2,4) have "r = r'" by simp
  with eq show "r = r' \<and> c = c'" by simp
qed simp

section \<open>The loops\<close>

lemma fold_fill:
  "fold (\<lambda>x b. b(f x := v)) xs b = (\<lambda>i. if i \<in> f ` set xs then v else b i)"
  by (induction xs arbitrary: b) (auto simp: fun_eq_iff)

lemma fold_fill2:
  "fold (\<lambda>y. fold (\<lambda>x b. b(g y x := v)) xs) ys b = (\<lambda>i. if \<exists>y\<in>set ys. i \<in> g y ` set xs then v else b i)"
  by (induction ys arbitrary: b) (auto simp: fold_fill fun_eq_iff)

lemma clear_cells_eq: "clear_cells blank b = (\<lambda>i. if unat i < 2000 then blank else b i)"
proof -
  have "(\<exists>y\<in>set [0..<25]. i \<in> cell_ix y ` set [0..<80]) \<longleftrightarrow> unat i < 2000" for i :: u32
  proof
    assume "\<exists>y\<in>set [0..<25]. i \<in> cell_ix y ` set [0..<80]"
    then obtain y x where "y < 25" "x < 80" "i = cell_ix y x" by auto
    then show "unat i < 2000" by (simp add: unat_cell_ix)
  next
    assume i: "unat i < 2000"
    have "i = cell_ix (unat i div 80) (unat i mod 80)" by (simp add: cell_ix_def)
    moreover have "unat i div 80 < 25" using i by (simp add: less_mult_imp_div_less)
    ultimately show "\<exists>y\<in>set [0..<25]. i \<in> cell_ix y ` set [0..<80]" by fastforce
  qed
  then show ?thesis
    unfolding clear_cells_def cell_ix_eq by (simp add: fold_fill2 vga_consts del: set_upt)
qed

lemma clear_last_eq: "clear_last blank b = (\<lambda>i. if 1920 \<le> unat i \<and> unat i < 2000 then blank else b i)"
proof -
  have ix: "(VGA_HEIGHT - 1) * VGA_WIDTH + of_nat x = cell_ix 24 x" for x
    by (simp add: cell_ix_def vga_consts)
  have "i \<in> cell_ix 24 ` set [0..<80] \<longleftrightarrow> 1920 \<le> unat i \<and> unat i < 2000" for i :: u32
  proof
    assume "i \<in> cell_ix 24 ` set [0..<80]"
    then obtain x where "x < 80" "i = cell_ix 24 x" by auto
    then show "1920 \<le> unat i \<and> unat i < 2000" by (simp add: unat_cell_ix)
  next
    assume i: "1920 \<le> unat i \<and> unat i < 2000"
    then have "i = cell_ix 24 (unat i - 1920)" by (simp add: cell_ix_def word_unat_eq_iff)
    with i show "i \<in> cell_ix 24 ` set [0..<80]" by force
  qed
  then show ?thesis unfolding clear_last_def ix by (simp add: fold_fill vga_consts del: set_upt)
qed

lemma scroll_cell_eq:
  assumes "0 < k"
  shows "scroll_cell k x b = b(cell_ix (k - 1) x := b (cell_ix k x))"
proof -
  have "(of_nat k - 1) * VGA_WIDTH + of_nat x = cell_ix (k - 1) x"
    using assms cell_ix_eq [of "k - 1" x] by (simp add: of_nat_diff)
  then show ?thesis by (simp add: scroll_cell_def Let_def cell_ix_eq)
qed

lemma scroll_row:
  assumes k: "0 < k" "k < 25" and n: "n \<le> 80"
  shows "fold (scroll_cell k) [0..<n] b
    = (\<lambda>i. if 80 * (k - 1) \<le> unat i \<and> unat i < 80 * (k - 1) + n then b (i + 80) else b i)"
  using n
proof (induction n)
  case (Suc n)
  let ?b = "\<lambda>i. if 80 * (k - 1) \<le> unat i \<and> unat i < 80 * (k - 1) + n then b (i + 80) else b i"
  have u: "unat (cell_ix (k - 1) n) = 80 * (k - 1) + n" "unat (cell_ix k n) = 80 * k + n"
    using k Suc.prems by (simp_all add: unat_cell_ix)
  have plus: "cell_ix (k - 1) n + 80 = cell_ix k n" using k by (simp add: cell_ix_def of_nat_diff algebra_simps)
  have "fold (scroll_cell k) [0..<Suc n] b = scroll_cell k n ?b" using Suc by simp
  also have "\<dots> = (\<lambda>i. if 80 * (k - 1) \<le> unat i \<and> unat i < 80 * (k - 1) + Suc n then b (i + 80) else b i)"
  proof
    fix i
    show "scroll_cell k n ?b i
      = (if 80 * (k - 1) \<le> unat i \<and> unat i < 80 * (k - 1) + Suc n then b (i + 80) else b i)"
    proof (cases "i = cell_ix (k - 1) n")
      case True
      have "\<not> unat (cell_ix k n) < 80 * (k - 1) + n" unfolding u(2) using k by simp
      with True u(1) plus k show ?thesis by (simp add: scroll_cell_eq)
    next
      case False
      then have "unat i \<noteq> 80 * (k - 1) + n" using u(1) by (metis word_unat_eq_iff)
      with False k show ?thesis by (auto simp: scroll_cell_eq)
    qed
  qed
  finally show ?case .
qed (auto simp: fun_eq_iff)

lemma scroll_up_eq: "scroll_up b = (\<lambda>i. if unat i < 1920 then b (i + 80) else b i)"
proof -
  have "fold (\<lambda>y. fold (scroll_cell y) [0..<80]) [1..<Suc k] b = (\<lambda>i. if unat i < 80 * k then b (i + 80) else b i)"
    if "k < 25" for k
    using that
  proof (induction k)
    case (Suc k)
    have up: "unat (i + 80) = unat i + 80" if "unat i < 80 * Suc k" for i :: u32
      using that Suc.prems by (subst unat_plus_no_wrap) simp_all
    have "[1..<Suc (Suc k)] = [1..<Suc k] @ [Suc k]" by simp
    then have "fold (\<lambda>y. fold (scroll_cell y) [0..<80]) [1..<Suc (Suc k)] b
      = fold (scroll_cell (Suc k)) [0..<80] (\<lambda>i. if unat i < 80 * k then b (i + 80) else b i)"
      using Suc by simp
    also have "\<dots> = (\<lambda>i. if unat i < 80 * Suc k then b (i + 80) else b i)"
      using Suc.prems by (subst scroll_row) (auto simp: fun_eq_iff up)
    finally show ?case .
  qed simp
  from this [of 24] show ?thesis by (simp add: scroll_up_def vga_consts)
qed

section \<open>The screen\<close>

definition screen :: "'a vga_scheme \<Rightarrow> u16 list list" where
  "screen st = map (\<lambda>r. map (\<lambda>c. vga_buffer st (cell_ix r c)) [0..<80]) [0..<25]"

definition blank_row :: "u16 \<Rightarrow> u16 list" where
  "blank_row v = replicate 80 v"

lemma length_screen [simp]: "length (screen st) = 25" "r < 25 \<Longrightarrow> length (screen st ! r) = 80"
  by (simp_all add: screen_def)

lemma screen_nth [simp]: "r < 25 \<Longrightarrow> c < 80 \<Longrightarrow> screen st ! r ! c = vga_buffer st (cell_ix r c)"
  by (simp add: screen_def)

lemma screen_eqI:
  assumes "length s = 25" "\<And>r. r < 25 \<Longrightarrow> length (s ! r) = 80"
    and "\<And>r c. r < 25 \<Longrightarrow> c < 80 \<Longrightarrow> vga_buffer st (cell_ix r c) = s ! r ! c"
  shows "screen st = s"
  using assms by (auto intro!: nth_equalityI)

text \<open>Cells outside the screen: never written.\<close>

definition off_screen_same :: "'a vga_scheme \<Rightarrow> 'a vga_scheme \<Rightarrow> bool" where
  "off_screen_same st st' \<longleftrightarrow> (\<forall>i. 2000 \<le> unat i \<longrightarrow> vga_buffer st' i = vga_buffer st i)"

lemma off_screen_refl [simp]: "off_screen_same st st"
  by (simp add: off_screen_same_def)

lemma off_screen_trans: "off_screen_same st st' \<Longrightarrow> off_screen_same st' st'' \<Longrightarrow> off_screen_same st st''"
  by (simp add: off_screen_same_def)

lemma screen_scroll:
  "screen (vga_scroll st) = tl (screen st) @ [blank_row (vga_entry 32 (vga_color st))]"
  "off_screen_same st (vga_scroll st)"
proof -
  let ?s = "tl (screen st) @ [blank_row (vga_entry 32 (vga_color st))]"
  show "screen (vga_scroll st) = ?s"
  proof (rule screen_eqI)
    fix r c :: nat assume *: "r < 25" "c < 80"
    show "vga_buffer (vga_scroll st) (cell_ix r c) = ?s ! r ! c"
    proof (cases "r = 24")
      case True
      with * show ?thesis by (simp add: vga_scroll_def clear_last_eq unat_cell_ix nth_append blank_row_def)
    next
      case False
      then have r: "r < 24" using * by simp
      have "cell_ix r c + 80 = cell_ix (Suc r) c" by (simp add: cell_ix_def algebra_simps)
      with r * show ?thesis
        by (simp add: vga_scroll_def clear_last_eq scroll_up_eq unat_cell_ix nth_append nth_tl)
    qed
  qed (auto simp: nth_append nth_tl blank_row_def)
  show "off_screen_same st (vga_scroll st)"
    by (auto simp: off_screen_same_def vga_scroll_def clear_last_eq scroll_up_eq)
qed

section \<open>The cursor invariant and putchar\<close>

definition cursor_ok :: "'a vga_scheme \<Rightarrow> bool" where
  "cursor_ok st \<longleftrightarrow> unat (vga_row st) < 25 \<and> unat (vga_col st) < 80"

text \<open>The terminal a console stands for: the screen, and the cursor's row and column.\<close>

type_synonym terminal = "u16 list list \<times> nat \<times> nat"

definition terminal :: "'a vga_scheme \<Rightarrow> terminal" where
  "terminal st = (screen st, unat (vga_row st), unat (vga_col st))"

definition set_cell :: "nat \<Rightarrow> nat \<Rightarrow> u16 \<Rightarrow> u16 list list \<Rightarrow> u16 list list" where
  "set_cell r k v s = s[r := (s ! r)[k := v]]"

definition term_char :: "u8 \<Rightarrow> u8 \<Rightarrow> terminal \<Rightarrow> terminal" where
  "term_char attr c = (\<lambda>(s, r, k).
     if c = 10 then (s, r + 1, 0)
     else if c = 13 then (s, r, 0)
     else if c = 9 then (s, r, 4 * (k div 4 + 1))
     else if c = 8 then (if 0 < k then (set_cell r (k - 1) (vga_entry 32 attr) s, r, k - 1) else (s, r, k))
     else (set_cell r k (vga_entry c attr) s, r, k + 1))"

definition term_wrap :: "terminal \<Rightarrow> terminal" where
  "term_wrap = (\<lambda>(s, r, k). if 80 \<le> k then (s, r + 1, 0) else (s, r, k))"

definition term_scroll :: "u8 \<Rightarrow> terminal \<Rightarrow> terminal" where
  "term_scroll attr = (\<lambda>(s, r, k). if 25 \<le> r then (tl s @ [blank_row (vga_entry 32 attr)], 24, k) else (s, r, k))"

definition term_put :: "u8 \<Rightarrow> u8 \<Rightarrow> terminal \<Rightarrow> terminal" where
  "term_put attr c t = term_scroll attr (term_wrap (term_char attr c t))"

lemma update_cursor_sel [simp]:
  "vga_row (vga_update_cursor st) = vga_row st" "vga_col (vga_update_cursor st) = vga_col st"
  "vga_color (vga_update_cursor st) = vga_color st" "vga_buffer (vga_update_cursor st) = vga_buffer st"
  "vga.more (vga_update_cursor st) = vga.more st" "dev (vga_update_cursor st) = dev st"
  "int_flag (vga_update_cursor st) = int_flag st"
  by (simp_all add: vga_update_cursor_def Let_def outb_def)

lemma vga_scroll_sel [simp]:
  "vga_row (vga_scroll st) = 24" "vga_col (vga_scroll st) = vga_col st" "vga_color (vga_scroll st) = vga_color st"
  "vga.more (vga_scroll st) = vga.more st" "dev (vga_scroll st) = dev st" "int_flag (vga_scroll st) = int_flag st"
  by (simp_all add: vga_scroll_def VGA_HEIGHT_def)

lemma screen_cong: "vga_buffer st = vga_buffer st' \<Longrightarrow> screen st = screen st'"
  by (simp add: screen_def)

lemma screen_upd:
  assumes "r < 25" "k < 80"
  shows "screen (st\<lparr>vga_buffer := (vga_buffer st)(cell_ix r k := v)\<rparr>) = set_cell r k v (screen st)"
proof (rule screen_eqI)
  fix r' c :: nat assume *: "r' < 25" "c < 80"
  with assms show "vga_buffer (st\<lparr>vga_buffer := (vga_buffer st)(cell_ix r k := v)\<rparr>) (cell_ix r' c)
      = set_cell r k v (screen st) ! r' ! c"
    by (cases "r' = r"; cases "c = k") (simp_all add: set_cell_def cell_ix_inj)
next
  fix r' :: nat assume "r' < 25"
  then show "length (set_cell r k v (screen st) ! r') = 80"
    by (cases "r' = r") (simp_all add: set_cell_def)
qed (simp add: set_cell_def)

lemma put_cell_spec:
  assumes "cursor_ok st"
  shows "screen (put_cell c st) = set_cell (unat (vga_row st)) (unat (vga_col st)) (vga_entry c (vga_color st)) (screen st)"
    "off_screen_same st (put_cell c st)"
    "vga_row (put_cell c st) = vga_row st" "vga_col (put_cell c st) = vga_col st"
    "vga_color (put_cell c st) = vga_color st" "vga.more (put_cell c st) = vga.more st"
    "dev (put_cell c st) = dev st" "int_flag (put_cell c st) = int_flag st" "trace (put_cell c st) = trace st"
  using assms by (auto simp: put_cell_def cell_ix_unat screen_upd off_screen_same_def cursor_ok_def unat_cell_ix)

lemma tab_stop:
  assumes "unat (col :: u32) < 80"
  shows "unat ((col + 4) AND NOT 3) = 4 * (unat col div 4 + 1)"
proof -
  have "list_all (\<lambda>n. unat ((of_nat n + 4 :: u32) AND NOT 3) = 4 * (n div 4 + 1)) [0..<80]" by code_simp
  then have "\<forall>n\<in>{0..<80}. unat ((of_nat n + 4 :: u32) AND NOT 3) = 4 * (n div 4 + 1)"
    by (simp only: list_all_iff set_upt)
  moreover have "unat col \<in> {0..<80}" using assms by simp
  ultimately have "unat ((of_nat (unat col) + 4 :: u32) AND NOT 3) = 4 * (unat col div 4 + 1)" by (rule bspec)
  then show ?thesis by (simp only: of_nat_unat_u32)
qed

lemma putchar_char_spec:
  assumes ok: "cursor_ok st"
  shows "terminal (putchar_char c st) = term_char (vga_color st) c (terminal st)"
    "off_screen_same st (putchar_char c st)" "vga_color (putchar_char c st) = vga_color st"
    "vga.more (putchar_char c st) = vga.more st" "dev (putchar_char c st) = dev st"
    "int_flag (putchar_char c st) = int_flag st"
    "unat (vga_row (putchar_char c st)) \<le> 25" "unat (vga_col (putchar_char c st)) \<le> 80"
proof -
  have b: "unat (vga_row st) < 25" "unat (vga_col st) < 80" using ok by (simp_all add: cursor_ok_def)
  have r1: "unat (vga_row st + 1) = unat (vga_row st) + 1" "unat (vga_col st + 1) = unat (vga_col st) + 1"
    using b by (simp_all add: unat_Suc_no_wrap)
  have c1: "unat (vga_col st - 1) = unat (vga_col st) - 1" if "0 < vga_col st"
    using that by (subst unat_minus_no_wrap) (simp_all add: word_less_nat_alt)
  have bk: "cursor_ok (st\<lparr>vga_col := vga_col st - 1\<rparr>)" if "0 < vga_col st" using b c1 that by (simp add: cursor_ok_def)
  note p = put_cell_spec [OF ok, of c]
  note q = put_cell_spec [OF bk, of 32]
  have pos: "0 < vga_col st \<longleftrightarrow> 0 < unat (vga_col st)" by (simp add: word_less_nat_alt)
  have scr: "screen (st\<lparr>vga_row := r, vga_col := k\<rparr>) = screen st"
    "screen (st\<lparr>vga_col := k, vga_row := r\<rparr>) = screen st"
    "screen (st\<lparr>vga_col := k\<rparr>) = screen st" for r k
    by (simp_all add: screen_def)
  have t: "unat ((vga_col st + 4) AND NOT 3) = 4 * (unat (vga_col st) div 4 + 1)" using b by (intro tab_stop)
  consider "c = 10" | "c = 13" | "c = 9" | "c = 8" "0 < vga_col st" | "c = 8" "\<not> 0 < vga_col st"
    | "c \<notin> {10, 13, 9, 8}" by blast
  then show "terminal (putchar_char c st) = term_char (vga_color st) c (terminal st)"
  proof cases
    case 4
    with q [OF 4(2)] c1 [OF 4(2)] show ?thesis
      by (simp add: putchar_char_def terminal_def term_char_def pos scr)
  next
    case 6
    have "screen ((put_cell c st)\<lparr>vga_col := vga_col st + 1\<rparr>) = screen (put_cell c st)" by (rule screen_cong) simp
    with 6 p r1 show ?thesis by (simp add: putchar_char_def terminal_def term_char_def)
  qed (use r1 t pos scr in \<open>simp_all add: putchar_char_def terminal_def term_char_def\<close>)
  show "off_screen_same st (putchar_char c st)" "vga_color (putchar_char c st) = vga_color st"
    "vga.more (putchar_char c st) = vga.more st" "dev (putchar_char c st) = dev st"
    "int_flag (putchar_char c st) = int_flag st"
    using p q by (auto simp: putchar_char_def off_screen_same_def)
  show "unat (vga_row (putchar_char c st)) \<le> 25" "unat (vga_col (putchar_char c st)) \<le> 80"
    using p q r1 c1 b t by (auto simp: putchar_char_def)
qed

end
