(* ===== verification/Console.thy ===== *)
theory Console
  imports CString
begin

text \<open>
  The contract between a character device and the code that prints through it: each character
  keeps the device's invariant and touches nothing but the device. Whatever prints by putting
  characters inherits both.
\<close>

locale console =
  fixes putc :: "u8 \<Rightarrow> 's \<Rightarrow> 's"
    and ok :: "'s \<Rightarrow> bool"
    and rest :: "'s \<Rightarrow> 'r"
    and draw :: "u8 \<Rightarrow> 'a \<Rightarrow> 't \<Rightarrow> 't"
    and view :: "'s \<Rightarrow> 't"
    and attr :: "'s \<Rightarrow> 'a"
  assumes putc_ok: "ok s \<Longrightarrow> ok (putc c s)"
    and putc_rest: "ok s \<Longrightarrow> rest (putc c s) = rest s"
    and putc_attr: "ok s \<Longrightarrow> attr (putc c s) = attr s"
    and putc_view: "ok s \<Longrightarrow> view (putc c s) = draw c (attr s) (view s)"
begin

text \<open>A text, character by character: what it draws depends on the attribute and the view only.\<close>

lemma puts_spec:
  "ok s \<Longrightarrow> ok (fold putc cs s) \<and> rest (fold putc cs s) = rest s \<and> attr (fold putc cs s) = attr s
    \<and> view (fold putc cs s) = fold (\<lambda>c. draw c (attr s)) cs (view s)"
proof (induction cs arbitrary: s)
  case (Cons c cs)
  have "ok (putc c s)" by (rule putc_ok [OF Cons.prems])
  from Cons.IH [OF this] putc_rest [OF Cons.prems] putc_attr [OF Cons.prems] putc_view [OF Cons.prems]
  show ?case using \<open>ok (putc c s)\<close> by simp
qed simp

lemma puts_ok: "ok s \<Longrightarrow> ok (fold putc cs s)"
  and puts_rest: "ok s \<Longrightarrow> rest (fold putc cs s) = rest s"
  and puts_attr: "ok s \<Longrightarrow> attr (fold putc cs s) = attr s"
  and puts_view: "ok s \<Longrightarrow> view (fold putc cs s) = fold (\<lambda>c. draw c (attr s)) cs (view s)"
  using puts_spec by blast+

end

end
