(* ===== verification/Vga_Props.thy ===== *)
theory Vga_Props
  imports Vga_Inv Console CString_Num
begin

text \<open>
  The console meets its contract and its specification: printing a text is drawing its characters on
  the terminal, one after the other; then the number formats and the properties of the driver.
\<close>

section \<open>vga_putchar\<close>

lemma vga_scroll_term:
  assumes "unat (vga_row st) \<le> 25"
  shows "terminal (if VGA_HEIGHT \<le> vga_row st then vga_scroll st else st) = term_scroll (vga_color st) (terminal st)"
  using screen_scroll(1) [of st]
  by (auto simp: terminal_def term_scroll_def word_le_nat_alt VGA_HEIGHT_def)

lemma putchar_wrap_term: 
  assumes "unat (vga_row st) \<le> 25"
  shows "terminal (putchar_wrap st) = term_wrap (terminal st)"
proof -
  have "unat (vga_row st + 1) = unat (vga_row st) + 1" using assms by (simp add: unat_Suc_no_wrap)
  moreover have "screen (st\<lparr>vga_row := r, vga_col := k\<rparr>) = screen st" for r k by (simp add: screen_def)
  ultimately show ?thesis
    by (auto simp: putchar_wrap_def terminal_def term_wrap_def word_le_nat_alt VGA_WIDTH_def screen_def)
qed

lemma putchar_wrap_sel [simp]:
  "vga_color (putchar_wrap st) = vga_color st" "vga.more (putchar_wrap st) = vga.more st"
  "dev (putchar_wrap st) = dev st" "int_flag (putchar_wrap st) = int_flag st"
  "vga_buffer (putchar_wrap st) = vga_buffer st"
  by (simp_all add: putchar_wrap_def)

lemma term_put_bounds:
  assumes "term_put attr c (s, r, k) = (s', r', k')" "r < 25" "k < 80"
  shows "r' < 25 \<and> k' < 80"
proof -
  have "k div 4 + 1 \<le> 20" using assms(3) by simp
  then show ?thesis
    using assms by (auto simp: term_put_def term_char_def term_wrap_def term_scroll_def split: if_splits)
qed

lemma term_char_row: "term_char attr c (s, r, k) = (s', r', k') \<Longrightarrow> k < 80 \<Longrightarrow> r' \<le> r + 1 \<and> (r' = r \<or> k' = 0)"
  by (auto simp: term_char_def split: if_splits)

text \<open>\<open>dev\<close> and the interrupt flag belong to the console's frame as well.\<close>

definition vga_rest :: "'a vga_scheme \<Rightarrow> (io_event list \<Rightarrow> u16 \<Rightarrow> u8) \<times> bool \<times> 'a" where
  "vga_rest st = (dev st, int_flag st, vga.more st)"

lemma vga_putchar_spec:
  assumes ok: "cursor_ok st"
  shows "cursor_ok (vga_putchar c st)" "vga_rest (vga_putchar c st) = vga_rest st"
    "vga_color (vga_putchar c st) = vga_color st"
    "terminal (vga_putchar c st) = term_put (vga_color st) c (terminal st)"
    "off_screen_same st (vga_putchar c st)"
proof -
  let ?s1 = "putchar_char c st" and ?s2 = "putchar_wrap (putchar_char c st)"
  let ?s3 = "if VGA_HEIGHT \<le> vga_row ?s2 then vga_scroll ?s2 else ?s2"
  note p = putchar_char_spec [OF ok, of c]
  have pc: "vga_putchar c st = vga_update_cursor ?s3" by (simp add: vga_putchar_def Let_def)
  have t2: "terminal ?s2 = term_wrap (term_char (vga_color st) c (terminal st))"
    using putchar_wrap_term [OF p(7)] p(1) by simp
  have b: "unat (vga_row st) < 25" "unat (vga_col st) < 80" using ok by (simp_all add: cursor_ok_def)
  obtain s r k where tc: "term_char (vga_color st) c (terminal st) = (s, r, k)" by (cases "term_char (vga_color st) c (terminal st)")
  from term_char_row [OF this [unfolded terminal_def] b(2)] b(1) have "r \<le> 25 \<and> (r \<le> 24 \<or> k = 0)" by auto
  then have "unat (vga_row ?s2) \<le> 25" using t2 tc by (auto simp: terminal_def term_wrap_def split: if_splits)
  from vga_scroll_term [OF this] t2 p(3)
  have t3: "terminal ?s3 = term_put (vga_color st) c (terminal st)" by (simp add: term_put_def)
  moreover have "terminal (vga_update_cursor ?s3) = terminal ?s3" by (simp add: terminal_def screen_def)
  ultimately show t: "terminal (vga_putchar c st) = term_put (vga_color st) c (terminal st)" by (simp add: pc)
  obtain s' r' k' where tp: "term_put (vga_color st) c (screen st, unat (vga_row st), unat (vga_col st)) = (s', r', k')"
    using prod_cases3 by blast
  from term_put_bounds [OF this b] t tp show "cursor_ok (vga_putchar c st)"
    by (simp add: cursor_ok_def terminal_def)
  show "vga_rest (vga_putchar c st) = vga_rest st" "vga_color (vga_putchar c st) = vga_color st"
    using p by (simp_all add: pc vga_rest_def)
  have "off_screen_same ?s1 ?s2" by (simp add: off_screen_same_def)
  moreover have "off_screen_same ?s2 ?s3" using screen_scroll(2) [of ?s2] by simp
  ultimately have "off_screen_same st ?s3" using p(2) off_screen_trans by blast
  then show "off_screen_same st (vga_putchar c st)" by (simp add: pc off_screen_same_def)
qed

interpretation vga: console vga_putchar cursor_ok vga_rest "\<lambda>c attr. term_put attr c" terminal vga_color
  by unfold_locales (auto intro: vga_putchar_spec)

lemma puts_off_screen: "cursor_ok st \<Longrightarrow> off_screen_same st (fold vga_putchar cs st)"
proof (induction cs arbitrary: st)
  case (Cons c cs)
  from Cons.IH [OF vga_putchar_spec(1) [OF Cons.prems]] vga_putchar_spec(5) [OF Cons.prems]
  show ?case by (auto intro: off_screen_trans)
qed simp

text \<open>Drawing a text on the terminal.\<close>

definition term_puts :: "u8 \<Rightarrow> u8 list \<Rightarrow> terminal \<Rightarrow> terminal" where
  "term_puts attr cs = fold (term_put attr) cs"

lemma vga_puts_view: "cursor_ok st \<Longrightarrow> terminal (fold vga_putchar cs st) = term_puts (vga_color st) cs (terminal st)"
  using vga.puts_view by (simp add: term_puts_def)

lemma vga_print_eq: "cstr m p s \<Longrightarrow> vga_print m p st = Some (fold vga_putchar s st)"
proof (induction s arbitrary: p st)
  case Nil
  then show ?case by (subst vga_print.simps) simp
next
  case (Cons c cs)
  then show ?case by (subst vga_print.simps) simp
qed

lemma vga_print_Lit: "0 \<notin> set (bytes s) \<Longrightarrow> vga_print m (Lit s) st = Some (fold vga_putchar (bytes s) st)"
  by (rule vga_print_eq [OF cstr_Lit])

section \<open>Number formats\<close>

lemma dec_digits_eq: "0 < n \<Longrightarrow> dec_digits (int n) = map digit_char (rdigits 10 n)"
proof (induction n rule: less_induct)
  case (less n)
  have m: "int n mod 10 = int (n mod 10)" by (simp add: zmod_int)
  have d: "word_of_int (48 + int n mod 10) = digit_char (n mod 10)"
    unfolding m by (simp add: digit_char_def del: of_nat_mod)
  show ?case
  proof (cases "n < 10")
    case True
    with less.prems d show ?thesis
      by (subst dec_digits.simps, subst rdigits.simps) (simp add: dec_digits.simps [of 0])
  next
    case False
    then have "dec_digits (int (n div 10)) = map digit_char (rdigits 10 (n div 10))" by (intro less.IH) simp_all
    with False d show ?thesis
      by (subst dec_digits.simps, subst rdigits.simps) (simp add: zdiv_int)
  qed
qed

lemma vga_print_dec_eq:
  assumes "num \<noteq> 0x80000000"
  shows "vga_print_dec num st = fold vga_putchar (itoa_text num 10) st"
proof -
  define v where "v = (if num <s 0 then - num else num)"
  have u: "unat v < 2 ^ 31"
  proof (cases "num <s 0")
    case True
    then have n: "2 ^ 31 \<le> unat num" by (simp add: sless_0)
    have "unat num \<noteq> unat (0x80000000 :: u32)" using assms by (metis word_unat_eq_iff)
    with n have "2 ^ 31 < unat num" by simp
    moreover have "unat (- num) = 2 ^ 32 - unat num"
      using n by (intro unat_neg_u32) auto
    ultimately show ?thesis using True by (simp add: v_def)
  next
    case False
    then show ?thesis by (simp add: v_def sless_0)
  qed
  have neg0: "num <s 0 \<Longrightarrow> v \<noteq> 0" by (auto simp: v_def)
  show ?thesis
  proof (cases "v = 0")
    case True
    with neg0 have "num = 0" by (auto simp: v_def split: if_splits)
    moreover have "itoa_text 0 10 = [48]" by (simp add: itoa_text_def rdigits.simps digit_char_def)
    ultimately show ?thesis by (simp add: vga_print_dec_def)
  next
    case False
    then have "0 < unat v" by (simp add: unat_gt_0)
    then have "dec_digits (sint v) = map digit_char (rdigits 10 (unat v))"
      unfolding sint_small [OF u] by (rule dec_digits_eq)
    with False show ?thesis
      by (simp add: vga_print_dec_def Let_def v_def [symmetric] itoa_text_def rev_map)
        (simp add: v_def)
  qed
qed

lemma vga_print_dec_min: "vga_print_dec 0x80000000 st = vga_putchar 45 st"
proof -
  have "- (0x80000000 :: u32) = 0x80000000" by simp
  moreover have "(0x80000000 :: u32) <s 0" by (simp add: sless_0)
  moreover have "sint (0x80000000 :: u32) = - (2 ^ 31)" by (simp add: sint_eq)
  ultimately show ?thesis by (simp add: vga_print_dec_def Let_def dec_digits.simps)
qed

text \<open>The eight hexadecimal digits, least significant first.\<close>

primrec nibbles :: "nat \<Rightarrow> nat \<Rightarrow> nat list" where
  "nibbles 0 n = []"
| "nibbles (Suc k) n = n mod 16 # nibbles k (n div 16)"

lemma hex_fill_eq: "hex_fill k num buf = map ((!) hex_chars) (rev (nibbles k (unat num))) @ buf"
proof (induction k arbitrary: num buf)
  case (Suc k)
  have "unat (num AND 0xF) = unat num mod 16"
  proof -
    have "num AND 0xF = num AND mask 4" by (simp add: mask_eq_exp_minus_1)
    then have "unat (num AND 0xF) = unat (take_bit 4 num)" by (simp only: take_bit_eq_mask)
    then show ?thesis by (simp add: take_bit_eq_mod unat_mod)
  qed
  moreover have "unat (drop_bit 4 num) = unat num div 16" by (simp add: unat_drop_bit_eq drop_bit_eq_div unat_div)
  ultimately show ?case using Suc.IH by simp
qed simp

lemma nibbles_0: "nibbles k 0 = replicate k 0"
  by (induction k) simp_all

lemma nibbles_rdigits:
  "n < 16 ^ k \<Longrightarrow> 0 < k \<Longrightarrow> nibbles k n = rdigits 16 n @ replicate (k - length (rdigits 16 n)) 0"
proof (induction k arbitrary: n)
  case (Suc k)
  show ?case
  proof (cases "n < 16")
    case True
    then show ?thesis by (subst (1 2) rdigits.simps) (simp add: nibbles_0)
  next
    case False
    then have "0 < k" using Suc.prems by (cases k) auto
    then have "nibbles k (n div 16) = rdigits 16 (n div 16) @ replicate (k - length (rdigits 16 (n div 16))) 0"
      using Suc.prems by (intro Suc.IH) (simp_all add: less_mult_imp_div_less mult.commute)
    with False show ?thesis by (subst (1 2) rdigits.simps) simp
  qed
qed simp

lemma rdigits_last: "0 < n \<Longrightarrow> 2 \<le> b \<Longrightarrow> last (rdigits b n) \<noteq> 0"
proof (induction b n rule: rdigits.induct)
  case (1 b n)
  show ?case
  proof (cases "n < b")
    case True
    with "1.prems" show ?thesis by (subst rdigits.simps) simp
  next
    case False
    with "1.prems" have "last (rdigits b (n div b)) \<noteq> 0" by (intro "1.IH") (simp_all add: div_greater_zero_iff)
    with False "1.prems" show ?thesis by (subst rdigits.simps) (simp add: rdigits_nonempty)
  qed
qed

lemma hex_chars_48: "d < 16 \<Longrightarrow> hex_chars ! d = 48 \<longleftrightarrow> d = 0"
proof -
  have "list_all (\<lambda>d. (hex_chars ! d = 48) = (d = 0)) [0..<16]" by code_simp
  then show "d < 16 \<Longrightarrow> hex_chars ! d = 48 \<longleftrightarrow> d = 0" by (simp add: list_all_iff)
qed

lemma hex_skip_zeros: "c \<noteq> 48 \<or> cs = [] \<Longrightarrow> hex_skip (replicate k 48 @ c # cs) = c # cs"
proof (induction k)
  case 0
  then show ?case by (cases cs) auto
next
  case (Suc k)
  then show ?case by (cases k) auto
qed

definition hex_text :: "u32 \<Rightarrow> u8 list" where
  "hex_text num = map ((!) hex_chars) (rev (rdigits 16 (unat num)))"

lemma hex_skip_text: "hex_skip (hex_fill 8 num []) = hex_text num"
proof -
  let ?r = "rdigits 16 (unat num)"
  have n: "nibbles 8 (unat num) = ?r @ replicate (8 - length ?r) 0"
    using unat_u32_lt [of num] by (intro nibbles_rdigits) simp_all
  obtain d ds where r: "rev ?r = d # ds" using rdigits_nonempty by (metis list.exhaust rev_is_Nil_conv)
  have "hex_chars ! d \<noteq> 48 \<or> ds = []"
  proof (cases "unat num = 0")
    case True
    then show ?thesis using r by (simp add: rdigits.simps)
  next
    case False
    have "d = last ?r" using r by (metis hd_rev list.sel(1))
    then have "d \<noteq> 0" using rdigits_last [of "unat num" 16] False by simp
    moreover have "d \<in> set ?r" using r by (metis list.set_intros(1) set_rev)
    then have "d < 16" using rdigits_bound [of 16 "unat num"] by simp
    ultimately show ?thesis using hex_chars_48 by simp
  qed
  moreover have "hex_fill 8 num [] = replicate (8 - length ?r) 48 @ hex_chars ! d # map ((!) hex_chars) ds"
    using r hex_chars_48 [of 0] by (simp add: hex_fill_eq n)
  ultimately show ?thesis using r by (simp add: hex_text_def hex_skip_zeros)
qed

section \<open>Positioned output\<close>

lemma vga_put_at_sel [simp]:
  "vga_row (vga_put_at r k c st) = vga_row st" "vga_col (vga_put_at r k c st) = vga_col st"
  "vga_color (vga_put_at r k c st) = vga_color st" "vga_rest (vga_put_at r k c st) = vga_rest st"
  "trace (vga_put_at r k c st) = trace st"
  by (simp_all add: vga_put_at_def vga_rest_def)

lemma vga_put_at_off: "off_screen_same st (vga_put_at r k c st)"
proof (cases "r < VGA_HEIGHT \<and> k < VGA_WIDTH")
  case True
  then have b: "unat r < 25" "unat k < 80" by (simp_all add: word_less_nat_alt vga_consts)
  have "unat (r * VGA_WIDTH + k) = 80 * unat r + unat k" unfolding cell_ix_unat by (rule unat_cell_ix [OF b])
  with b True show ?thesis by (auto simp: off_screen_same_def vga_put_at_def)
qed (auto simp: off_screen_same_def vga_put_at_def)

lemma print_at_loop_spec:
  assumes "cstr m p s"
  shows "\<exists>st'. print_at_loop m col p st = Some st' \<and> vga_color st' = vga_color st \<and> vga_rest st' = vga_rest st
    \<and> trace st' = trace st \<and> off_screen_same st st'"
  using assms
proof (induction s arbitrary: p st)
  case Nil
  then show ?case by (subst print_at_loop.simps) simp
next
  case (Cons c s)
  show ?case
  proof (cases "vga_col st < VGA_WIDTH")
    case False
    then show ?thesis by (subst print_at_loop.simps) simp
  next
    case True
    define st1 where "st1 = (if deref m p = 10 then st\<lparr>vga_row := vga_row st + 1, vga_col := col\<rparr>
        else (vga_put_at (vga_row st) (vga_col st) (deref m p) st)\<lparr>vga_col := vga_col st + 1\<rparr>)"
    have 1: "vga_color st1 = vga_color st \<and> vga_rest st1 = vga_rest st \<and> trace st1 = trace st \<and> off_screen_same st st1"
      using vga_put_at_off [of st "vga_row st" "vga_col st" "deref m p"]
        vga_put_at_sel(4) [of "vga_row st" "vga_col st" "deref m p" st]
      by (auto simp: st1_def vga_rest_def off_screen_same_def)
    have "print_at_loop m col p st = print_at_loop m col (pinc p) st1"
      using Cons.prems True by (subst print_at_loop.simps) (simp add: st1_def Let_def)
    moreover have "cstr m (pinc p) s" using Cons.prems by simp
    from Cons.IH [OF this, of st1] obtain st' where "print_at_loop m col (pinc p) st1 = Some st'"
      "vga_color st' = vga_color st1" "vga_rest st' = vga_rest st1" "trace st' = trace st1" "off_screen_same st1 st'" by blast
    ultimately show ?thesis using 1 off_screen_trans by fastforce
  qed
qed

lemma vga_print_at_spec:
  assumes "cstr m p s"
  shows "\<exists>st'. vga_print_at m row col p st = Some st' \<and> vga_row st' = vga_row st \<and> vga_col st' = vga_col st
    \<and> vga_color st' = vga_color st \<and> vga_rest st' = vga_rest st \<and> trace st' = trace st \<and> off_screen_same st st'"
  using print_at_loop_spec [OF assms, of col "st\<lparr>vga_row := row, vga_col := col\<rparr>"]
  by (fastforce simp: vga_print_at_def vga_rest_def off_screen_same_def)

lemma vga_print_centered_spec:
  assumes "cstr m p s" "length s < 2 ^ 32"
  shows "\<exists>st'. vga_print_centered m row p st = Some st' \<and> vga_row st' = vga_row st \<and> vga_col st' = vga_col st
    \<and> vga_color st' = vga_color st \<and> vga_rest st' = vga_rest st \<and> trace st' = trace st \<and> off_screen_same st st'"
proof -
  have "vga_print_centered m row p st = vga_print_at m row
      (if of_nat (length s) < VGA_WIDTH then (VGA_WIDTH - of_nat (length s)) div 2 else 0) p st"
    by (simp add: vga_print_centered_def strlen_eq [OF assms])
  then show ?thesis using vga_print_at_spec [OF assms(1)] by metis
qed

section \<open>Properties of the console\<close>

text \<open>
  C27: \<^verbatim>\<open>vga_putchar\<close> is the terminal's character step: with the cursor on the screen, it draws the
  character (newline, carriage return, tab stops, backspace, line wrap, scrolling) as the
  specification says, keeps the cursor on the screen, writes no cell beyond the 2000 of the screen,
  and leaves everything else of the machine alone.
\<close>
theorem vga_putchar_draws:
  assumes "cursor_ok st"
  shows "terminal (vga_putchar c st) = term_put (vga_color st) c (terminal st) \<and> cursor_ok (vga_putchar c st)
    \<and> off_screen_same st (vga_putchar c st) \<and> vga_color (vga_putchar c st) = vga_color st
    \<and> vga_rest (vga_putchar c st) = vga_rest st"
  using vga_putchar_spec [OF assms, of c] by blast

definition blank_vga :: vga where
  "blank_vga = \<lparr>dev = \<lambda>_ _. 0, trace = [], int_flag = False, vga_row = 24, vga_col = 79, vga_color = 7,
     vga_buffer = \<lambda>_. 0\<rparr>"

lemma blank_vga_ok: "cursor_ok blank_vga"
  by (simp add: blank_vga_def cursor_ok_def)

theorem vga_putchar_draws_witness:
  "unat (vga_row (vga_putchar 65 blank_vga)) = 24 \<and> unat (vga_col (vga_putchar 65 blank_vga)) = 0"
  using vga_putchar_draws [OF blank_vga_ok, of 65]
  by (simp add: terminal_def term_put_def term_char_def term_wrap_def term_scroll_def blank_vga_def)

text \<open>
  After every \<^verbatim>\<open>vga_putchar\<close> the hardware cursor is where the software cursor is: the last four
  port writes select the two halves of the cursor register and store \<open>80 * row + col\<close>.
\<close>
theorem vga_cursor_synchronised:
  assumes "cursor_ok st"
  shows "\<exists>hi lo t. trace (vga_putchar c st) = Outb 0x3D5 lo # Outb 0x3D4 15 # Outb 0x3D5 hi # Outb 0x3D4 14 # t
    \<and> 256 * unat hi + unat lo = 80 * unat (vga_row (vga_putchar c st)) + unat (vga_col (vga_putchar c st))"
proof -
  define s where "s = (if VGA_HEIGHT \<le> vga_row (putchar_wrap (putchar_char c st))
      then vga_scroll (putchar_wrap (putchar_char c st)) else putchar_wrap (putchar_char c st))"
  have pc: "vga_putchar c st = vga_update_cursor s" by (simp add: vga_putchar_def s_def Let_def)
  define pos :: u16 where "pos = ucast (vga_row s * VGA_WIDTH + vga_col s)"
  have b: "unat (vga_row s) < 25" "unat (vga_col s) < 80"
    using vga_putchar_spec(1) [OF assms, of c] by (simp_all add: pc cursor_ok_def)
  have ix: "unat (vga_row s * VGA_WIDTH + vga_col s) = 80 * unat (vga_row s) + unat (vga_col s)"
    unfolding cell_ix_unat by (rule unat_cell_ix [OF b])
  have pos: "unat pos = 80 * unat (vga_row s) + unat (vga_col s)"
    unfolding pos_def unsigned_ucast_eq ix using b by (simp add: take_bit_eq_mod)
  have t: "trace (vga_putchar c st) = Outb 0x3D5 (ucast (pos AND 0xFF)) # Outb 0x3D4 15
      # Outb 0x3D5 (ucast (drop_bit 8 pos AND 0xFF)) # Outb 0x3D4 14 # trace s"
    by (simp add: pc vga_update_cursor_def pos_def Let_def VGA_DATA_PORT_def VGA_CTRL_PORT_def)
  have m: "x AND 0xFF = take_bit 8 x" for x :: u16 by (simp add: take_bit_eq_mask mask_eq_exp_minus_1)
  have lo: "unat (ucast (pos AND 0xFF) :: u8) = unat pos mod 256"
    unfolding m by (simp add: unsigned_ucast_eq unsigned_take_bit_eq take_bit_eq_mod unat_mod)
  have "unat (drop_bit 8 pos) = unat pos div 256" by (simp add: unat_drop_bit_eq drop_bit_eq_div unat_div)
  then have hi: "unat (ucast (drop_bit 8 pos AND 0xFF) :: u8) = unat pos div 256 mod 256"
    unfolding m by (simp add: unsigned_ucast_eq unsigned_take_bit_eq take_bit_eq_mod unat_mod)
  have "unat pos div 256 < 256" using pos b by (simp add: less_mult_imp_div_less)
  then have "256 * unat (ucast (drop_bit 8 pos AND 0xFF) :: u8) + unat (ucast (pos AND 0xFF) :: u8) = unat pos"
    unfolding lo hi by simp
  then show ?thesis using t pos by (auto simp: pc)
qed

theorem vga_cursor_synchronised_witness:
  "\<exists>hi lo t. trace (vga_putchar 65 blank_vga) = Outb 0x3D5 lo # Outb 0x3D4 15 # Outb 0x3D5 hi # Outb 0x3D4 14 # t"
  using vga_cursor_synchronised [OF blank_vga_ok, of 65] by blast

text \<open>
  C28: \<^verbatim>\<open>vga_print_dec\<close> prints the same text as \<^verbatim>\<open>itoa\<close> in base 10 (so the decimal numeral of the
  number) for every \<^verbatim>\<open>int\<close> but the smallest, for which it prints a lone minus sign.
\<close>
theorem vga_print_dec_text:
  shows "vga_print_dec num st = fold vga_putchar (if num = 0x80000000 then [45] else itoa_text num 10) st"
  using vga_print_dec_eq [of num st] vga_print_dec_min by auto

text \<open>
  \<^verbatim>\<open>vga_print_hex\<close> prints "0x" and the hexadecimal numeral of the number in upper case, with no
  leading zero except for the number 0 itself.
\<close>
theorem vga_print_hex_text:
  shows "vga_print_hex num st = fold vga_putchar (bytes ''0x'' @ map ((!) hex_chars) (rev (rdigits 16 (unat num)))) st"
  by (simp add: vga_print_hex_def hex_skip_text hex_text_def)

text \<open>
  C29: \<^verbatim>\<open>vga_print_at\<close> of a terminated string returns for every row and column, on the screen or not:
  it leaves the cursor, the colour, the ports and the rest of the machine as they were and writes
  no cell beyond the screen.
\<close>
theorem vga_print_at_frame:
  assumes "cstr m p s"
  shows "\<exists>st'. vga_print_at m row col p st = Some st' \<and> vga_row st' = vga_row st \<and> vga_col st' = vga_col st
    \<and> vga_color st' = vga_color st \<and> vga_rest st' = vga_rest st \<and> trace st' = trace st \<and> off_screen_same st st'"
  by (rule vga_print_at_spec [OF assms])

theorem vga_print_at_frame_witness:
  "\<exists>st'. vga_print_at (\<lambda>_. 0) 24 70 (Lit ''a long line of text'') blank_vga = Some st' \<and> vga_row st' = 24"
proof -
  have "cstr (\<lambda>_. 0) (Lit ''a long line of text'') (bytes ''a long line of text'')" by (rule cstr_Lit) simp
  from vga_print_at_frame [OF this, of 24 70 blank_vga] show ?thesis by (auto simp: blank_vga_def)
qed

end
