(* ===== verification/Idt.thy ===== *)
theory Idt
  imports Vga_Props
begin

text \<open>
  Interrupt gates and the interrupt controllers: \<^verbatim>\<open>src/src/kernel/idt.c\<close> and the panic path of
  \<^verbatim>\<open>src/src/kernel/kernel.c\<close>. The entry points of \<^verbatim>\<open>isr.asm\<close> and the addresses of the static tables
  are link-time values the state carries; a registered handler is one of the two function pointers
  the kernel ever registers. The dispatcher \<^verbatim>\<open>irq_handler\<close> calls into the drivers and is in the
  machine's theory.
\<close>

section \<open>State\<close>

record idt_entry =
  base_low :: u16
  sel :: u16
  always0 :: u8
  flags :: u8
  base_high :: u16

datatype handler = Timer_handler | Keyboard_handler

record idt = vga +
  isr_stub :: "nat \<Rightarrow> u32"
  irq_stub :: "nat \<Rightarrow> u32"
  idt_addr :: u32
  idtp_addr :: u32
  idt_tab :: "idt_entry list"
  idtp_limit :: u16
  idtp_base :: u32
  irq_handlers :: "handler option list"

definition IDT_ENTRIES :: nat where "IDT_ENTRIES = 256"
definition IDT_FLAGS_INTERRUPT :: u8 where "IDT_FLAGS_INTERRUPT = 0x8E"
definition PIC1_COMMAND :: u16 where "PIC1_COMMAND = 0x20"
definition PIC1_DATA :: u16 where "PIC1_DATA = 0x21"
definition PIC2_COMMAND :: u16 where "PIC2_COMMAND = 0xA0"
definition PIC2_DATA :: u16 where "PIC2_DATA = 0xA1"
definition PIC_EOI :: u8 where "PIC_EOI = 0x20"
definition ICW1_INIT :: u8 where "ICW1_INIT = 0x10"
definition ICW1_ICW4 :: u8 where "ICW1_ICW4 = 0x01"
definition ICW4_8086 :: u8 where "ICW4_8086 = 0x01"

lemmas idt_consts = IDT_ENTRIES_def IDT_FLAGS_INTERRUPT_def PIC1_COMMAND_def PIC1_DATA_def
  PIC2_COMMAND_def PIC2_DATA_def PIC_EOI_def ICW1_INIT_def ICW1_ICW4_def ICW4_8086_def

text \<open>\<^verbatim>\<open>struct interrupt_frame\<close>: the fields the handlers read.\<close>

record interrupt_frame =
  int_no :: u32
  err_code :: u32
  eip :: u32
  cs_sel :: u32
  eflags :: u32

section \<open>Gates and handlers\<close>

definition idt_set_gate :: "u8 \<Rightarrow> u32 \<Rightarrow> u16 \<Rightarrow> u8 \<Rightarrow> 'a idt_scheme \<Rightarrow> 'a idt_scheme" where
  "idt_set_gate num base sl fl st =
     st\<lparr>idt_tab := (idt_tab st)[unat num :=
          \<lparr>base_low = ucast (base AND 0xFFFF), sel = sl, always0 = 0, flags = fl,
           base_high = ucast (drop_bit 16 base AND 0xFFFF)\<rparr>]\<rparr>"

definition pic_remap :: "'a ports_scheme \<Rightarrow> 'a ports_scheme" where
  "pic_remap st0 =
     (let (mask1, st1) = inb PIC1_DATA st0;
          (mask2, st2) = inb PIC2_DATA st1;
          st3 = io_wait (outb PIC1_COMMAND (ICW1_INIT OR ICW1_ICW4) st2);
          st4 = io_wait (outb PIC2_COMMAND (ICW1_INIT OR ICW1_ICW4) st3);
          st5 = io_wait (outb PIC1_DATA 0x20 st4);
          st6 = io_wait (outb PIC2_DATA 0x28 st5);
          st7 = io_wait (outb PIC1_DATA 4 st6);
          st8 = io_wait (outb PIC2_DATA 2 st7);
          st9 = io_wait (outb PIC1_DATA ICW4_8086 st8);
          st10 = io_wait (outb PIC2_DATA ICW4_8086 st9)
      in outb PIC2_DATA mask2 (outb PIC1_DATA mask1 st10))"

text \<open>\<^verbatim>\<open>idt_load\<close> of \<^verbatim>\<open>isr.asm\<close> executes \<^verbatim>\<open>lidt\<close> on its argument: a processor event.\<close>

definition idt_load :: "u32 \<Rightarrow> 'a ports_scheme \<Rightarrow> 'a ports_scheme" where
  "idt_load a st = st\<lparr>trace := Lidt a # trace st\<rparr>"

text \<open>The 32 calls for the exceptions and the 16 for the interrupt lines, as loops over the stubs.\<close>

definition set_exceptions :: "'a idt_scheme \<Rightarrow> 'a idt_scheme" where
  "set_exceptions st =
     fold (\<lambda>i st. idt_set_gate (of_nat i) (isr_stub st i) 0x08 IDT_FLAGS_INTERRUPT st) [0..<32] st"

definition set_irqs :: "'a idt_scheme \<Rightarrow> 'a idt_scheme" where
  "set_irqs st =
     fold (\<lambda>i st. idt_set_gate (of_nat (32 + i)) (irq_stub st i) 0x08 IDT_FLAGS_INTERRUPT st) [0..<16] st"

definition idt_init :: "'a idt_scheme \<Rightarrow> 'a idt_scheme" where
  "idt_init st =
     (let st1 = st\<lparr>idtp_limit := of_nat (8 * IDT_ENTRIES - 1), idtp_base := idt_addr st\<rparr>;
          st2 = fold (\<lambda>i. idt_set_gate (of_nat i) 0 0 0) [0..<IDT_ENTRIES] st1;
          st3 = set_irqs (pic_remap (set_exceptions st2))
      in enable_interrupts (idt_load (idtp_addr st3) st3))"

definition irq_register_handler :: "u8 \<Rightarrow> handler \<Rightarrow> 'a idt_scheme \<Rightarrow> 'a idt_scheme" where
  "irq_register_handler irq h st =
     (if irq < 16 then st\<lparr>irq_handlers := (irq_handlers st)[unat irq := Some h]\<rparr> else st)"

definition irq_unregister_handler :: "u8 \<Rightarrow> 'a idt_scheme \<Rightarrow> 'a idt_scheme" where
  "irq_unregister_handler irq st =
     (if irq < 16 then st\<lparr>irq_handlers := (irq_handlers st)[unat irq := None]\<rparr> else st)"

section \<open>Panic and exceptions\<close>

text \<open>
  A run that ends in \<^verbatim>\<open>for (;;) hlt\<close> with interrupts off stays in its last state for good.
\<close>

datatype 's outcome = Running 's | Halted 's

definition puts :: "string \<Rightarrow> 'a vga_scheme \<Rightarrow> 'a vga_scheme" where
  "puts s st = fold vga_putchar (bytes s) st"

definition kernel_panic :: "mem \<Rightarrow> cptr \<Rightarrow> 'a vga_scheme \<Rightarrow> 'a vga_scheme outcome option" where
  "kernel_panic m message st = do {
     let st1 = vga_set_color WHITE RED st;
     st2 \<leftarrow> vga_print m (Lit ''\<newline>'') st1;
     st3 \<leftarrow> vga_print m (Lit (replicate 80 CHR ''='')) st2;
     st4 \<leftarrow> vga_print m (Lit (replicate 28 CHR '' '' @ ''KERNEL PANIC'' @ replicate 40 CHR '' '')) st3;
     st5 \<leftarrow> vga_print m (Lit (replicate 80 CHR ''='')) st4;
     st6 \<leftarrow> vga_print m (Lit ''\<newline>'') st5;
     let st7 = vga_set_color WHITE BLACK st6;
     st8 \<leftarrow> vga_print m (Lit ''Error: '') st7;
     st9 \<leftarrow> vga_print m message st8;
     st10 \<leftarrow> vga_print m (Lit ''\<newline>\<newline>System halted. Please restart your computer.\<newline>'') st9;
     Some (Halted (disable_interrupts st10))
   }"

definition exception_messages :: "string list" where
  "exception_messages = [
     ''Division By Zero'', ''Debug'', ''Non Maskable Interrupt'', ''Breakpoint'', ''Overflow'',
     ''Bound Range Exceeded'', ''Invalid Opcode'', ''Device Not Available'', ''Double Fault'',
     ''Coprocessor Segment Overrun'', ''Invalid TSS'', ''Segment Not Present'',
     ''Stack-Segment Fault'', ''General Protection Fault'', ''Page Fault'', ''Reserved'',
     ''x87 Floating-Point Exception'', ''Alignment Check'', ''Machine Check'',
     ''SIMD Floating-Point Exception'', ''Virtualization Exception'', ''Control Protection Exception'',
     ''Reserved'', ''Reserved'', ''Reserved'', ''Reserved'', ''Reserved'', ''Reserved'',
     ''Hypervisor Injection Exception'', ''VMM Communication Exception'', ''Security Exception'',
     ''Reserved'']"

definition isr_handler :: "mem \<Rightarrow> interrupt_frame \<Rightarrow> 'a vga_scheme \<Rightarrow> 'a vga_scheme outcome option" where
  "isr_handler m frame st =
     (if int_no frame < 32 then do {
        st1 \<leftarrow> vga_print m (Lit ''\<newline>\<newline>*** EXCEPTION: '') (vga_set_color WHITE RED st);
        st2 \<leftarrow> vga_print m (Lit (exception_messages ! unat (int_no frame))) st1;
        st3 \<leftarrow> vga_print m (Lit '' ***\<newline>'') st2;
        st4 \<leftarrow> vga_print m (Lit ''Error Code: '') (vga_set_color WHITE BLACK st3);
        st5 \<leftarrow> vga_print m (Lit ''\<newline>'') (vga_print_hex (err_code frame) st4);
        st6 \<leftarrow> vga_print m (Lit ''EIP: '') st5;
        st7 \<leftarrow> vga_print m (Lit '' CS: '') (vga_print_hex (eip frame) st6);
        st8 \<leftarrow> vga_print m (Lit '' EFLAGS: '') (vga_print_hex (cs_sel frame) st7);
        st9 \<leftarrow> vga_print m (Lit ''\<newline>'') (vga_print_hex (eflags frame) st8);
        kernel_panic m (Lit ''Unhandled CPU Exception'') st9
      }
      else Some (Running st))"

end
