(* ===== verification/Timer.thy ===== *)
theory Timer
  imports Idt
begin

text \<open>
  The interval timer \<^verbatim>\<open>src/src/drivers/timer.c\<close>: the tick counter, the programming of the divisor and
  the uptime. The sleeping functions wait for interrupts and are in the machine's theory. Dividing
  by a frequency of 0 traps (\<open>None\<close>).
\<close>

definition PIT_CHANNEL0_DATA :: u16 where "PIT_CHANNEL0_DATA = 0x40"
definition PIT_COMMAND :: u16 where "PIT_COMMAND = 0x43"
definition PIT_BASE_FREQUENCY :: u32 where "PIT_BASE_FREQUENCY = 1193182"

lemmas pit_consts = PIT_CHANNEL0_DATA_def PIT_COMMAND_def PIT_BASE_FREQUENCY_def

record timer = idt +
  timer_ticks :: u32
  timer_frequency :: u32

definition timer_handler :: "'a timer_scheme \<Rightarrow> 'a timer_scheme" where
  "timer_handler st = st\<lparr>timer_ticks := timer_ticks st + 1\<rparr>"

definition timer_init :: "u32 \<Rightarrow> 'a timer_scheme \<Rightarrow> 'a timer_scheme option" where
  "timer_init frequency st =
     (let st1 = st\<lparr>timer_frequency := frequency, timer_ticks := 0\<rparr>
      in if frequency = 0 then None
         else (let divisor = PIT_BASE_FREQUENCY div frequency;
                   st2 = outb PIT_COMMAND 0x36 st1;
                   st3 = outb PIT_CHANNEL0_DATA (ucast (divisor AND 0xFF)) st2;
                   st4 = outb PIT_CHANNEL0_DATA (ucast (drop_bit 8 divisor AND 0xFF)) st3
               in Some (irq_register_handler 0 Timer_handler st4)))"

definition timer_get_ticks :: "'a timer_scheme \<Rightarrow> u32" where
  "timer_get_ticks st = timer_ticks st"

definition timer_get_uptime :: "'a timer_scheme \<Rightarrow> u32 option" where
  "timer_get_uptime st =
     (if timer_frequency st = 0 then None else Some (timer_ticks st div timer_frequency st))"

end
