(* ===== verification/Keyboard.thy ===== *)
theory Keyboard
  imports Timer
begin

text \<open>
  The keyboard driver \<^verbatim>\<open>src/src/drivers/keyboard.c\<close>: decoding of scan codes in the interrupt handler
  and the ring buffer between the handler and the program. The blocking calls wait for interrupts
  and are in the machine's theory.
\<close>

section \<open>State and tables\<close>

definition KEYBOARD_DATA_PORT :: u16 where "KEYBOARD_DATA_PORT = 0x60"
definition KEYBOARD_BUFFER_SIZE :: u32 where "KEYBOARD_BUFFER_SIZE = 256"
definition SCANCODE_LCTRL :: u8 where "SCANCODE_LCTRL = 0x1D"
definition SCANCODE_LSHIFT :: u8 where "SCANCODE_LSHIFT = 0x2A"
definition SCANCODE_RSHIFT :: u8 where "SCANCODE_RSHIFT = 0x36"
definition SCANCODE_LALT :: u8 where "SCANCODE_LALT = 0x38"
definition SCANCODE_CAPSLOCK :: u8 where "SCANCODE_CAPSLOCK = 0x3A"
definition KEY_RELEASE_FLAG :: u8 where "KEY_RELEASE_FLAG = 0x80"

lemmas scancodes = SCANCODE_LCTRL_def SCANCODE_LSHIFT_def SCANCODE_RSHIFT_def SCANCODE_LALT_def
  SCANCODE_CAPSLOCK_def KEY_RELEASE_FLAG_def

record kbd = timer +
  keyboard_buffer :: "u8 list"
  buffer_start :: u32
  buffer_end :: u32
  shift_pressed :: bool
  ctrl_pressed :: bool
  alt_pressed :: bool
  capslock_on :: bool

definition scancode_to_ascii :: "u8 list" where
  "scancode_to_ascii =
     [0, 27] @ bytes ''1234567890-='' @ [8] @
     [9] @ bytes ''qwertyuiop[]'' @ [10] @
     [0] @ bytes ''asdfghjkl;'' @ [39, 96] @
     [0, 92] @ bytes ''zxcvbnm,./'' @ [0] @
     bytes ''*'' @ [0] @ bytes '' '' @ [0]"

definition scancode_to_ascii_shift :: "u8 list" where
  "scancode_to_ascii_shift =
     [0, 27] @ bytes ''!@#$%^&*()_+'' @ [8] @
     [9] @ bytes ''QWERTYUIOP{}'' @ [10] @
     [0] @ bytes ''ASDFGHJKL:'' @ [34] @ bytes ''~'' @
     [0] @ bytes ''|ZXCVBNM<>?'' @ [0] @
     bytes ''*'' @ [0] @ bytes '' '' @ [0]"

section \<open>The interrupt handler\<close>

definition buffer_put :: "u8 \<Rightarrow> 'a kbd_scheme \<Rightarrow> 'a kbd_scheme" where
  "buffer_put c st =
     (let nxt = (buffer_end st + 1) mod KEYBOARD_BUFFER_SIZE
      in if nxt \<noteq> buffer_start st
         then st\<lparr>keyboard_buffer := (keyboard_buffer st)[unat (buffer_end st) := c], buffer_end := nxt\<rparr>
         else st)"

text \<open>
  The character of a pressed key: the shift state, inverted by caps lock on the three rows of
  letters, selects the table; Ctrl turns a letter into a control character.
\<close>

definition key_char :: "u8 \<Rightarrow> 'a kbd_scheme \<Rightarrow> u8" where
  "key_char scancode st =
     (let use_shift =
            (if 0x10 \<le> scancode \<and> scancode \<le> 0x19 then shift_pressed st \<noteq> capslock_on st
             else if 0x1E \<le> scancode \<and> scancode \<le> 0x26 then shift_pressed st \<noteq> capslock_on st
             else if 0x2C \<le> scancode \<and> scancode \<le> 0x32 then shift_pressed st \<noteq> capslock_on st
             else shift_pressed st);
          c = (if use_shift then scancode_to_ascii_shift ! unat scancode else scancode_to_ascii ! unat scancode)
      in if ctrl_pressed st \<and> 97 \<le> c \<and> c \<le> 122 then c - 97 + 1
         else if ctrl_pressed st \<and> 65 \<le> c \<and> c \<le> 90 then c - 65 + 1
         else c)"

text \<open>The handler after the scan code has been read.\<close>

definition keyboard_key :: "u8 \<Rightarrow> 'a kbd_scheme \<Rightarrow> 'a kbd_scheme" where
  "keyboard_key code st =
     (let released = (code AND KEY_RELEASE_FLAG \<noteq> 0); scancode = code AND NOT KEY_RELEASE_FLAG
      in if scancode = SCANCODE_LSHIFT \<or> scancode = SCANCODE_RSHIFT then st\<lparr>shift_pressed := \<not> released\<rparr>
         else if scancode = SCANCODE_LCTRL then st\<lparr>ctrl_pressed := \<not> released\<rparr>
         else if scancode = SCANCODE_LALT then st\<lparr>alt_pressed := \<not> released\<rparr>
         else if scancode = SCANCODE_CAPSLOCK then
           (if \<not> released then st\<lparr>capslock_on := \<not> capslock_on st\<rparr> else st)
         else if released then st
         else if unat scancode < length scancode_to_ascii then
           (let c = key_char scancode st in if c \<noteq> 0 then buffer_put c st else st)
         else st)"

definition keyboard_handler :: "'a kbd_scheme \<Rightarrow> 'a kbd_scheme" where
  "keyboard_handler st = (let (scancode, st1) = inb KEYBOARD_DATA_PORT st in keyboard_key scancode st1)"

section \<open>The program's side\<close>

definition keyboard_init :: "'a kbd_scheme \<Rightarrow> 'a kbd_scheme" where
  "keyboard_init st = irq_register_handler 1 Keyboard_handler (st\<lparr>buffer_start := 0, buffer_end := 0\<rparr>)"

definition keyboard_has_key :: "'a kbd_scheme \<Rightarrow> bool" where
  "keyboard_has_key st \<longleftrightarrow> buffer_start st \<noteq> buffer_end st"

text \<open>The last three lines of both \<^verbatim>\<open>keyboard_getchar\<close> and \<^verbatim>\<open>keyboard_getchar_nonblock\<close>.\<close>

definition buffer_take :: "'a kbd_scheme \<Rightarrow> u8 \<times> 'a kbd_scheme" where
  "buffer_take st =
     (let c = keyboard_buffer st ! unat (buffer_start st)
      in (c, st\<lparr>buffer_start := (buffer_start st + 1) mod KEYBOARD_BUFFER_SIZE\<rparr>))"

definition keyboard_getchar_nonblock :: "'a kbd_scheme \<Rightarrow> u8 \<times> 'a kbd_scheme" where
  "keyboard_getchar_nonblock st = (if \<not> keyboard_has_key st then (0, st) else buffer_take st)"

definition keyboard_shift_pressed :: "'a kbd_scheme \<Rightarrow> bool" where
  "keyboard_shift_pressed st = shift_pressed st"
definition keyboard_ctrl_pressed :: "'a kbd_scheme \<Rightarrow> bool" where
  "keyboard_ctrl_pressed st = ctrl_pressed st"
definition keyboard_alt_pressed :: "'a kbd_scheme \<Rightarrow> bool" where
  "keyboard_alt_pressed st = alt_pressed st"

end
