(* ===== verification/Key_Queue.thy ===== *)
theory Key_Queue
  imports Prelude
begin

text \<open>
  The contract of a bounded first-in first-out buffer of characters, as its producer and its
  consumer see it, and what follows for bursts of characters and for draining the buffer.
\<close>

primrec drain :: "('s \<Rightarrow> 'c \<times> 's) \<Rightarrow> nat \<Rightarrow> 's \<Rightarrow> 'c list \<times> 's" where
  "drain get 0 s = ([], s)"
| "drain get (Suc n) s = (let (c, s1) = get s; (cs, s2) = drain get n s1 in (c # cs, s2))"

locale char_queue =
  fixes put :: "'c \<Rightarrow> 's \<Rightarrow> 's"
    and get :: "'s \<Rightarrow> 'c \<times> 's"
    and has :: "'s \<Rightarrow> bool"
    and ok :: "'s \<Rightarrow> bool"
    and contents :: "'s \<Rightarrow> 'c list"
    and capacity :: nat
  assumes put_ok: "ok s \<Longrightarrow> ok (put c s)"
    and put_contents: "ok s \<Longrightarrow>
      contents (put c s) = (if length (contents s) < capacity then contents s @ [c] else contents s)"
    and get_ok: "ok s \<Longrightarrow> contents s \<noteq> [] \<Longrightarrow> ok (snd (get s))"
    and get_contents: "ok s \<Longrightarrow> contents s = c # cs \<Longrightarrow> fst (get s) = c \<and> contents (snd (get s)) = cs"
    and has_contents: "ok s \<Longrightarrow> has s \<longleftrightarrow> contents s \<noteq> []"
    and bounded: "ok s \<Longrightarrow> length (contents s) \<le> capacity"
begin

lemma burst_ok: "ok s \<Longrightarrow> ok (fold put cs s)"
  by (induction cs arbitrary: s) (simp_all add: put_ok)

text \<open>A burst is kept up to the capacity; what does not fit is dropped, the oldest survive.\<close>

lemma burst_contents: "ok s \<Longrightarrow> contents (fold put cs s) = take capacity (contents s @ cs)"
proof (induction cs arbitrary: s)
  case Nil
  then show ?case by (simp add: bounded)
next
  case (Cons c cs)
  have "contents (fold put (c # cs) s) = take capacity (contents (put c s) @ cs)"
    using Cons.IH [OF put_ok [OF Cons.prems]] by simp
  also have "\<dots> = take capacity (contents s @ c # cs)"
    using bounded [OF Cons.prems] by (auto simp: put_contents [OF Cons.prems] take_Cons' Suc_diff_Suc)
  finally show ?case .
qed

lemma drain_contents:
  "ok s \<Longrightarrow> n \<le> length (contents s) \<Longrightarrow>
    fst (drain get n s) = take n (contents s) \<and> contents (snd (drain get n s)) = drop n (contents s)
      \<and> ok (snd (drain get n s))"
proof (induction n arbitrary: s)
  case (Suc n)
  then obtain c cs where c: "contents s = c # cs" by (cases "contents s") auto
  have g: "fst (get s) = c" "contents (snd (get s)) = cs" "ok (snd (get s))"
    using get_contents [OF Suc.prems(1) c] get_ok [OF Suc.prems(1)] c by simp_all
  then have "n \<le> length (contents (snd (get s)))" using Suc.prems(2) c by simp
  from Suc.IH [OF g(3) this] g c show ?case by (simp add: case_prod_beta Let_def)
qed simp

lemma burst_drain:
  "ok s \<Longrightarrow> contents s = [] \<Longrightarrow> n \<le> length cs \<Longrightarrow> n \<le> capacity \<Longrightarrow>
    fst (drain get n (fold put cs s)) = take n cs \<and> contents (snd (drain get n (fold put cs s))) = drop n (take capacity cs)"
  using drain_contents [OF burst_ok, of s n cs] burst_contents [of s cs] by (simp add: min_def)

end

end
