(* ===== verification/Keyboard_Props.thy ===== *)
theory Keyboard_Props
  imports Keyboard Key_Queue
begin

text \<open>
  The keyboard driver against its specifications: the ring buffer is a bounded queue, the scan
  codes decode as on a US keyboard, and no interleaving of the interrupt handler with the program
  loses, repeats or reorders an accepted key.
\<close>

section \<open>The ring as a queue\<close>

definition ring_ok :: "'a kbd_scheme \<Rightarrow> bool" where
  "ring_ok st \<longleftrightarrow> length (keyboard_buffer st) = 256 \<and> unat (buffer_start st) < 256 \<and> unat (buffer_end st) < 256"

definition ring_len :: "'a kbd_scheme \<Rightarrow> nat" where
  "ring_len st = (256 + unat (buffer_end st) - unat (buffer_start st)) mod 256"

definition queue :: "'a kbd_scheme \<Rightarrow> u8 list" where
  "queue st = map (\<lambda>i. keyboard_buffer st ! ((unat (buffer_start st) + i) mod 256)) [0..<ring_len st]"

lemma length_queue [simp]: "length (queue st) = ring_len st"
  by (simp add: queue_def)

lemma ring_len_lt: "ring_len st < 256"
  by (simp add: ring_len_def)

text \<open>The successor of an index, as a word and as a number.\<close>

lemma unat_next: "unat i < 256 \<Longrightarrow> unat ((i + 1) mod KEYBOARD_BUFFER_SIZE) = (unat i + 1) mod 256"
  by (simp add: KEYBOARD_BUFFER_SIZE_def unat_mod unat_Suc_no_wrap)

lemma mod256_add: "s < 256 \<Longrightarrow> i < 256 \<Longrightarrow> (s + i) mod 256 = (if s + i < 256 then s + i else s + i - 256)" for s :: nat
  by (simp add: mod_if)

lemma ring_len_cases:
  assumes "ring_ok st"
  shows "ring_len st = (if unat (buffer_start st) \<le> unat (buffer_end st)
    then unat (buffer_end st) - unat (buffer_start st) else 256 + unat (buffer_end st) - unat (buffer_start st))"
  using assms by (auto simp: ring_len_def ring_ok_def mod_if)

lemma ring_full: "ring_ok st \<Longrightarrow> (buffer_end st + 1) mod KEYBOARD_BUFFER_SIZE \<noteq> buffer_start st \<longleftrightarrow> ring_len st < 255"
  by (subst ring_len_cases) (auto simp: u32_eq_unat unat_next ring_ok_def mod_if)

lemma has_key_queue: "ring_ok st \<Longrightarrow> keyboard_has_key st \<longleftrightarrow> queue st \<noteq> []"
  by (simp flip: length_0_conv add: ring_len_cases keyboard_has_key_def u32_eq_unat ring_ok_def) arith

lemma buffer_put_ok: "ring_ok st \<Longrightarrow> ring_ok (buffer_put c st)"
  by (auto simp: ring_ok_def buffer_put_def Let_def unat_next)

lemma buffer_put_queue:
  assumes "ring_ok st"
  shows "queue (buffer_put c st) = (if length (queue st) < 255 then queue st @ [c] else queue st)"
proof (cases "ring_len st < 255")
  case False
  then show ?thesis using ring_full [OF assms] by (simp add: buffer_put_def Let_def)
next
  case True
  let ?s = "unat (buffer_start st)" and ?e = "unat (buffer_end st)"
  define st' where "st' = buffer_put c st"
  have st': "st' = st\<lparr>keyboard_buffer := (keyboard_buffer st)[?e := c], buffer_end := (buffer_end st + 1) mod KEYBOARD_BUFFER_SIZE\<rparr>"
    using True ring_full [OF assms] by (simp add: st'_def buffer_put_def Let_def)
  have b: "?s < 256" "?e < 256" "length (keyboard_buffer st) = 256" using assms by (simp_all add: ring_ok_def)
  have len: "ring_len st' = ring_len st + 1"
    using True b ring_len_cases [OF assms] ring_len_cases [OF buffer_put_ok [OF assms, of c]]
    unfolding st'_def [symmetric] by (auto simp: st' unat_next mod_if split: if_splits)
  have old: "?e \<noteq> (?s + i) mod 256" if "i < ring_len st" for i
    using that True b ring_len_cases [OF assms] by (auto simp: mod256_add split: if_splits)
  have new: "(?s + ring_len st) mod 256 = ?e"
    using True b ring_len_cases [OF assms] by (auto simp: mod256_add split: if_splits)
  show ?thesis unfolding st'_def [symmetric] using True old new b
    by (simp add: queue_def len) (auto simp: st')
qed

lemma buffer_take_ok: "ring_ok st \<Longrightarrow> ring_ok (snd (buffer_take st))"
  by (auto simp: ring_ok_def buffer_take_def Let_def unat_next)

lemma buffer_take_queue:
  assumes "ring_ok st" "queue st = c # cs"
  shows "fst (buffer_take st) = c \<and> queue (snd (buffer_take st)) = cs"
proof -
  let ?s = "unat (buffer_start st)"
  define st' where "st' = snd (buffer_take st)"
  have st': "st' = st\<lparr>buffer_start := (buffer_start st + 1) mod KEYBOARD_BUFFER_SIZE\<rparr>"
    by (simp add: st'_def buffer_take_def Let_def)
  have b: "?s < 256" "unat (buffer_end st) < 256" using assms by (simp_all add: ring_ok_def)
  have "ring_len st = Suc (length cs)" using arg_cong [OF assms(2), of length] by simp
  then have q: "c # cs = map (\<lambda>i. keyboard_buffer st ! ((?s + i) mod 256)) (0 # map Suc [0..<length cs])"
    using assms(2) by (simp add: queue_def map_Suc_upt upt_conv_Cons del: upt_Suc)
  have "ring_len st' = length cs"
    using b \<open>ring_len st = Suc (length cs)\<close> ring_len_cases [OF assms(1)] ring_len_cases [OF buffer_take_ok [OF assms(1)]]
    unfolding st'_def [symmetric] by (auto simp: st' unat_next mod_if ring_ok_def split: if_splits)
  moreover have "((?s + 1) mod 256 + i) mod 256 = (?s + Suc i) mod 256" for i by (simp add: mod_simps)
  ultimately have "queue st' = cs" using q by (simp add: queue_def st' unat_next [OF b(1)] o_def)
  then show ?thesis using q b unfolding st'_def by (simp add: buffer_take_def Let_def)
qed

lemma getchar_nonblock_queue:
  assumes "ring_ok st"
  shows "keyboard_getchar_nonblock st = (if queue st = [] then (0, st) else buffer_take st)"
  using has_key_queue [OF assms] by (simp add: keyboard_getchar_nonblock_def)

interpretation keys: char_queue buffer_put keyboard_getchar_nonblock keyboard_has_key ring_ok queue 255
proof unfold_locales
  fix st :: "'a kbd_scheme" and c cs
  assume ok: "ring_ok st"
  show "ring_ok (buffer_put c st)" by (rule buffer_put_ok [OF ok])
  show "queue (buffer_put c st) = (if length (queue st) < 255 then queue st @ [c] else queue st)"
    by (rule buffer_put_queue [OF ok])
  show "keyboard_has_key st \<longleftrightarrow> queue st \<noteq> []" by (rule has_key_queue [OF ok])
  show "length (queue st) \<le> 255" using ring_len_lt [of st] by simp
  show "ring_ok (snd (keyboard_getchar_nonblock st))" if "queue st \<noteq> []"
    using that buffer_take_ok [OF ok] by (simp add: getchar_nonblock_queue [OF ok])
  show "fst (keyboard_getchar_nonblock st) = c \<and> queue (snd (keyboard_getchar_nonblock st)) = cs" if "queue st = c # cs"
    using that buffer_take_queue [OF ok that] by (simp add: getchar_nonblock_queue [OF ok])
qed

section \<open>Decoding\<close>

text \<open>
  A US keyboard, written down without the driver's tables: the three rows of letters with the scan
  code of their first key, the keys with two symbols on their cap (plain and with Shift; 40, 41 and
  43 are the quotes, the backquote and tilde, the backslash and bar) and the keys with one character
  (Escape, Backspace, Tab, Enter, the keypad's asterisk, the space bar). On a letter key, Ctrl gives
  the control character, else Shift and Caps Lock together choose the case; on every other key Shift
  alone chooses the symbol.
\<close>

definition is_letter :: "u8 \<Rightarrow> bool" where
  "is_letter c \<longleftrightarrow> 97 \<le> c \<and> c \<le> 122"

definition us_letters :: "(nat \<times> u8) list" where
  "us_letters = zip [16..<26] (bytes ''qwertyuiop'') @ zip [30..<39] (bytes ''asdfghjkl'') @ zip [44..<51] (bytes ''zxcvbnm'')"

definition us_symbols :: "(nat \<times> u8 \<times> u8) list" where
  "us_symbols = map (\<lambda>(k, s). (k, bytes s ! 0, bytes s ! 1))
     [(2, ''1!''), (3, ''2@''), (4, ''3#''), (5, ''4$''), (6, ''5%''), (7, ''6^''), (8, ''7&''), (9, ''8*''),
      (10, ''9(''), (11, ''0)''), (12, ''-_''), (13, ''=+''), (26, ''[{''), (27, '']}''), (39, '';:''),
      (51, '',<''), (52, ''.>''), (53, ''/?'')]
     @ [(40, 39, 34), (41, 96, 126), (43, 92, 124)]"

definition us_specials :: "(nat \<times> u8) list" where
  "us_specials = [(1, 27), (14, 8), (15, 9), (28, 10), (55, 42), (57, 32)]"

text \<open>The two characters on the cap of a key: plain and with Shift.\<close>

definition us_cap :: "nat \<Rightarrow> u8 \<times> u8" where
  "us_cap k = (case map_of us_letters k of Some l \<Rightarrow> (l, l - 32)
     | None \<Rightarrow> (case map_of us_symbols k of Some ab \<Rightarrow> ab
     | None \<Rightarrow> (case map_of us_specials k of Some c \<Rightarrow> (c, c) | None \<Rightarrow> (0, 0))))"

definition us_key :: "nat \<Rightarrow> bool \<Rightarrow> bool \<Rightarrow> bool \<Rightarrow> u8" where
  "us_key k shift caps ctrl =
     (let (p, q) = us_cap k
      in if is_letter p then (if ctrl then p - 96 else if shift \<noteq> caps then q else p)
         else if shift then q else p)"

lemma us_key_a: "us_key 30 False False False = 97"
  by (simp add: us_key_def us_cap_def us_letters_def us_symbols_def is_letter_def upt_rec)

text \<open>The code's selection, on the number of the key.\<close>

definition key_sel :: "nat \<Rightarrow> bool \<Rightarrow> bool \<Rightarrow> bool \<Rightarrow> u8" where
  "key_sel k shift caps ctrl =
     (let use_shift = (if 0x10 \<le> k \<and> k \<le> 0x19 then shift \<noteq> caps else if 0x1E \<le> k \<and> k \<le> 0x26 then shift \<noteq> caps
            else if 0x2C \<le> k \<and> k \<le> 0x32 then shift \<noteq> caps else shift);
          c = (if use_shift then scancode_to_ascii_shift ! k else scancode_to_ascii ! k)
      in if ctrl \<and> 97 \<le> c \<and> c \<le> 122 then c - 97 + 1 else if ctrl \<and> 65 \<le> c \<and> c \<le> 90 then c - 65 + 1 else c)"

lemma key_char_sel: "key_char sc st = key_sel (unat sc) (shift_pressed st) (capslock_on st) (ctrl_pressed st)"
  unfolding key_char_def key_sel_def by (simp only: word_le_nat_alt unat_numeral) simp

lemma length_scancode_to_ascii: "length scancode_to_ascii = 59"
  by (simp add: scancode_to_ascii_def)

lemma length_scancode_to_ascii_shift: "length scancode_to_ascii_shift = 59"
  by (simp add: scancode_to_ascii_shift_def)

text \<open>
  What the two tables have to satisfy: the three ranges of scan codes are exactly the letters, the
  shifted table holds their capitals, and no other key has a letter in either table.
\<close>

definition letter_range :: "nat \<Rightarrow> bool" where
  "letter_range k \<longleftrightarrow> 0x10 \<le> k \<and> k \<le> 0x19 \<or> 0x1E \<le> k \<and> k \<le> 0x26 \<or> 0x2C \<le> k \<and> k \<le> 0x32"

definition key_row_ok :: "nat \<times> u8 \<times> u8 \<Rightarrow> bool" where
  "key_row_ok = (\<lambda>(k, a, b). letter_range k = is_letter a
     \<and> (if is_letter a then b = a - 32 \<and> 65 \<le> b \<and> b \<le> 90
        else \<not> is_letter b \<and> \<not> (65 \<le> a \<and> a \<le> 90) \<and> \<not> (65 \<le> b \<and> b \<le> 90)))"

lemma key_rows_ok: "list_all key_row_ok (zip [0..<59] (zip scancode_to_ascii scancode_to_ascii_shift))"
  by (simp add: scancode_to_ascii_def scancode_to_ascii_shift_def upt_rec [of _ "Suc _"] upt_rec key_row_ok_def letter_range_def is_letter_def)

lemma key_row: "k < 59 \<Longrightarrow> key_row_ok (k, scancode_to_ascii ! k, scancode_to_ascii_shift ! k)"
  using key_rows_ok
  by (simp add: list_all_length length_scancode_to_ascii length_scancode_to_ascii_shift)

text \<open>The driver's tables carry the characters of the keyboard.\<close>

lemma tables_us: "map us_cap [0..<59] = zip scancode_to_ascii scancode_to_ascii_shift"
  by (simp add: us_cap_def us_letters_def us_symbols_def us_specials_def scancode_to_ascii_def
      scancode_to_ascii_shift_def upt_rec [of _ "Suc _"] upt_rec)

lemma us_cap_table: "k < 59 \<Longrightarrow> us_cap k = (scancode_to_ascii ! k, scancode_to_ascii_shift ! k)"
  using arg_cong [OF tables_us, of "\<lambda>xs. xs ! k"]
  by (simp add: length_scancode_to_ascii length_scancode_to_ascii_shift)

lemma key_sel_us:
  assumes "k < 59"
  shows "key_sel k shift caps ctrl = us_key k shift caps ctrl"
proof -
  define a b where "a = scancode_to_ascii ! k" and "b = scancode_to_ascii_shift ! k"
  have cap: "us_cap k = (a, b)" unfolding a_def b_def by (rule us_cap_table [OF assms])
  have row: "key_row_ok (k, a, b)" unfolding a_def b_def by (rule key_row [OF assms])
  define use where "use = (if letter_range k then shift \<noteq> caps else shift)"
  have sel: "key_sel k shift caps ctrl = (let c = if use then b else a
      in if ctrl \<and> 97 \<le> c \<and> c \<le> 122 then c - 97 + 1 else if ctrl \<and> 65 \<le> c \<and> c \<le> 90 then c - 65 + 1 else c)"
  proof -
    have u: "(if 0x10 \<le> k \<and> k \<le> 0x19 then shift \<noteq> caps else if 0x1E \<le> k \<and> k \<le> 0x26 then shift \<noteq> caps
        else if 0x2C \<le> k \<and> k \<le> 0x32 then shift \<noteq> caps else shift) = use"
      by (simp add: use_def letter_range_def)
    show ?thesis by (simp only: key_sel_def Let_def u a_def b_def)
  qed
  have upper: "65 \<le> c \<and> c \<le> 90 \<Longrightarrow> \<not> (97 \<le> c \<and> c \<le> 122)" for c :: u8
    by (auto simp: word_le_nat_alt)
  show ?thesis
  proof (cases "is_letter a")
    case True
    have "letter_range k = is_letter a \<and> b = a - 32 \<and> 65 \<le> b \<and> b \<le> 90"
      using row unfolding key_row_ok_def case_prod_conv if_P [OF True] .
    with True have b: "b = a - 32" "65 \<le> b \<and> b \<le> 90" and l: "letter_range k" by blast+
    have "\<not> (97 \<le> b \<and> b \<le> 122)" by (rule upper [OF b(2)])
    moreover have "us_key k shift caps ctrl = (if ctrl then a - 96 else if shift \<noteq> caps then a - 32 else a)"
      using True b by (simp add: us_key_def cap)
    moreover have "97 \<le> a \<and> a \<le> 122" using True by (simp add: is_letter_def)
    moreover have "b - 65 + 1 = a - 96" "a - 97 + 1 = a - 96" using b(1) by simp_all
    ultimately show ?thesis using b(2) l by (auto simp: sel use_def Let_def b(1) [symmetric])
  next
    case False
    have "letter_range k = is_letter a \<and> \<not> is_letter b \<and> \<not> (65 \<le> a \<and> a \<le> 90) \<and> \<not> (65 \<le> b \<and> b \<le> 90)"
      using row unfolding key_row_ok_def case_prod_conv if_not_P [OF False] .
    moreover have "us_key k shift caps ctrl = (if shift then b else a)"
      using False by (simp add: us_key_def cap)
    ultimately show ?thesis using False unfolding is_letter_def by (auto simp: sel use_def Let_def)
  qed
qed

text \<open>The scan codes of the modifier keys on a US keyboard: left Ctrl, left and right Shift, left Alt, Caps Lock.\<close>

definition modifier_keys :: "u8 set" where
  "modifier_keys = {0x1D, 0x2A, 0x36, 0x38, 0x3A}"

text \<open>The character a scan code stands for in a state: none for a release, a modifier or a key without one.\<close>

definition typed_char :: "u8 \<Rightarrow> 'a kbd_scheme \<Rightarrow> u8 option" where
  "typed_char code st =
     (let ch = us_key (unat code) (shift_pressed st) (capslock_on st) (ctrl_pressed st)
      in if code < 59 \<and> code \<notin> modifier_keys \<and> ch \<noteq> 0 then Some ch else None)"

definition same_keys :: "'a kbd_scheme \<Rightarrow> 'a kbd_scheme \<Rightarrow> bool" where
  "same_keys st st' \<longleftrightarrow> keyboard_buffer st' = keyboard_buffer st \<and> buffer_start st' = buffer_start st
     \<and> buffer_end st' = buffer_end st"

lemma same_keys_queue: "same_keys st st' \<Longrightarrow> queue st' = queue st \<and> ring_ok st' = ring_ok st"
  by (simp add: same_keys_def queue_def ring_len_def ring_ok_def)

lemma release_bit: "(code :: u8) AND 0x80 = 0 \<longleftrightarrow> code < 128"
proof -
  have "code AND 0x80 = push_bit 7 1 AND code" by (simp add: and.commute)
  then have "code AND 0x80 \<noteq> 0 \<longleftrightarrow> bit code 7" by (simp only: bit_iff_and_push_bit_not_eq_0 and.commute)
  also have "\<dots> \<longleftrightarrow> \<not> code < 128"
  proof -
    have "unat code div 128 = (if unat code < 128 then 0 else 1)" using unat_u8_lt [of code] by (simp add: div_eq_dividend_iff) arith
    then show ?thesis by (simp add: bit_iff_odd word_less_nat_alt word_arith_nat_div unat_word_ariths odd_iff_mod_2_eq_one)
  qed
  finally show ?thesis by blast
qed

lemma low_bits: "(code :: u8) < 128 \<Longrightarrow> code AND NOT 0x80 = code"
proof -
  assume "code < 128"
  then have "code AND 0x80 = 0" by (simp only: release_bit)
  moreover have "(code AND NOT 0x80) OR (code AND 0x80) = code" by (simp flip: bit.conj_disj_distrib)
  ultimately show ?thesis by simp
qed

text \<open>The modifier flags after a scan code.\<close>

definition mods_after :: "u8 \<Rightarrow> 'a kbd_scheme \<Rightarrow> 'a kbd_scheme" where
  "mods_after code st =
     (let k = code AND NOT KEY_RELEASE_FLAG; down = code < 128
      in st\<lparr>shift_pressed := (if k \<in> {0x2A, 0x36} then down else shift_pressed st),
            ctrl_pressed := (if k = 0x1D then down else ctrl_pressed st),
            alt_pressed := (if k = 0x38 then down else alt_pressed st),
            capslock_on := (capslock_on st \<noteq> (k = 0x3A \<and> down))\<rparr>)"

text \<open>The driver's constants are these codes.\<close>

lemma modifier_codes: "modifier_keys = {SCANCODE_LCTRL, SCANCODE_LSHIFT, SCANCODE_RSHIFT, SCANCODE_LALT, SCANCODE_CAPSLOCK}"
  by (simp add: modifier_keys_def scancodes)

lemma mods_after_codes:
  "mods_after code st =
     (let k = code AND NOT KEY_RELEASE_FLAG; down = code < 128
      in st\<lparr>shift_pressed := (if k \<in> {SCANCODE_LSHIFT, SCANCODE_RSHIFT} then down else shift_pressed st),
            ctrl_pressed := (if k = SCANCODE_LCTRL then down else ctrl_pressed st),
            alt_pressed := (if k = SCANCODE_LALT then down else alt_pressed st),
            capslock_on := (capslock_on st \<noteq> (k = SCANCODE_CAPSLOCK \<and> down))\<rparr>)"
  by (simp add: mods_after_def scancodes)

lemma mods_after_id: "code AND NOT KEY_RELEASE_FLAG \<notin> modifier_keys \<Longrightarrow> mods_after code st = st"
  by (simp add: mods_after_def modifier_keys_def)

lemma mods_after_same: "same_keys st (mods_after code st)"
  by (simp add: mods_after_def same_keys_def Let_def)

lemma keyboard_key_decodes:
  "keyboard_key code st = (case typed_char code st of Some c \<Rightarrow> buffer_put c st | None \<Rightarrow> mods_after code st)"
proof -
  define k where "k = code AND NOT KEY_RELEASE_FLAG"
  have rel: "code AND KEY_RELEASE_FLAG \<noteq> 0 \<longleftrightarrow> \<not> code < 128" by (simp add: KEY_RELEASE_FLAG_def release_bit)
  show ?thesis
  proof (cases "k \<in> modifier_keys")
    case True
    then have "typed_char code st = None"
      using low_bits [of code] by (auto simp: typed_char_def k_def KEY_RELEASE_FLAG_def Let_def word_less_nat_alt)
    moreover have "keyboard_key code st = mods_after code st"
      using True unfolding keyboard_key_def mods_after_codes k_def [symmetric] Let_def rel
      by (auto simp: modifier_codes scancodes)
    ultimately show ?thesis by simp
  next
    case False
    then have m: "mods_after code st = st" unfolding k_def by (rule mods_after_id)
    have key: "keyboard_key code st = (if code < 128 \<and> unat k < 59 \<and> key_char k st \<noteq> 0 then buffer_put (key_char k st) st else st)"
      using False unfolding keyboard_key_def k_def [symmetric] Let_def rel
      by (simp add: modifier_codes length_scancode_to_ascii)
    show ?thesis
    proof (cases "code < 59")
      case True
      then have c: "code < 128" "k = code" "unat code < 59"
        using low_bits [of code] by (simp_all add: word_less_nat_alt k_def KEY_RELEASE_FLAG_def)
      then have "key_char k st = us_key (unat code) (shift_pressed st) (capslock_on st) (ctrl_pressed st)"
        by (simp add: key_char_sel key_sel_us)
      with c True False show ?thesis by (simp add: key m typed_char_def Let_def)
    next
      case c: False
      then have "\<not> (code < 128 \<and> unat k < 59)"
        using low_bits [of code] by (auto simp: k_def KEY_RELEASE_FLAG_def word_less_nat_alt)
      with c show ?thesis by (auto simp: key m typed_char_def)
    qed
  qed
qed

section \<open>The handler interleaved with the program\<close>

text \<open>
  \<^verbatim>\<open>keyboard_getchar\<close> is four steps on shared data: it finds a key, reads it, computes the next
  index and stores it. The interrupt handler may run between any two of them (never inside itself:
  interrupt gates close the interrupt flag). \<open>sent\<close> and \<open>got\<close> are the characters the handler has
  accepted and the program has received so far.
\<close>

datatype reader = Idle | Found | Read u8 | Next u8 u32

record session =
  dri :: kbd
  pc :: reader
  sent :: "u8 list"
  got :: "u8 list"

text \<open>What a handler run will accept: the character of the scan code on the port, if there is room.\<close>

definition accepted :: "'a kbd_scheme \<Rightarrow> u8 list" where
  "accepted k =
     (case typed_char (dev k (trace k) KEYBOARD_DATA_PORT) k of
        Some c \<Rightarrow> if length (queue k) < 255 then [c] else []
      | None \<Rightarrow> [])"

inductive key_step :: "session \<Rightarrow> session \<Rightarrow> bool" where
  irq: "key_step s (s\<lparr>dri := keyboard_handler (dri s), sent := sent s @ accepted (dri s)\<rparr>)"
| tick: "key_step s (s\<lparr>dri := timer_handler (dri s)\<rparr>)"
| find: "pc s = Idle \<Longrightarrow> keyboard_has_key (dri s) \<Longrightarrow> key_step s (s\<lparr>pc := Found\<rparr>)"
| read: "pc s = Found \<Longrightarrow>
    key_step s (s\<lparr>pc := Read (keyboard_buffer (dri s) ! unat (buffer_start (dri s)))\<rparr>)"
| index: "pc s = Read c \<Longrightarrow> key_step s (s\<lparr>pc := Next c ((buffer_start (dri s) + 1) mod KEYBOARD_BUFFER_SIZE)\<rparr>)"
| store: "pc s = Next c i \<Longrightarrow>
    key_step s (s\<lparr>dri := (dri s)\<lparr>buffer_start := i\<rparr>, pc := Idle, got := got s @ [c]\<rparr>)"

inductive_cases key_stepE [consumes 1, case_names irq tick find read index store]: "key_step s s'"

text \<open>Without interrupts in between, the four steps are the code's function.\<close>

lemma reader_is_getchar:
  assumes "pc s = Idle" "keyboard_has_key (dri s)"
  shows "key_step\<^sup>*\<^sup>* s (s\<lparr>dri := snd (keyboard_getchar_nonblock (dri s)), pc := Idle, got := got s @ [fst (keyboard_getchar_nonblock (dri s))]\<rparr>)"
proof -
  let ?c = "keyboard_buffer (dri s) ! unat (buffer_start (dri s))"
  let ?i = "(buffer_start (dri s) + 1) mod KEYBOARD_BUFFER_SIZE"
  have "key_step s (s\<lparr>pc := Found\<rparr>)" by (rule find [OF assms])
  moreover have "key_step (s\<lparr>pc := Found\<rparr>) (s\<lparr>pc := Read ?c\<rparr>)" using read [of "s\<lparr>pc := Found\<rparr>"] by simp
  moreover have "key_step (s\<lparr>pc := Read ?c\<rparr>) (s\<lparr>pc := Next ?c ?i\<rparr>)" using index [of "s\<lparr>pc := Read ?c\<rparr>"] by simp
  moreover have "key_step (s\<lparr>pc := Next ?c ?i\<rparr>) (s\<lparr>dri := (dri s)\<lparr>buffer_start := ?i\<rparr>, pc := Idle, got := got s @ [?c]\<rparr>)"
    using store [of "s\<lparr>pc := Next ?c ?i\<rparr>"] assms(1) by simp
  ultimately show ?thesis
    using assms(2) by (simp add: keyboard_getchar_nonblock_def buffer_take_def Let_def rtranclp.rtrancl_into_rtrancl)
qed

definition reader_ok :: "session \<Rightarrow> bool" where
  "reader_ok s \<longleftrightarrow>
     (case pc s of Idle \<Rightarrow> True
      | Found \<Rightarrow> queue (dri s) \<noteq> []
      | Read c \<Rightarrow> queue (dri s) \<noteq> [] \<and> hd (queue (dri s)) = c
      | Next c i \<Rightarrow> queue (dri s) \<noteq> [] \<and> hd (queue (dri s)) = c
          \<and> i = (buffer_start (dri s) + 1) mod KEYBOARD_BUFFER_SIZE)"

definition session_ok :: "session \<Rightarrow> bool" where
  "session_ok s \<longleftrightarrow> ring_ok (dri s) \<and> sent s = got s @ queue (dri s) \<and> reader_ok s"

lemma keyboard_handler_spec:
  assumes "ring_ok k"
  shows "ring_ok (keyboard_handler k)" "queue (keyboard_handler k) = queue k @ accepted k"
    "buffer_start (keyboard_handler k) = buffer_start k"
proof -
  define k1 where "k1 = snd (inb KEYBOARD_DATA_PORT k)"
  define code where "code = dev k (trace k) KEYBOARD_DATA_PORT"
  have same: "same_keys k k1" by (simp add: k1_def inb_def Let_def same_keys_def)
  have tc: "typed_char code k1 = typed_char code k" by (simp add: k1_def inb_def Let_def typed_char_def)
  have h: "keyboard_handler k = (case typed_char code k of Some c \<Rightarrow> buffer_put c k1 | None \<Rightarrow> mods_after code k1)"
    using keyboard_key_decodes [of code k1] tc by (simp add: keyboard_handler_def k1_def code_def inb_def Let_def)
  have ok: "ring_ok k1" "queue k1 = queue k" using same_keys_queue [OF same] assms by simp_all
  have start: "buffer_start (buffer_put c k1) = buffer_start k1" for c by (simp add: buffer_put_def Let_def)
  show "ring_ok (keyboard_handler k)" "queue (keyboard_handler k) = queue k @ accepted k"
    using ok same_keys_queue [OF mods_after_same, of code k1] buffer_put_queue [OF ok(1)]
    by (auto simp: h accepted_def buffer_put_ok code_def [symmetric] split: option.splits)
  show "buffer_start (keyboard_handler k) = buffer_start k"
    using same mods_after_same [of k1 code] start by (auto simp: h same_keys_def split: option.splits)
qed

lemma key_step_ok:
  assumes "session_ok s" "key_step s s'"
  shows "session_ok s'"
  using assms(2)
proof (cases rule: key_stepE)
  case irq
  have "ring_ok (dri s)" using assms(1) by (simp add: session_ok_def)
  from keyboard_handler_spec [OF this] irq assms(1) show ?thesis
    by (auto simp: session_ok_def reader_ok_def split: reader.splits)
next
  case tick
  have "same_keys (dri s) (timer_handler (dri s))" by (simp add: same_keys_def timer_handler_def)
  from same_keys_queue [OF this] this tick assms(1) show ?thesis
    by (auto simp: session_ok_def reader_ok_def same_keys_def split: reader.splits)
next
  case find
  then show ?thesis using assms(1) has_key_queue [of "dri s"] by (simp add: session_ok_def reader_ok_def)
next
  case read
  then obtain c cs where q: "ring_ok (dri s)" "queue (dri s) = c # cs"
    using assms(1) by (auto simp: session_ok_def reader_ok_def neq_Nil_conv)
  from buffer_take_queue [OF q] read assms(1) q show ?thesis
    by (simp add: session_ok_def reader_ok_def buffer_take_def Let_def)
next
  case (index c)
  then show ?thesis using assms(1) by (simp add: session_ok_def reader_ok_def)
next
  case (store c i)
  then obtain cs where q: "ring_ok (dri s)" "queue (dri s) = c # cs"
    using assms(1) by (auto simp: session_ok_def reader_ok_def neq_Nil_conv)
  from buffer_take_queue [OF q] buffer_take_ok [OF q(1)] store assms(1) q show ?thesis
    by (simp add: session_ok_def reader_ok_def buffer_take_def Let_def)
qed

section \<open>Properties of the keyboard driver\<close>

text \<open>
  C30: In every interleaving of the keyboard interrupt handler with the steps of
  \<^verbatim>\<open>keyboard_getchar\<close>, starting from \<^verbatim>\<open>keyboard_init\<close>, the characters the program has received are, in
  order, a prefix of those the handler has accepted, and the rest is in the buffer: no key is lost,
  repeated or reordered, and the indices stay in the array.
\<close>
theorem keyboard_no_lost_keys:
  assumes "length (keyboard_buffer k) = 256"
    and "key_step\<^sup>*\<^sup>* \<lparr>dri = keyboard_init k, pc = Idle, sent = [], got = []\<rparr> s"
  shows "sent s = got s @ queue (dri s) \<and> ring_ok (dri s)"
proof -
  have "session_ok s"
    using assms(2)
  proof (induction rule: rtranclp_induct)
    case base
    then show ?case using assms(1)
      by (simp add: session_ok_def reader_ok_def ring_ok_def keyboard_init_def irq_register_handler_def queue_def ring_len_def)
  next
    case (step s1 s2)
    then show ?case using key_step_ok by blast
  qed
  then show ?thesis by (simp add: session_ok_def)
qed

text \<open>A machine whose keyboard always delivers the scan code of the key A.\<close>

definition key_a_kbd :: kbd where
  "key_a_kbd = \<lparr>dev = \<lambda>_ _. 0x1E, trace = [], int_flag = True, vga_row = 0, vga_col = 0, vga_color = 7,
     vga_buffer = \<lambda>_. 0, isr_stub = \<lambda>_. 0, irq_stub = \<lambda>_. 0, idt_addr = 0, idtp_addr = 0, idt_tab = [],
     idtp_limit = 0, idtp_base = 0, irq_handlers = replicate 16 None, timer_ticks = 0, timer_frequency = 100,
     keyboard_buffer = replicate 256 0, buffer_start = 0, buffer_end = 0, shift_pressed = False,
     ctrl_pressed = False, alt_pressed = False, capslock_on = False\<rparr>"

lemma key_a_ok: "length (keyboard_buffer key_a_kbd) = 256" "ring_ok key_a_kbd" "queue key_a_kbd = []"
  by (simp_all add: key_a_kbd_def ring_ok_def queue_def ring_len_def)

lemma key_a_accepted: "accepted (keyboard_init key_a_kbd) = [97]"
proof -
  show ?thesis using us_key_a
    by (simp add: accepted_def typed_char_def keyboard_init_def irq_register_handler_def key_a_kbd_def queue_def
        ring_len_def modifier_keys_def scancodes)
qed

theorem keyboard_no_lost_keys_witness:
  "\<exists>s. key_step\<^sup>*\<^sup>* \<lparr>dri = keyboard_init key_a_kbd, pc = Idle, sent = [], got = []\<rparr> s \<and> sent s = [97]
    \<and> [97] = got s @ queue (dri s)"
proof -
  define s0 where "s0 = \<lparr>dri = keyboard_init key_a_kbd, pc = Idle, sent = [], got = []\<rparr>"
  have "key_step s0 (s0\<lparr>dri := keyboard_handler (dri s0), sent := sent s0 @ accepted (dri s0)\<rparr>)" by (rule irq)
  then have r: "key_step\<^sup>*\<^sup>* s0 (s0\<lparr>dri := keyboard_handler (dri s0), sent := sent s0 @ accepted (dri s0)\<rparr>)"
    by (rule r_into_rtranclp)
  with keyboard_no_lost_keys [OF key_a_ok(1) r [unfolded s0_def], folded s0_def]
  show ?thesis by (intro exI, intro conjI, unfold s0_def [symmetric]) (assumption, simp_all add: s0_def key_a_accepted)
qed

text \<open>
  C31: The handler decodes scan codes as a US keyboard: on a letter key Ctrl gives the control
  character and otherwise Shift and Caps Lock together choose the case, on other keys Shift alone
  chooses the symbol; the character goes into the buffer. Releases, modifiers and keys without a
  character change the modifier flags at most, each flag being the last state of its key.
\<close>
theorem keyboard_decodes:
  shows "keyboard_key code st = (case typed_char code st of Some c \<Rightarrow> buffer_put c st | None \<Rightarrow> mods_after code st)"
  by (rule keyboard_key_decodes)

text \<open>
  C32: The buffer is a queue of 255 characters: of any burst of characters put into the empty
  buffer, reading it back gives the first 255 in order, and what did not fit is dropped.
\<close>
theorem keyboard_buffer_fifo:
  assumes "ring_ok st" "queue st = []" "n \<le> length cs" "n \<le> 255"
  shows "fst (drain keyboard_getchar_nonblock n (fold buffer_put cs st)) = take n cs
    \<and> queue (snd (drain keyboard_getchar_nonblock n (fold buffer_put cs st))) = drop n (take 255 cs)"
  by (rule keys.burst_drain [OF assms])

theorem keyboard_buffer_fifo_witness:
  "fst (drain keyboard_getchar_nonblock 2 (fold buffer_put [104, 105, 33] key_a_kbd)) = [104, 105]"
  using keyboard_buffer_fifo [OF key_a_ok(2,3), of 2 "[104, 105, 33]"] by simp

end
