(* ===== verification/Idt_Props.thy ===== *)
theory Idt_Props
  imports Timer
begin

text \<open>
  What \<^verbatim>\<open>idt_init\<close> and \<^verbatim>\<open>timer_init\<close> leave in the tables and on the ports.
\<close>

section \<open>Gates\<close>

text \<open>The gate for an entry point, and the entry point of a gate.\<close>

definition gate :: "u32 \<Rightarrow> u16 \<Rightarrow> u8 \<Rightarrow> idt_entry" where
  "gate base s fl = \<lparr>base_low = ucast (base AND 0xFFFF), sel = s, always0 = 0, flags = fl,
     base_high = ucast (drop_bit 16 base AND 0xFFFF)\<rparr>"

definition gate_target :: "idt_entry \<Rightarrow> u32" where
  "gate_target e = push_bit 16 (ucast (base_high e)) OR ucast (base_low e)"

lemma gate_target_gate: "gate_target (gate base s fl) = base"
proof (rule bit_word_eqI)
  fix n assume "n < LENGTH(32)"
  moreover have m: "x AND 0xFFFF = take_bit 16 x" for x :: u32 by (simp add: take_bit_eq_mask mask_eq_exp_minus_1)
  ultimately show "bit (gate_target (gate base s fl)) n = bit base n"
    unfolding gate_target_def gate_def m by (cases "n < 16") (auto simp: bit_simps)
qed

lemma idt_set_gate_tab: "idt_tab (idt_set_gate num base s fl st) = (idt_tab st)[unat num := gate base s fl]"
  by (simp add: idt_set_gate_def gate_def)

lemma idt_set_gate_frame [simp]:
  "isr_stub (idt_set_gate num base s fl st) = isr_stub st" "irq_stub (idt_set_gate num base s fl st) = irq_stub st"
  "trace (idt_set_gate num base s fl st) = trace st" "int_flag (idt_set_gate num base s fl st) = int_flag st"
  "dev (idt_set_gate num base s fl st) = dev st" "irq_handlers (idt_set_gate num base s fl st) = irq_handlers st"
  "idtp_base (idt_set_gate num base s fl st) = idtp_base st" "idtp_limit (idt_set_gate num base s fl st) = idtp_limit st"
  "idtp_addr (idt_set_gate num base s fl st) = idtp_addr st" "idt_addr (idt_set_gate num base s fl st) = idt_addr st"
  "idt.more (idt_set_gate num base s fl st) = idt.more st"
  "vga_row (idt_set_gate num base s fl st) = vga_row st" "vga_col (idt_set_gate num base s fl st) = vga_col st"
  "vga_color (idt_set_gate num base s fl st) = vga_color st" "vga_buffer (idt_set_gate num base s fl st) = vga_buffer st"
  by (simp_all add: idt_set_gate_def)

text \<open>A run of gates from index \<open>k\<close> on touches the table only.\<close>

definition set_tab :: "idt_entry list \<Rightarrow> 'a idt_scheme \<Rightarrow> 'a idt_scheme" where
  "set_tab t st = st\<lparr>idt_tab := t\<rparr>"

primrec gates :: "nat \<Rightarrow> (nat \<Rightarrow> idt_entry) \<Rightarrow> nat \<Rightarrow> idt_entry list \<Rightarrow> idt_entry list" where
  "gates k g 0 t = t"
| "gates k g (Suc n) t = (gates k g n t)[k + n := g n]"

lemma length_gates [simp]: "length (gates k g n t) = length t"
  by (induction n) simp_all

lemma gates_nth: "k + n \<le> length t \<Longrightarrow> i < length t \<Longrightarrow>
    gates k g n t ! i = (if k \<le> i \<and> i < k + n then g (i - k) else t ! i)"
  by (induction n) (auto simp: nth_list_update less_Suc_eq)

lemma fold_gates:
  "k + n \<le> 256 \<Longrightarrow>
    fold (\<lambda>i st. idt_set_gate (of_nat (k + i)) (f st i) s fl st) [0..<n] st =
      st\<lparr>idt_tab := gates k (\<lambda>i. gate (f st i) s fl) n (idt_tab st)\<rparr>"
  if "\<And>t. f (st\<lparr>idt_tab := t\<rparr>) = f st"
proof (induction n)
  case (Suc n)
  then have "unat (of_nat (k + n) :: u8) = k + n" by (simp add: unat_of_nat take_bit_nat_eq_self del: of_nat_add)
  with Suc that show ?case by (simp add: idt_set_gate_def gate_def del: of_nat_add)
qed simp

lemma set_exceptions_eq:
  "set_exceptions st = st\<lparr>idt_tab := gates 0 (\<lambda>i. gate (isr_stub st i) 0x08 IDT_FLAGS_INTERRUPT) 32 (idt_tab st)\<rparr>"
  unfolding set_exceptions_def using fold_gates [of isr_stub st 0 32 "0x08" IDT_FLAGS_INTERRUPT] by simp

lemma set_irqs_eq:
  "set_irqs st = st\<lparr>idt_tab := gates 32 (\<lambda>i. gate (irq_stub st i) 0x08 IDT_FLAGS_INTERRUPT) 16 (idt_tab st)\<rparr>"
  unfolding set_irqs_def using fold_gates [of irq_stub st 32 16 "0x08" IDT_FLAGS_INTERRUPT] by simp

lemma clear_gates_eq:
  "fold (\<lambda>i. idt_set_gate (of_nat i) 0 0 0) [0..<IDT_ENTRIES] st = st\<lparr>idt_tab := gates 0 (\<lambda>_. gate 0 0 0) 256 (idt_tab st)\<rparr>"
  unfolding IDT_ENTRIES_def using fold_gates [of "\<lambda>_ _. 0" st 0 256 0 0] by simp

section \<open>Properties\<close>

text \<open>The initialisation words of the two controllers, newest first, between the saved masks.\<close>

definition remap_trace :: "u8 \<Rightarrow> u8 \<Rightarrow> io_event list" where
  "remap_trace mask1 mask2 =
     [Outb 0xA1 mask2, Outb 0x21 mask1,
      Outb 0x80 0, Outb 0xA1 1, Outb 0x80 0, Outb 0x21 1,
      Outb 0x80 0, Outb 0xA1 2, Outb 0x80 0, Outb 0x21 4,
      Outb 0x80 0, Outb 0xA1 0x28, Outb 0x80 0, Outb 0x21 0x20,
      Outb 0x80 0, Outb 0xA0 0x11, Outb 0x80 0, Outb 0x20 0x11,
      Inb 0xA1 mask2, Inb 0x21 mask1]"

lemma pic_remap_eq:
  "\<exists>m1 m2. pic_remap st = st\<lparr>trace := remap_trace m1 m2 @ trace st\<rparr>"
  by (intro exI) (simp add: pic_remap_def io_wait_def outb_def inb_def Let_def idt_consts remap_trace_def)

lemma idt_init_eq:
  "\<exists>m1 m2. idt_init st = st\<lparr>idtp_limit := 2047, idtp_base := idt_addr st,
     idt_tab := gates 32 (\<lambda>i. gate (irq_stub st i) 8 0x8E) 16 (gates 0 (\<lambda>i. gate (isr_stub st i) 8 0x8E) 32
       (gates 0 (\<lambda>_. gate 0 0 0) 256 (idt_tab st))),
     trace := Sti # Lidt (idtp_addr st) # remap_trace m1 m2 @ trace st, int_flag := True\<rparr>"
proof -
  define st2 where "st2 = st\<lparr>idtp_limit := 2047, idtp_base := idt_addr st,
     idt_tab := gates 0 (\<lambda>i. gate (isr_stub st i) 8 0x8E) 32 (gates 0 (\<lambda>_. gate 0 0 0) 256 (idt_tab st))\<rparr>"
  have s2: "set_exceptions (fold (\<lambda>i. idt_set_gate (of_nat i) 0 0 0) [0..<IDT_ENTRIES]
      (st\<lparr>idtp_limit := of_nat (8 * IDT_ENTRIES - 1), idtp_base := idt_addr st\<rparr>)) = st2"
    unfolding clear_gates_eq set_exceptions_eq by (simp add: IDT_ENTRIES_def IDT_FLAGS_INTERRUPT_def st2_def)
  obtain m1 m2 where p: "pic_remap st2 = st2\<lparr>trace := remap_trace m1 m2 @ trace st2\<rparr>"
    using pic_remap_eq by blast
  show ?thesis unfolding idt_init_def Let_def s2 p set_irqs_eq
    by (intro exI [of _ m1] exI [of _ m2])
      (simp add: idt_load_def enable_interrupts_def IDT_FLAGS_INTERRUPT_def st2_def)
qed

text \<open>
  C33: \<^verbatim>\<open>idt_init\<close> fills the table: gates 0 to 31 lead to the exception stubs and gates 32 to 47 to
  the interrupt line stubs, each a ring 0 interrupt gate of the kernel code segment, every other
  gate is absent. The controllers are remapped to 0x20 and 0x28 with their masks restored, the
  table is loaded, and only then are interrupts enabled.
\<close>
theorem idt_init_gates:
  assumes "length (idt_tab st) = 256" "i < 256"
  shows "idt_tab (idt_init st) ! i =
      (if i < 32 then gate (isr_stub st i) 0x08 0x8E else if i < 48 then gate (irq_stub st (i - 32)) 0x08 0x8E else gate 0 0 0)
    \<and> (i < 48 \<longrightarrow> gate_target (idt_tab (idt_init st) ! i) = (if i < 32 then isr_stub st i else irq_stub st (i - 32)))
    \<and> idtp_base (idt_init st) = idt_addr st \<and> idtp_limit (idt_init st) = 8 * 256 - 1 \<and> int_flag (idt_init st)
    \<and> (\<exists>m1 m2. trace (idt_init st) = Sti # Lidt (idtp_addr st) # remap_trace m1 m2 @ trace st)"
proof -
  obtain m1 m2 where e: "idt_init st = st\<lparr>idtp_limit := 2047, idtp_base := idt_addr st,
     idt_tab := gates 32 (\<lambda>i. gate (irq_stub st i) 8 0x8E) 16 (gates 0 (\<lambda>i. gate (isr_stub st i) 8 0x8E) 32
       (gates 0 (\<lambda>_. gate 0 0 0) 256 (idt_tab st))),
     trace := Sti # Lidt (idtp_addr st) # remap_trace m1 m2 @ trace st, int_flag := True\<rparr>"
    using idt_init_eq by blast
  have "idt_tab (idt_init st) ! i =
      (if i < 32 then gate (isr_stub st i) 0x08 0x8E else if i < 48 then gate (irq_stub st (i - 32)) 0x08 0x8E else gate 0 0 0)"
    using assms by (simp add: e gates_nth)
  then show ?thesis by (auto simp: e gate_target_gate)
qed

definition boot_idt :: timer where
  "boot_idt = \<lparr>dev = \<lambda>_ _. 0xFF, trace = [], int_flag = False, vga_row = 0, vga_col = 0, vga_color = 7,
     vga_buffer = \<lambda>_. 0, isr_stub = \<lambda>i. 0x12340000 + of_nat i, irq_stub = \<lambda>i. 0x56780000 + of_nat i,
     idt_addr = 0x5000, idtp_addr = 0x6000, idt_tab = replicate 256 (gate 0 0 0),
     idtp_limit = 0, idtp_base = 0, irq_handlers = replicate 16 None, timer_ticks = 7, timer_frequency = 0\<rparr>"

theorem idt_init_gates_witness:
  "gate_target (idt_tab (idt_init boot_idt) ! 33) = 0x56780001"
proof -
  have "length (idt_tab boot_idt) = 256" by (simp add: boot_idt_def)
  moreover have "irq_stub boot_idt 1 = 0x56780001" by (simp add: boot_idt_def)
  ultimately show ?thesis using idt_init_gates [of boot_idt 33] by (simp add: gate_target_gate)
qed

text \<open>
  \<^verbatim>\<open>timer_init\<close> with a frequency the counter can hold (19 to 1193182 Hz) programs channel 0 in
  mode 3 with the low and then the high byte of the divisor 1193182 / frequency, starts the ticks
  at 0 and registers the tick handler on line 0; other lines keep their handlers. Frequency 0 traps.
\<close>
theorem timer_init_programs_pit:
  assumes "length (irq_handlers st) = 16" "19 \<le> f" "f \<le> 1193182"
  shows "timer_init 0 st = None
    \<and> (\<exists>lo hi st'. timer_init f st = Some st'
        \<and> trace st' = Outb 0x40 hi # Outb 0x40 lo # Outb 0x43 0x36 # trace st
        \<and> 256 * unat hi + unat lo = 1193182 div unat f
        \<and> timer_ticks st' = 0 \<and> timer_frequency st' = f
        \<and> irq_handlers st' = (irq_handlers st)[0 := Some Timer_handler])"
proof -
  define d :: u32 where "d = PIT_BASE_FREQUENCY div f"
  have f: "19 \<le> unat f" "f \<noteq> 0" using assms(2) by (auto simp: word_le_nat_alt)
  have ud: "unat d = 1193182 div unat f" by (simp add: d_def PIT_BASE_FREQUENCY_def unat_div)
  have "1193182 div unat f \<le> 1193182 div 19" using f(1) by (intro div_le_mono2) simp_all
  then have small: "unat d < 65536" by (simp add: ud)
  have m: "x AND 0xFF = take_bit 8 x" for x :: u32 by (simp add: take_bit_eq_mask mask_eq_exp_minus_1)
  have lo: "unat (ucast (d AND 0xFF) :: u8) = unat d mod 256"
    unfolding m by (simp add: unsigned_ucast_eq unsigned_take_bit_eq take_bit_eq_mod unat_mod)
  have hi: "unat (ucast (drop_bit 8 d AND 0xFF) :: u8) = unat d div 256"
    unfolding m using small
    by (simp add: unsigned_ucast_eq unsigned_take_bit_eq take_bit_eq_mod unat_mod unat_drop_bit_eq drop_bit_eq_div unat_div
        less_mult_imp_div_less)
  have "256 * unat (ucast (drop_bit 8 d AND 0xFF) :: u8) + unat (ucast (d AND 0xFF) :: u8) = 1193182 div unat f"
    unfolding lo hi by (simp add: ud)
  then show ?thesis using f(2)
    by (auto simp: timer_init_def irq_register_handler_def Let_def pit_consts d_def outb_def)
qed

theorem timer_init_programs_pit_witness:
  "\<exists>lo hi st'. timer_init 100 boot_idt = Some st'
     \<and> trace st' = [Outb 0x40 hi, Outb 0x40 lo, Outb 0x43 0x36] \<and> 256 * unat hi + unat lo = 11931"
proof -
  have "length (irq_handlers boot_idt) = 16" by (simp add: boot_idt_def)
  from timer_init_programs_pit [OF this, of 100] show ?thesis by (auto simp: boot_idt_def)
qed

end
