(* ===== verification/Heap.thy ===== *)
theory Heap
  imports CMem
begin

text \<open>
  The heap allocator of \<^verbatim>\<open>src/src/kernel/memory.c\<close>: a singly linked list of block headers laid
  over the region from \<^verbatim>\<open>HEAP_START\<close> to \<^verbatim>\<open>HEAP_END\<close> in the byte memory of \<^theory_text>\<open>CMem\<close>. The
  headers live in the same bytes the callers write to, so nothing is assumed about them: the
  operations read whatever the bytes say, and a list walk that would not end is \<open>None\<close>.
  After the operations come the block list a sound heap stands for, the allocator on that list
  as a specification, and the proof that the code implements it.
\<close>

section \<open>State and block headers\<close>

definition HEAP_START :: nat where "HEAP_START = 0x200000"
definition HEAP_SIZE :: nat where "HEAP_SIZE = 0x400000"
definition HEAP_END :: nat where "HEAP_END = HEAP_START + HEAP_SIZE"

record mm =
  ram :: mem
  heap_start :: addr
  total_memory :: u32
  used_memory :: u32

text \<open>
  \<^verbatim>\<open>struct mem_block\<close> on x86-32: \<^verbatim>\<open>size\<close> at offset 0, \<^verbatim>\<open>used\<close> at 4, \<^verbatim>\<open>next\<close> at 8, and
  \<^verbatim>\<open>sizeof\<close> is 12.
\<close>

definition blk_size :: "mem \<Rightarrow> addr \<Rightarrow> u32" where "blk_size m b = load32 m b"
definition blk_used :: "mem \<Rightarrow> addr \<Rightarrow> u8" where "blk_used m b = m (b + 4)"
definition blk_next :: "mem \<Rightarrow> addr \<Rightarrow> addr" where "blk_next m b = load32 m (b + 8)"

definition set_size :: "mem \<Rightarrow> addr \<Rightarrow> u32 \<Rightarrow> mem" where "set_size m b v = store32 m b v"
definition set_used :: "mem \<Rightarrow> addr \<Rightarrow> u8 \<Rightarrow> mem" where "set_used m b v = m(b + 4 := v)"
definition set_next :: "mem \<Rightarrow> addr \<Rightarrow> addr \<Rightarrow> mem" where "set_next m b v = store32 m (b + 8) v"

section \<open>Operations\<close>

definition memory_init :: "mm \<Rightarrow> mm" where
  "memory_init st =
     (let b = of_nat HEAP_START;
          m1 = set_size (ram st) b (of_nat HEAP_SIZE);
          m2 = set_used m1 b 0;
          m3 = set_next m2 b NULL
      in st\<lparr>ram := m3, heap_start := b, total_memory := of_nat HEAP_SIZE, used_memory := 0\<rparr>)"

text \<open>The body of the search loop for the block that fits: split it if it is much larger, mark it.\<close>

definition kmalloc_take :: "addr \<Rightarrow> u32 \<Rightarrow> mm \<Rightarrow> mm" where
  "kmalloc_take block total_size st =
     (let m = ram st;
          m' = (if total_size + 12 + 16 \<le> blk_size m block then
                  (let new_block = block + total_size;
                       m1 = set_size m new_block (blk_size m block - total_size);
                       m2 = set_used m1 new_block 0;
                       m3 = set_next m2 new_block (blk_next m2 block);
                       m4 = set_size m3 block total_size
                   in set_next m4 block new_block)
                else m);
          m'' = set_used m' block 1
      in st\<lparr>ram := m'', used_memory := used_memory st + blk_size m'' block\<rparr>)"

text \<open>\<^verbatim>\<open>while (block != NULL)\<close>: \<open>None\<close> would be a walk around a cyclic list.\<close>

partial_function (option) kmalloc_loop :: "addr \<Rightarrow> u32 \<Rightarrow> mm \<Rightarrow> (addr \<times> mm) option" where
  "kmalloc_loop block total_size st =
     (if block = NULL then Some (NULL, st)
      else if blk_used (ram st) block = 0 \<and> total_size \<le> blk_size (ram st) block
      then Some (block + 12, kmalloc_take block total_size st)
      else kmalloc_loop (blk_next (ram st) block) total_size st)"

text \<open>The block size a request needs: rounded up to 8 bytes, plus the header.\<close>

definition request_size :: "u32 \<Rightarrow> u32" where
  "request_size sz = (let size' = (sz + 7) AND NOT 7 in size' + 12)"

definition kmalloc :: "u32 \<Rightarrow> mm \<Rightarrow> (addr \<times> mm) option" where
  "kmalloc sz st =
     (if sz = 0 then Some (NULL, st)
      else kmalloc_loop (heap_start st) (request_size sz) st)"

definition kcalloc :: "u32 \<Rightarrow> u32 \<Rightarrow> mm \<Rightarrow> (addr \<times> mm) option" where
  "kcalloc num sz st =
     (let total = num * sz in
      do {
        (ptr, st') \<leftarrow> kmalloc total st;
        Some (ptr, if ptr \<noteq> NULL then st'\<lparr>ram := memset (ram st') ptr 0 total\<rparr> else st')
      })"

text \<open>\<^verbatim>\<open>while (prev != NULL && prev->next != block) prev = prev->next;\<close>\<close>

partial_function (option) kfree_prev :: "mem \<Rightarrow> addr \<Rightarrow> addr \<Rightarrow> addr option" where
  "kfree_prev m prev block =
     (if prev \<noteq> NULL \<and> blk_next m prev \<noteq> block then kfree_prev m (blk_next m prev) block
      else Some prev)"

text \<open>Coalesce with the next block if it is free.\<close>

definition coalesce_next :: "mem \<Rightarrow> addr \<Rightarrow> mem" where
  "coalesce_next m block =
     (if blk_next m block \<noteq> NULL \<and> blk_used m (blk_next m block) = 0 then
        (let m' = set_size m block (blk_size m block + blk_size m (blk_next m block))
         in set_next m' block (blk_next m' (blk_next m' block)))
      else m)"

text \<open>Coalesce with the previous block if there is one and it is free.\<close>

definition coalesce_prev :: "mem \<Rightarrow> addr \<Rightarrow> addr \<Rightarrow> mem" where
  "coalesce_prev m prev block =
     (if prev \<noteq> NULL \<and> blk_used m prev = 0 then
        (let m' = set_size m prev (blk_size m prev + blk_size m block)
         in set_next m' prev (blk_next m' block))
      else m)"

definition kfree :: "addr \<Rightarrow> mm \<Rightarrow> mm option" where
  "kfree ptr st =
     (if ptr = NULL then Some st
      else (let block = ptr - 12 in
        if blk_used (ram st) block = 0 then Some st
        else (let m1 = set_used (ram st) block 0;
                  used' = used_memory st - blk_size m1 block;
                  m2 = coalesce_next m1 block
              in do {
                prev \<leftarrow> kfree_prev m2 (heap_start st) block;
                Some (st\<lparr>ram := coalesce_prev m2 prev block, used_memory := used'\<rparr>)
              })))"

definition krealloc :: "addr \<Rightarrow> u32 \<Rightarrow> mm \<Rightarrow> (addr \<times> mm) option" where
  "krealloc ptr sz st =
     (if ptr = NULL then kmalloc sz st
      else if sz = 0 then do { st' \<leftarrow> kfree ptr st; Some (NULL, st') }
      else (let old_block = ptr - 12; old_size = blk_size (ram st) old_block - 12 in
        if sz \<le> old_size then Some (ptr, st)
        else do {
          (new_ptr, st1) \<leftarrow> kmalloc sz st;
          if new_ptr = NULL then Some (NULL, st1)
          else do {
            st3 \<leftarrow> kfree ptr (st1\<lparr>ram := memcpy (ram st1) new_ptr ptr old_size\<rparr>);
            Some (new_ptr, st3)
          }
        }))"

definition memory_get_total :: "mm \<Rightarrow> u32" where "memory_get_total st = total_memory st"
definition memory_get_used :: "mm \<Rightarrow> u32" where "memory_get_used st = used_memory st"
definition memory_get_free :: "mm \<Rightarrow> u32" where
  "memory_get_free st = total_memory st - used_memory st"

section \<open>Headers\<close>

definition hdr :: "mem \<Rightarrow> addr \<Rightarrow> u32 \<times> u8 \<times> addr" where
  "hdr m b = (blk_size m b, blk_used m b, blk_next m b)"

lemma hdr_set_same [simp]:
  "hdr (set_size m b v) b = (v, blk_used m b, blk_next m b)"
  "hdr (set_used m b w) b = (blk_size m b, w, blk_next m b)"
  "hdr (set_next m b x) b = (blk_size m b, blk_used m b, x)"
  by (simp_all add: hdr_def blk_size_def blk_used_def blk_next_def set_size_def set_used_def
      set_next_def load32_def store32_def split_u32)

lemma fields_of_hdr:
  "hdr m b = (s, u, n) \<longleftrightarrow> blk_size m b = s \<and> blk_used m b = u \<and> blk_next m b = n"
  by (simp add: hdr_def)

lemma fields_set_same [simp]:
  "blk_size (set_size m b v) b = v" "blk_used (set_size m b v) b = blk_used m b"
  "blk_next (set_size m b v) b = blk_next m b"
  "blk_size (set_used m b w) b = blk_size m b" "blk_used (set_used m b w) b = w"
  "blk_next (set_used m b w) b = blk_next m b"
  "blk_size (set_next m b x) b = blk_size m b" "blk_used (set_next m b x) b = blk_used m b"
  "blk_next (set_next m b x) b = x"
  using hdr_set_same [of m b] by (simp_all add: hdr_def)

text \<open>Header writes stay inside the twelve bytes of the header.\<close>

lemma header_offsets:
  assumes "unat (b :: addr) + 12 \<le> 2 ^ 32"
  shows "unat (b + 4) = unat b + 4" "unat (b + 8) = unat b + 8"
  using unat_offset [of b 4] unat_offset [of b 8] assms by simp_all

lemma agree_on_set [frame]:
  assumes "unat b + 12 \<le> 2 ^ 32" "range_of (unat b) 12 \<inter> S = {}" "agree_on S m m'"
  shows "agree_on S m (set_size m' b v)" "agree_on S m (set_used m' b w)"
    "agree_on S m (set_next m' b x)"
proof -
  have sub: "range_of (unat b) 4 \<subseteq> range_of (unat b) 12"
    "range_of (unat (b + 8)) 4 \<subseteq> range_of (unat b) 12" "b + 4 \<in> range_of (unat b) 12"
    using header_offsets [OF assms(1)] by auto
  show "agree_on S m (set_size m' b v)"
    unfolding set_size_def using assms sub by (intro agree_on_store32) auto
  show "agree_on S m (set_used m' b w)"
    unfolding set_used_def using assms sub by (intro agree_on_upd) auto
  show "agree_on S m (set_next m' b x)"
    unfolding set_next_def using assms sub header_offsets [OF assms(1)]
    by (intro agree_on_store32) auto
qed

lemma hdr_cong:
  assumes "agree_on (range_of (unat b) 12) m m'" and "unat b + 12 \<le> 2 ^ 32"
  shows "hdr m b = hdr m' b"
proof -
  note off = header_offsets [OF assms(2)]
  have "load32 m b = load32 m' b" "load32 m (b + 8) = load32 m' (b + 8)"
    using off assms by (auto intro!: load32_cong elim!: agree_on_mono)
  moreover have "m (b + 4) = m' (b + 4)"
    using off by (intro agree_onD [OF assms(1)]) simp
  ultimately show ?thesis by (simp add: hdr_def blk_size_def blk_used_def blk_next_def)
qed

text \<open>Two headers that do not overlap.\<close>

definition apart :: "addr \<Rightarrow> addr \<Rightarrow> bool" where
  "apart b c \<longleftrightarrow> (unat b + 12 \<le> unat c \<or> unat c + 12 \<le> unat b)
     \<and> unat b + 12 \<le> 2 ^ 32 \<and> unat c + 12 \<le> 2 ^ 32"

lemma hdr_set_apart:
  assumes "apart b c"
  shows "hdr (set_size m b v) c = hdr m c" "hdr (set_used m b w) c = hdr m c"
    "hdr (set_next m b x) c = hdr m c"
proof -
  have d: "range_of (unat b) 12 \<inter> range_of (unat c) 12 = {}"
    using assms by (auto simp: apart_def)
  have l: "unat b + 12 \<le> 2 ^ 32" "unat c + 12 \<le> 2 ^ 32" using assms by (simp_all add: apart_def)
  from agree_on_set [OF l(1) d agree_on_refl]
  show "hdr (set_size m b v) c = hdr m c" "hdr (set_used m b w) c = hdr m c"
    "hdr (set_next m b x) c = hdr m c"
    by (metis hdr_cong l(2))+
qed

section \<open>The block list\<close>

text \<open>
  A block is its size (header included) and whether it is in use. \<open>seg m a bs\<close>: from address
  \<open>a\<close> on, the headers in memory \<open>m\<close> describe exactly the adjacent blocks \<open>bs\<close>; each header
  points to the next block, the last one of the heap to NULL.
\<close>

type_synonym blocks = "(nat \<times> bool) list"

definition nxt :: "nat \<Rightarrow> addr" where
  "nxt e = (if e = HEAP_END then NULL else of_nat e)"

primrec seg :: "mem \<Rightarrow> nat \<Rightarrow> blocks \<Rightarrow> bool" where
  "seg m a [] \<longleftrightarrow> True"
| "seg m a (b # bs) \<longleftrightarrow> 20 \<le> fst b
     \<and> hdr m (of_nat a) = (of_nat (fst b), of_bool (snd b), nxt (a + fst b))
     \<and> seg m (a + fst b) bs"

abbreviation bsum :: "blocks \<Rightarrow> nat" where
  "bsum bs \<equiv> sum_list (map fst bs)"

definition used_sum :: "blocks \<Rightarrow> nat" where
  "used_sum bs = sum_list (map fst (filter snd bs))"

definition free_sum :: "blocks \<Rightarrow> nat" where
  "free_sum bs = sum_list (map fst (filter (\<lambda>b. \<not> snd b) bs))"

text \<open>No two neighbouring blocks are both free: the heap is fully coalesced.\<close>

fun coalesced :: "blocks \<Rightarrow> bool" where
  "coalesced (b # c # bs) \<longleftrightarrow> (snd b \<or> snd c) \<and> coalesced (c # bs)"
| "coalesced _ \<longleftrightarrow> True"

text \<open>The addresses of the headers, and of the blocks in use with their sizes.\<close>

primrec hdrs :: "nat \<Rightarrow> blocks \<Rightarrow> addr set" where
  "hdrs a [] = {}"
| "hdrs a (b # bs) = range_of a 12 \<union> hdrs (a + fst b) bs"

primrec placed :: "nat \<Rightarrow> blocks \<Rightarrow> (nat \<times> nat) list" where
  "placed a [] = []"
| "placed a (b # bs) = (if snd b then [(a, fst b)] else []) @ placed (a + fst b) bs"

definition heap_rep :: "mm \<Rightarrow> blocks \<Rightarrow> bool" where
  "heap_rep st bs \<longleftrightarrow> heap_start st = of_nat HEAP_START \<and> total_memory st = of_nat HEAP_SIZE
     \<and> seg (ram st) HEAP_START bs \<and> bsum bs = HEAP_SIZE
     \<and> (\<forall>b\<in>set bs. 4 dvd fst b) \<and> coalesced bs \<and> used_memory st = of_nat (used_sum bs)"

lemmas heap_consts = HEAP_START_def HEAP_SIZE_def HEAP_END_def

lemma seg_append: "seg m a (xs @ ys) \<longleftrightarrow> seg m a xs \<and> seg m (a + bsum xs) ys"
  by (induction xs arbitrary: a) (auto simp: add.assoc)

lemma hdrs_append: "hdrs a (xs @ ys) = hdrs a xs \<union> hdrs (a + bsum xs) ys"
  by (induction xs arbitrary: a) (auto simp: add.assoc)

lemma placed_append: "placed a (xs @ ys) = placed a xs @ placed (a + bsum xs) ys"
  by (induction xs arbitrary: a) (auto simp: add.assoc)

lemma used_sum_simps [simp]:
  "used_sum [] = 0" "used_sum (b # bs) = (if snd b then fst b else 0) + used_sum bs"
  "used_sum (xs @ ys) = used_sum xs + used_sum ys"
  by (simp_all add: used_sum_def)

lemma used_free_sum: "used_sum bs + free_sum bs = bsum bs"
  by (induction bs) (auto simp: used_sum_def free_sum_def)

lemma used_sum_le: "used_sum bs \<le> bsum bs"
  using used_free_sum [of bs] by linarith

lemma coalesced_append:
  "coalesced (xs @ ys) \<longleftrightarrow> coalesced xs \<and> coalesced ys
     \<and> (xs \<noteq> [] \<and> ys \<noteq> [] \<longrightarrow> snd (last xs) \<or> snd (hd ys))"
proof (induction xs rule: coalesced.induct)
  case (1 b c bs)
  then show ?case by auto
qed (simp, cases ys, auto)

lemma coalesced_Cons:
  "coalesced (b # bs) \<longleftrightarrow> coalesced bs \<and> (bs \<noteq> [] \<longrightarrow> snd b \<or> snd (hd bs))"
  using coalesced_append [of "[b]" bs] by auto

lemma hdrs_subset: "seg m a bs \<Longrightarrow> hdrs a bs \<subseteq> range_of a (bsum bs)"
proof (induction bs arbitrary: a)
  case (Cons b bs)
  then have "hdrs (a + fst b) bs \<subseteq> range_of (a + fst b) (bsum bs)" by simp
  with Cons.prems show ?case by fastforce
qed simp

lemma seg_cong:
  assumes "agree_on (hdrs a bs) m m'" and "seg m a bs" and "a + bsum bs \<le> HEAP_END"
  shows "seg m' a bs"
  using assms
proof (induction bs arbitrary: a)
  case (Cons b bs)
  from Cons.prems have "a < 2 ^ 32" "a + 12 \<le> 2 ^ 32" by (auto simp: heap_consts)
  then have "hdr m (of_nat a) = hdr m' (of_nat a)"
    using Cons.prems(1) by (intro hdr_cong) (auto elim: agree_on_mono)
  moreover have "seg m' (a + fst b) bs"
    using Cons.prems by (intro Cons.IH) (auto elim: agree_on_mono)
  ultimately show ?case using Cons.prems by auto
qed simp

lemma seg_frame:
  assumes "seg m a bs" "a + bsum bs \<le> HEAP_END" "agree_on S m m'" "range_of a (bsum bs) \<subseteq> S"
  shows "seg m' a bs"
proof (rule seg_cong [OF _ assms(1,2)])
  show "agree_on (hdrs a bs) m m'"
    using hdrs_subset [OF assms(1)] assms(4) by (intro agree_on_mono [OF assms(3)]) blast
qed

text \<open>The blocks are determined by the memory.\<close>

lemma seg_unique:
  "seg m a bs \<Longrightarrow> seg m a cs \<Longrightarrow> bsum bs = bsum cs \<Longrightarrow> a + bsum bs \<le> HEAP_END \<Longrightarrow> bs = cs"
proof (induction bs arbitrary: a cs)
  case Nil
  then show ?case by (cases cs) auto
next
  case (Cons b bs)
  then obtain c cs' where cs: "cs = c # cs'" by (cases cs) auto
  with Cons.prems have "(of_nat (fst b) :: u32) = of_nat (fst c)"
    "(of_bool (snd b) :: u8) = of_bool (snd c)" by auto
  moreover have "fst b < 2 ^ 32" "fst c < 2 ^ 32"
    using Cons.prems cs by (auto simp: heap_consts)
  ultimately have "b = c" by (auto simp: of_nat_eq_u32 prod_eq_iff of_bool_def split: if_splits)
  with Cons.prems cs show ?case by (auto intro!: Cons.IH)
qed

lemma heap_rep_unique: "heap_rep st bs \<Longrightarrow> heap_rep st cs \<Longrightarrow> bs = cs"
  using seg_unique [of "ram st" HEAP_START bs cs] by (simp add: heap_rep_def HEAP_END_def)

section \<open>The allocator on block lists\<close>

text \<open>First fit: what \<^verbatim>\<open>kmalloc\<close> does to the block list.\<close>

definition split_block :: "nat \<Rightarrow> nat \<Rightarrow> blocks" where
  "split_block t sz = (if t + 28 \<le> sz then [(t, True), (sz - t, False)] else [(sz, True)])"

fun alloc_list :: "nat \<Rightarrow> nat \<Rightarrow> blocks \<Rightarrow> (nat \<times> blocks) option" where
  "alloc_list a t [] = None"
| "alloc_list a t ((sz, u) # bs) =
     (if \<not> u \<and> t \<le> sz then Some (a, split_block t sz @ bs)
      else map_option (\<lambda>(p, bs'). (p, (sz, u) # bs')) (alloc_list (a + sz) t bs))"

text \<open>
  Freeing marks the block at address \<open>p\<close> free and merges every run of free blocks; the code
  looks at the two neighbours only, which is enough on a coalesced heap.
\<close>

fun release :: "nat \<Rightarrow> nat \<Rightarrow> blocks \<Rightarrow> blocks" where
  "release a p [] = []"
| "release a p ((sz, u) # bs) = (sz, if a = p then False else u) # release (a + sz) p bs"

fun coalesce :: "blocks \<Rightarrow> blocks" where
  "coalesce ((s, False) # (t, False) # bs) = coalesce ((s + t, False) # bs)"
| "coalesce (b # bs) = b # coalesce bs"
| "coalesce [] = []"

definition free_list :: "nat \<Rightarrow> nat \<Rightarrow> blocks \<Rightarrow> blocks" where
  "free_list a p bs = coalesce (release a p bs)"

lemma alloc_list_SomeE:
  assumes "alloc_list a t bs = Some (p, bs')"
  obtains xs sz ys where "bs = xs @ (sz, False) # ys" "p = a + bsum xs" "t \<le> sz"
    "bs' = xs @ split_block t sz @ ys" "\<forall>b\<in>set xs. snd b \<or> fst b < t"
  using assms
proof (induction bs arbitrary: a p bs' thesis)
  case (Cons b bs)
  obtain sz u where b: "b = (sz, u)" by (cases b)
  show ?case
  proof (cases "\<not> u \<and> t \<le> sz")
    case True
    with Cons.prems b show ?thesis by (intro Cons.prems(1) [of "[]" sz bs]) auto
  next
    case False
    with Cons.prems(2) b obtain bs'' where
      bs'': "alloc_list (a + sz) t bs = Some (p, bs'')" "bs' = b # bs''" by auto
    show ?thesis
    proof (rule Cons.IH [OF _ bs''(1)])
      fix xs s ys
      assume "bs = xs @ (s, False) # ys" "p = a + sz + bsum xs" "t \<le> s"
        "bs'' = xs @ split_block t s @ ys" "\<forall>b\<in>set xs. snd b \<or> fst b < t"
      with False b bs''(2) show ?thesis by (intro Cons.prems(1) [of "b # xs" s ys]) auto
    qed
  qed
qed simp

lemma alloc_list_None: "alloc_list a t bs = None \<longleftrightarrow> (\<forall>b\<in>set bs. snd b \<or> fst b < t)"
  by (induction a t bs rule: alloc_list.induct) auto

lemma nxt_less: "a < HEAP_END \<Longrightarrow> nxt a = of_nat a"
  by (simp add: nxt_def)

lemma of_nat_addr: "a \<le> HEAP_END \<Longrightarrow> unat (of_nat a :: addr) = a"
  by (simp add: heap_consts)

lemma of_nat_addr_nonzero: "0 < a \<Longrightarrow> a \<le> HEAP_END \<Longrightarrow> (of_nat a :: addr) \<noteq> 0"
  using of_nat_addr [of a] by auto

lemma of_nat_addr_eq:
  "a \<le> HEAP_END \<Longrightarrow> b \<le> HEAP_END \<Longrightarrow> (of_nat a :: addr) = of_nat b \<longleftrightarrow> a = b"
  by (metis of_nat_addr)

lemma kmalloc_loop_refines:
  assumes "seg (ram st) a bs" "a + bsum bs = HEAP_END" "0 < a"
  shows "kmalloc_loop (nxt a) t st =
    (case alloc_list a (unat t) bs of None \<Rightarrow> Some (NULL, st)
     | Some (p, bs') \<Rightarrow> Some (of_nat p + 12, kmalloc_take (of_nat p) t st))"
  using assms
proof (induction bs arbitrary: a)
  case Nil
  then show ?case by (simp add: kmalloc_loop.simps nxt_def)
next
  case (Cons b bs)
  obtain sz u where b: "b = (sz, u)" by (cases b)
  have hd: "blk_size (ram st) (of_nat a) = of_nat sz" "blk_used (ram st) (of_nat a) = of_bool u"
    "blk_next (ram st) (of_nat a) = nxt (a + sz)"
    using Cons.prems(1) b by (simp_all add: fields_of_hdr)
  have a: "a < HEAP_END" "sz \<le> HEAP_END" using Cons.prems b by auto
  then have nz: "nxt a = of_nat a" "(of_nat a :: addr) \<noteq> 0"
    using Cons.prems(3) by (simp_all add: nxt_less of_nat_addr_nonzero)
  have fits: "t \<le> of_nat sz \<longleftrightarrow> unat t \<le> sz"
    using of_nat_addr [OF a(2)] by (simp add: word_le_nat_alt)
  have IH: "kmalloc_loop (nxt (a + sz)) t st =
    (case alloc_list (a + sz) (unat t) bs of None \<Rightarrow> Some (NULL, st)
     | Some (p, bs') \<Rightarrow> Some (of_nat p + 12, kmalloc_take (of_nat p) t st))"
    using Cons.prems b by (intro Cons.IH) auto
  show ?case
    unfolding nz(1) by (subst kmalloc_loop.simps)
      (use nz(2) hd fits IH b in \<open>auto split: option.splits\<close>)
qed

text \<open>What taking a free block does: the block list it leaves, and the bytes it leaves alone.\<close>

lemma kmalloc_take_whole:
  assumes "hdr (ram st) (of_nat p) = (of_nat sz, 0, nxt (p + sz))"
    and "20 \<le> unat t" "unat t \<le> sz" "p + sz \<le> HEAP_END" "sz < unat t + 28"
  defines "st' \<equiv> kmalloc_take (of_nat p) t st"
  shows "ram st' = set_used (ram st) (of_nat p) 1"
    "used_memory st' = used_memory st + of_nat sz"
    "heap_start st' = heap_start st" "total_memory st' = total_memory st"
proof -
  have "unat (t + 12 + 16) = unat t + 28"
    using unat_offset [of t 28] assms(3,4) by (simp add: heap_consts algebra_simps)
  moreover have "unat (of_nat sz :: u32) = sz" using assms(4) by (simp add: of_nat_addr)
  ultimately have "\<not> t + 12 + 16 \<le> blk_size (ram st) (of_nat p)"
    using assms(1,5) by (simp add: fields_of_hdr word_le_nat_alt)
  then show "ram st' = set_used (ram st) (of_nat p) 1"
    "used_memory st' = used_memory st + of_nat sz"
    "heap_start st' = heap_start st" "total_memory st' = total_memory st"
    using assms(1) by (simp_all add: st'_def kmalloc_take_def Let_def fields_of_hdr)
qed

lemma kmalloc_take_split:
  assumes "hdr (ram st) (of_nat p) = (of_nat sz, 0, nxt (p + sz))"
    and "20 \<le> unat t" "p + sz \<le> HEAP_END" "unat t + 28 \<le> sz"
  defines "st' \<equiv> kmalloc_take (of_nat p) t st" and "nb \<equiv> of_nat (p + unat t) :: addr"
  shows "hdr (ram st') (of_nat p) = (t, 1, nb)"
    "hdr (ram st') nb = (of_nat (sz - unat t), 0, nxt (p + sz))"
    "agree_on (- range_of p sz) (ram st) (ram st')"
    "used_memory st' = used_memory st + t"
    "heap_start st' = heap_start st" "total_memory st' = total_memory st"
proof -
  have f: "blk_size (ram st) (of_nat p) = of_nat sz" "blk_used (ram st) (of_nat p) = 0"
    "blk_next (ram st) (of_nat p) = nxt (p + sz)"
    using assms(1) by (simp_all add: fields_of_hdr)
  have "unat (t + 12 + 16) = unat t + 28"
    using unat_offset [of t 28] assms(3,4) by (simp add: heap_consts algebra_simps)
  moreover have "unat (of_nat sz :: u32) = sz" using assms(3) by (simp add: of_nat_addr)
  ultimately have le: "t + 12 + 16 \<le> blk_size (ram st) (of_nat p)"
    using assms(4) f by (simp add: word_le_nat_alt)
  have nb: "of_nat p + t = nb" by (simp add: nb_def)
  have un: "unat (of_nat p :: addr) = p" "unat nb = p + unat t"
    using assms(3,4) by (simp_all add: nb_def of_nat_addr del: of_nat_add)
  have ap: "apart nb (of_nat p)" "apart (of_nat p) nb"
    using un assms(2,3,4) by (auto simp: apart_def heap_consts)
  define m0 where "m0 = ram st"
  define m1 where "m1 = set_size m0 nb (of_nat sz - t)"
  define m2 where "m2 = set_used m1 nb 0"
  define m3 where "m3 = set_next m2 nb (blk_next m2 (of_nat p))"
  define m4 where "m4 = set_size m3 (of_nat p) t"
  define m5 where "m5 = set_next m4 (of_nat p) nb"
  define m6 where "m6 = set_used m5 (of_nat p) 1"
  note ms = m1_def m2_def m3_def m4_def m5_def m6_def
  have st': "st' = st\<lparr>ram := m6, used_memory := used_memory st + blk_size m6 (of_nat p)\<rparr>"
    using le f nb unfolding st'_def kmalloc_take_def ms m0_def by (simp add: Let_def)
  have "hdr m2 (of_nat p) = hdr m0 (of_nat p)"
    using ap by (simp add: ms hdr_set_apart)
  then have n2: "blk_next m2 (of_nat p) = nxt (p + sz)"
    using assms(1) by (simp add: m0_def hdr_def)
  have szt: "of_nat sz - t = of_nat (sz - unat t)"
    using assms(4) by (simp add: of_nat_diff)
  have "hdr m6 nb = hdr m3 nb"
    using ap by (simp add: m4_def m5_def m6_def hdr_set_apart)
  also have "\<dots> = (of_nat (sz - unat t), 0, nxt (p + sz))"
    using n2 by (simp add: m3_def) (simp add: ms szt)
  finally show "hdr (ram st') nb = (of_nat (sz - unat t), 0, nxt (p + sz))"
    by (simp add: st')
  show "hdr (ram st') (of_nat p) = (t, 1, nb)"
    by (simp add: st' m6_def) (simp add: m4_def m5_def)
  then show "used_memory st' = used_memory st + t"
    by (simp add: st' fields_of_hdr)
  have b: "unat (of_nat p :: addr) + 12 \<le> 2 ^ 32" "unat nb + 12 \<le> 2 ^ 32"
    "range_of (unat (of_nat p :: addr)) 12 \<inter> - range_of p sz = {}"
    "range_of (unat nb) 12 \<inter> - range_of p sz = {}"
    using un assms(2,3,4) by (auto simp: heap_consts)
  have r: "ram st' = m6" by (simp add: st')
  show "agree_on (- range_of p sz) (ram st) (ram st')"
    unfolding r ms m0_def by (intro agree_on_set b agree_on_refl)
  show "heap_start st' = heap_start st" "total_memory st' = total_memory st"
    by (simp_all add: st')
qed

lemma seg_split_block:
  assumes "seg (ram st) p [(sz, False)]" "20 \<le> unat t" "unat t \<le> sz" "p + sz \<le> HEAP_END"
  defines "st' \<equiv> kmalloc_take (of_nat p) t st"
  shows "seg (ram st') p (split_block (unat t) sz)"
    "agree_on (- range_of p sz) (ram st) (ram st')"
    "used_memory st' = used_memory st + of_nat (used_sum (split_block (unat t) sz))"
    "heap_start st' = heap_start st" "total_memory st' = total_memory st"
proof -
  have h: "hdr (ram st) (of_nat p) = (of_nat sz, 0, nxt (p + sz))" and sz: "20 \<le> sz"
    using assms(1) by simp_all
  have "seg (ram st') p (split_block (unat t) sz)
    \<and> agree_on (- range_of p sz) (ram st) (ram st')
    \<and> used_memory st' = used_memory st + of_nat (used_sum (split_block (unat t) sz))
    \<and> heap_start st' = heap_start st \<and> total_memory st' = total_memory st"
  proof (cases "unat t + 28 \<le> sz")
    case True
    note e = kmalloc_take_split [OF h assms(2,4) True, folded st'_def]
    have "nxt (p + unat t) = of_nat (p + unat t)"
      using True assms(4) by (intro nxt_less) simp
    with e assms(2) True show ?thesis by (simp add: split_block_def)
  next
    case False
    then have "sz < unat t + 28" by simp
    note e = kmalloc_take_whole [OF h assms(2,3,4) this, folded st'_def]
    have u: "unat (of_nat p :: addr) = p" using assms(4) by (simp add: of_nat_addr)
    have "agree_on (- range_of p sz) (ram st) (ram st')"
      unfolding e(1) using u sz assms(4)
      by (intro agree_on_set agree_on_refl) (auto simp: heap_consts)
    with e h False sz show ?thesis by (simp add: split_block_def fields_of_hdr)
  qed
  then show "seg (ram st') p (split_block (unat t) sz)"
    "agree_on (- range_of p sz) (ram st) (ram st')"
    "used_memory st' = used_memory st + of_nat (used_sum (split_block (unat t) sz))"
    "heap_start st' = heap_start st" "total_memory st' = total_memory st" by blast+
qed

lemma bsum_split_block: "t \<le> sz \<Longrightarrow> bsum (split_block t sz) = sz"
  by (simp add: split_block_def)

text \<open>Replacing a segment in the middle keeps its neighbours.\<close>

lemma seg_replace:
  assumes "seg m a (xs @ zs @ ys)" "a + bsum (xs @ zs @ ys) \<le> HEAP_END"
    and "seg m' (a + bsum xs) zs'" "bsum zs' = bsum zs"
    and "agree_on (- range_of (a + bsum xs) (bsum zs)) m m'"
  shows "seg m' a (xs @ zs' @ ys)"
proof -
  have "seg m' a xs"
    using assms by (intro seg_frame [OF _ _ assms(5)]) (auto simp: seg_append)
  moreover have "seg m' (a + bsum xs + bsum zs) ys"
    using assms by (intro seg_frame [OF _ _ assms(5)]) (auto simp: seg_append)
  ultimately show ?thesis using assms(3,4) by (simp add: seg_append add.assoc)
qed

text \<open>
  A successful allocation, as a whole: the state stands for the list the specification gives,
  and only bytes of the free block that was taken have changed.
\<close>

lemma kmalloc_take_rep:
  assumes rep: "heap_rep st (xs @ (sz, False) # ys)"
    and t: "20 \<le> unat t" "unat t \<le> sz" "4 dvd unat t"
  defines "p \<equiv> HEAP_START + bsum xs"
  shows "heap_rep (kmalloc_take (of_nat p) t st) (xs @ split_block (unat t) sz @ ys)"
    "agree_on (- range_of p sz) (ram st) (ram (kmalloc_take (of_nat p) t st))"
proof -
  have tot: "HEAP_START + bsum (xs @ [(sz, False)] @ ys) = HEAP_END"
    and sg: "seg (ram st) HEAP_START (xs @ [(sz, False)] @ ys)"
    using rep by (simp_all add: heap_rep_def HEAP_END_def)
  have p: "p + sz \<le> HEAP_END" "seg (ram st) p [(sz, False)]"
    using tot sg by (simp_all add: p_def seg_append)
  note e = seg_split_block [OF p(2) t(1,2) p(1)]
  show "agree_on (- range_of p sz) (ram st) (ram (kmalloc_take (of_nat p) t st))" by (rule e(2))
  have "seg (ram (kmalloc_take (of_nat p) t st)) HEAP_START (xs @ split_block (unat t) sz @ ys)"
    using sg tot e(1,2) t(2) by (intro seg_replace [OF sg]) (simp_all add: p_def bsum_split_block)
  moreover have "coalesced (xs @ split_block (unat t) sz @ ys)"
    using rep by (auto simp: heap_rep_def coalesced_append coalesced_Cons split_block_def)
  moreover have "\<forall>b\<in>set (split_block (unat t) sz). 4 dvd fst b"
    using rep t by (auto simp: heap_rep_def split_block_def)
  ultimately show "heap_rep (kmalloc_take (of_nat p) t st) (xs @ split_block (unat t) sz @ ys)"
    using rep e(3,4,5) t(2) by (auto simp: heap_rep_def bsum_split_block)
qed

section \<open>kmalloc implements first fit\<close>

text \<open>Rounding up to eight bytes and adding the header.\<close>

definition malloc_total :: "nat \<Rightarrow> nat" where
  "malloc_total n = (n + 7) div 8 * 8 + 12"

lemma align8: "unat ((x :: u32) AND NOT 7) = unat x div 8 * 8"
proof -
  have seven: "(7 :: u32) = mask 3" by (simp add: mask_eq_exp_minus_1)
  have "bit (7 :: u32) n \<longleftrightarrow> n < 3" if "n < 32" for n
    using that unfolding seven by (simp only: bit_mask_iff) auto
  then have "x AND NOT 7 = push_bit 3 (drop_bit 3 x)"
    by (intro bit_word_eqI) (auto simp: bit_simps)
  moreover have "unat x div 8 * 8 < 2 ^ 32"
    using unat_u32_lt [of x] by (rule le_less_trans [rotated]) simp
  ultimately show ?thesis
    by (simp add: push_bit_eq_mult drop_bit_eq_div unat_word_ariths unat_div)
qed

lemma unat_malloc_total:
  assumes "unat (sz :: u32) \<le> 0xFFFFFFF0"
  shows "unat (request_size sz) = malloc_total (unat sz)"
proof -
  have "unat (sz + 7) = unat sz + 7"
    using assms unat_offset [of sz 7] by simp
  then have *: "unat ((sz + 7) AND NOT 7) = (unat sz + 7) div 8 * 8" by (simp only: align8)
  have "(unat sz + 7) div 8 * 8 \<le> 0xFFFFFFF0" using assms by auto
  moreover have "unat (y + 12) = unat y + 12" if "unat y \<le> 0xFFFFFFF0" for y :: u32
    using that unat_offset [of y 12] by simp
  ultimately show ?thesis
    unfolding request_size_def Let_def malloc_total_def * [symmetric] by blast
qed

lemma malloc_total_bounds: "0 < n \<Longrightarrow> 20 \<le> malloc_total n" "n + 12 \<le> malloc_total n"
  "4 dvd malloc_total n"
  by (auto simp: malloc_total_def)

text \<open>The call, on a sound heap and for every size that does not overflow the computation.\<close>

lemma kmalloc_eq:
  assumes "heap_rep st bs" "0 < unat sz" "unat sz \<le> 0xFFFFFFF0"
  shows "kmalloc sz st =
    (case alloc_list HEAP_START (malloc_total (unat sz)) bs of
       None \<Rightarrow> Some (NULL, st)
     | Some (p, bs') \<Rightarrow> Some (of_nat p + 12, kmalloc_take (of_nat p) (request_size sz) st))"
proof -
  have "heap_start st = nxt HEAP_START"
    using assms(1) by (simp add: heap_rep_def nxt_def heap_consts)
  then show ?thesis
    using assms kmalloc_loop_refines [of st HEAP_START bs "request_size sz"]
    by (auto simp: kmalloc_def heap_rep_def HEAP_END_def unat_malloc_total HEAP_START_def)
qed

text \<open>The three things a successful call guarantees, and the failing call.\<close>

lemma kmalloc_SomeE:
  assumes "heap_rep st bs" "0 < unat sz" "unat sz \<le> 0xFFFFFFF0"
  obtains (fail) "kmalloc sz st = Some (NULL, st)" "\<forall>b\<in>set bs. snd b \<or> fst b < malloc_total (unat sz)"
  | (ok) st' xs n ys where "kmalloc sz st = Some (of_nat (HEAP_START + bsum xs) + 12, st')"
      "bs = xs @ (n, False) # ys" "malloc_total (unat sz) \<le> n"
      "\<forall>b\<in>set xs. snd b \<or> fst b < malloc_total (unat sz)"
      "heap_rep st' (xs @ split_block (malloc_total (unat sz)) n @ ys)"
      "agree_on (- range_of (HEAP_START + bsum xs) n) (ram st) (ram st')"
proof (cases "alloc_list HEAP_START (malloc_total (unat sz)) bs")
  case None
  then have "kmalloc sz st = Some (NULL, st)" by (simp add: kmalloc_eq [OF assms])
  with None show ?thesis by (intro fail) (simp_all add: alloc_list_None)
next
  case (Some r)
  obtain p bs' where r: "r = (p, bs')" by (cases r)
  with Some obtain xs n ys where d: "bs = xs @ (n, False) # ys" "p = HEAP_START + bsum xs"
    "malloc_total (unat sz) \<le> n" "bs' = xs @ split_block (malloc_total (unat sz)) n @ ys"
    "\<forall>b\<in>set xs. snd b \<or> fst b < malloc_total (unat sz)"
    by (auto elim: alloc_list_SomeE)
  let ?t = "request_size sz"
  have t: "unat ?t = malloc_total (unat sz)" using assms(3) by (rule unat_malloc_total)
  have "20 \<le> unat ?t" "unat ?t \<le> n" "4 dvd unat ?t"
    using malloc_total_bounds [of "unat sz"] assms(2) d(3) t by auto
  note rep = kmalloc_take_rep [OF assms(1) [unfolded d(1)] this]
  show ?thesis
    using rep d t Some r assms by (intro ok [OF _ d(1,3,5)]) (auto simp: kmalloc_eq)
qed

section \<open>kfree implements release and coalesce\<close>

text \<open>The bytes of the blocks that are not in use.\<close>

primrec frees :: "nat \<Rightarrow> blocks \<Rightarrow> addr set" where
  "frees a [] = {}"
| "frees a (b # bs) = (if snd b then {} else range_of a (fst b)) \<union> frees (a + fst b) bs"

lemma frees_append: "frees a (xs @ ys) = frees a xs \<union> frees (a + bsum xs) ys"
  by (induction xs arbitrary: a) (auto simp: add.assoc)

definition absorb :: "nat \<Rightarrow> blocks \<Rightarrow> nat \<times> blocks" where
  "absorb sz ys = (case ys of (s, False) # zs \<Rightarrow> (sz + s, zs) | _ \<Rightarrow> (sz, ys))"

definition dealloc :: "blocks \<Rightarrow> nat \<Rightarrow> blocks \<Rightarrow> blocks" where
  "dealloc xs sz ys =
     (if xs \<noteq> [] \<and> \<not> snd (last xs)
      then butlast xs @ (fst (last xs) + fst (absorb sz ys), False) # snd (absorb sz ys)
      else xs @ (fst (absorb sz ys), False) # snd (absorb sz ys))"

lemma absorb_cases:
  obtains "absorb sz ys = (sz, ys)" "ys = [] \<or> snd (hd ys)"
  | s zs where "ys = (s, False) # zs" "absorb sz ys = (sz + s, zs)"
proof (cases ys)
  case Nil
  then show ?thesis by (intro that(1)) (simp_all add: absorb_def)
next
  case (Cons y zs)
  obtain s u where y: "y = (s, u)" by (cases y)
  show ?thesis
  proof (cases u)
    case True
    with Cons y show ?thesis by (intro that(1)) (simp_all add: absorb_def)
  next
    case False
    with Cons y show ?thesis by (intro that(2)) (simp_all add: absorb_def)
  qed
qed

lemma header_range: "a + 12 \<le> HEAP_END \<Longrightarrow> unat (of_nat a :: addr) + 12 \<le> 2 ^ 32
    \<and> range_of (unat (of_nat a :: addr)) 12 = range_of a 12"
  using of_nat_addr [of a] by (simp add: heap_consts)

lemma coalesce_next_seg:
  assumes "seg m p ((sz, False) # ys)" "p + sz + bsum ys = HEAP_END" "0 < p"
  defines "m' \<equiv> coalesce_next m (of_nat p)"
  shows "seg m' p ((fst (absorb sz ys), False) # snd (absorb sz ys))
    \<and> agree_on (- range_of p 12) m m'"
proof -
  have h: "blk_size m (of_nat p) = of_nat sz" "blk_used m (of_nat p) = 0"
    "blk_next m (of_nat p) = nxt (p + sz)" and sz: "20 \<le> sz" and ys: "seg m (p + sz) ys"
    using assms(1) by (simp_all add: fields_of_hdr)
  show ?thesis
  proof (cases rule: absorb_cases [of sz ys])
    case 1
    have "m' = m"
    proof (cases ys)
      case Nil
      then have "nxt (p + sz) = NULL" using assms(2) by (simp add: nxt_def)
      with h show ?thesis by (simp add: m'_def coalesce_next_def)
    next
      case (Cons y zs)
      with 1 ys have "blk_used m (of_nat (p + sz)) = 1" "20 \<le> fst y"
        by (simp_all add: fields_of_hdr)
      moreover have "nxt (p + sz) = of_nat (p + sz)"
        using Cons assms(2) \<open>20 \<le> fst y\<close> by (intro nxt_less) simp
      ultimately show ?thesis using h by (simp add: m'_def coalesce_next_def)
    qed
    with 1 assms(1) show ?thesis by simp
  next
    case (2 s zs)
    let ?n = "of_nat (p + sz) :: addr"
    have y: "hdr m ?n = (of_nat s, 0, nxt (p + sz + s))" "20 \<le> s" "seg m (p + sz + s) zs"
      using ys 2 by simp_all
    have e: "p + sz + s \<le> HEAP_END" using assms(2) 2 by simp
    then have nx: "nxt (p + sz) = ?n" "?n \<noteq> 0"
      using y(2) assms(3) by (simp_all add: nxt_less of_nat_addr_nonzero del: of_nat_add)
    have ap: "apart (of_nat p) ?n"
      using header_range [of p] header_range [of "p + sz"] of_nat_addr [of p] of_nat_addr [of "p + sz"]
        e sz y(2) by (auto simp: apart_def simp del: of_nat_add)
    define m1 where "m1 = set_size m (of_nat p) (of_nat sz + of_nat s)"
    have "hdr m1 ?n = hdr m ?n" using ap by (simp add: m1_def hdr_set_apart del: of_nat_add)
    then have "blk_next m1 ?n = nxt (p + sz + s)" using y(1) by (simp add: hdr_def del: of_nat_add)
    then have m': "m' = set_next m1 (of_nat p) (nxt (p + sz + s))"
      using h nx y(1) by (simp add: m'_def coalesce_next_def Let_def m1_def fields_of_hdr
          del: of_nat_add)
    have "agree_on (- range_of p 12) m m'"
      using header_range [of p] e sz unfolding m' m1_def
      by (intro agree_on_set agree_on_refl) auto
    moreover from this have "seg m' (p + sz + s) zs"
      using y(3) assms(2) 2 sz by (intro seg_frame [OF y(3) _ \<open>agree_on _ m m'\<close>]) auto
    moreover have "hdr m' (of_nat p) = (of_nat (sz + s), 0, nxt (p + sz + s))"
      using h by (simp add: m' m1_def)
    ultimately show ?thesis using 2 sz by (simp add: add.assoc)
  qed
qed

lemma coalesce_prev_seg:
  assumes "seg m q ((sl, ul) # (sz, False) # ys)" "q + sl + sz + bsum ys = HEAP_END" "0 < q"
  defines "m' \<equiv> coalesce_prev m (of_nat q) (of_nat (q + sl))"
  shows "ul \<Longrightarrow> m' = m"
    "\<not> ul \<Longrightarrow> seg m' q ((sl + sz, False) # ys) \<and> agree_on (- range_of q 12) m m'"
proof -
  let ?q = "of_nat q :: addr" and ?b = "of_nat (q + sl) :: addr"
  have h: "blk_size m ?q = of_nat sl" "blk_used m ?q = of_bool ul"
    "hdr m ?b = (of_nat sz, 0, nxt (q + sl + sz))" "20 \<le> sl" "20 \<le> sz" "seg m (q + sl + sz) ys"
    using assms(1) by (simp_all add: fields_of_hdr)
  have qn: "?q \<noteq> 0" using assms(2,3) by (intro of_nat_addr_nonzero) simp_all
  show "ul \<Longrightarrow> m' = m" using h by (simp add: m'_def coalesce_prev_def)
  assume ul: "\<not> ul"
  have ap: "apart ?q ?b"
    using header_range [of q] header_range [of "q + sl"] of_nat_addr [of q] of_nat_addr [of "q + sl"]
      assms(2) h by (auto simp: apart_def simp del: of_nat_add)
  define m1 where "m1 = set_size m ?q (of_nat sl + of_nat sz)"
  have "hdr m1 ?b = hdr m ?b" using ap by (simp add: m1_def hdr_set_apart del: of_nat_add)
  then have "blk_next m1 ?b = nxt (q + sl + sz)" using h(3) by (simp add: hdr_def del: of_nat_add)
  then have m': "m' = set_next m1 ?q (nxt (q + sl + sz))"
    using h qn ul by (simp add: m'_def coalesce_prev_def Let_def m1_def fields_of_hdr
        del: of_nat_add)
  have "agree_on (- range_of q 12) m m'"
    using header_range [of q] assms(2) h unfolding m' m1_def
    by (intro agree_on_set agree_on_refl) auto
  moreover from this have "seg m' (q + sl + sz) ys"
    using assms(2) h by (intro seg_frame [OF h(6) _ \<open>agree_on _ m m'\<close>]) auto
  moreover have "hdr m' ?q = (of_nat (sl + sz), 0, nxt (q + sl + sz))"
    using h ul by (simp add: m' m1_def)
  ultimately show "seg m' q ((sl + sz, False) # ys) \<and> agree_on (- range_of q 12) m m'"
    using h by (simp add: add.assoc)
qed

text \<open>The search for the predecessor: NULL for the first block, the block before otherwise.\<close>

lemma kfree_prev_none:
  "seg m a bs \<Longrightarrow> a + bsum bs = HEAP_END \<Longrightarrow> 0 < b \<Longrightarrow> b \<le> a \<Longrightarrow>
    kfree_prev m (nxt a) (of_nat b) = Some NULL"
proof (induction bs arbitrary: a)
  case Nil
  then show ?case by (simp add: kfree_prev.simps nxt_def)
next
  case (Cons c bs)
  have h: "blk_next m (of_nat a) = nxt (a + fst c)" "20 \<le> fst c"
    using Cons.prems(1) by (simp_all add: fields_of_hdr)
  have IH: "kfree_prev m (nxt (a + fst c)) (of_nat b) = Some NULL"
    using Cons.prems by (intro Cons.IH) simp_all
  have na: "nxt a = of_nat a" using Cons.prems(2) h(2) by (intro nxt_less) simp
  have "nxt (a + fst c) \<noteq> of_nat b"
  proof (cases "a + fst c = HEAP_END")
    case True
    then show ?thesis using of_nat_addr_nonzero [of b] Cons.prems by (simp add: nxt_def)
  next
    case False
    then have "nxt (a + fst c) = of_nat (a + fst c)" by (simp add: nxt_def)
    moreover have "unat (of_nat (a + fst c) :: addr) = a + fst c" "unat (of_nat b :: addr) = b"
      using Cons.prems h(2) by (simp_all add: of_nat_addr del: of_nat_add)
    ultimately show ?thesis using Cons.prems(4) h(2) by auto
  qed
  then show ?case unfolding na by (subst kfree_prev.simps) (simp add: h(1) IH)
qed

lemma kfree_prev_found:
  "seg m a (us @ (sl, ul) # v # vs) \<Longrightarrow> a + bsum (us @ (sl, ul) # v # vs) = HEAP_END \<Longrightarrow> 0 < a \<Longrightarrow>
    kfree_prev m (nxt a) (of_nat (a + bsum us + sl)) = Some (of_nat (a + bsum us))"
proof (induction us arbitrary: a)
  case Nil
  then have "20 \<le> fst v" "20 \<le> sl" by simp_all
  with Nil.prems have "nxt a = of_nat a" "nxt (a + sl) = of_nat (a + sl)"
    by (intro nxt_less, simp)+
  moreover have "blk_next m (of_nat a) = nxt (a + sl)"
    using Nil.prems(1) by (simp add: fields_of_hdr)
  ultimately show ?case by (subst kfree_prev.simps) simp
next
  case (Cons u us)
  have h: "blk_next m (of_nat a) = nxt (a + fst u)" "20 \<le> fst u" "20 \<le> sl" "20 \<le> fst v"
    using Cons.prems(1) by (simp_all add: fields_of_hdr seg_append)
  have na: "nxt a = of_nat a" "(of_nat a :: addr) \<noteq> 0"
    using Cons.prems(2,3) h(2) of_nat_addr_nonzero [of a] by (simp_all add: nxt_less)
  have "nxt (a + fst u) = of_nat (a + fst u)"
    using Cons.prems(2) h by (intro nxt_less) simp
  moreover have "(of_nat (a + fst u) :: addr) \<noteq> of_nat (a + bsum (u # us) + sl)"
    using Cons.prems(2) h(3) by (subst of_nat_addr_eq) simp_all
  ultimately have "nxt (a + fst u) \<noteq> of_nat (a + bsum (u # us) + sl)" by simp
  moreover have "kfree_prev m (nxt (a + fst u)) (of_nat (a + fst u + bsum us + sl))
      = Some (of_nat (a + fst u + bsum us))"
    using Cons.prems h(2) by (intro Cons.IH) (simp_all add: add.assoc)
  ultimately show ?case
    unfolding na(1) by (subst kfree_prev.simps) (simp add: na(2) h(1) add.assoc)
qed

lemma dealloc_cases:
  obtains (keep) "xs = [] \<or> snd (last xs)"
      "dealloc xs sz ys = xs @ (fst (absorb sz ys), False) # snd (absorb sz ys)"
  | (merge) us sl where "xs = us @ [(sl, False)]"
      "dealloc xs sz ys = us @ (sl + fst (absorb sz ys), False) # snd (absorb sz ys)"
proof (cases "xs \<noteq> [] \<and> \<not> snd (last xs)")
  case True
  then have "xs = butlast xs @ [(fst (last xs), False)]"
    by (metis append_butlast_last_id prod.collapse)
  with True show ?thesis by (intro merge [of "butlast xs"]) (simp_all add: dealloc_def)
next
  case False
  then show ?thesis by (intro keep) (auto simp: dealloc_def)
qed

lemma absorb_props:
  "fst (absorb sz ys) + bsum (snd (absorb sz ys)) = sz + bsum ys"
  "used_sum (snd (absorb sz ys)) = used_sum ys"
  "sz \<le> fst (absorb sz ys)"
  "\<forall>b\<in>set ys. 4 dvd fst b \<Longrightarrow> 4 dvd sz \<Longrightarrow> 4 dvd fst (absorb sz ys)"
  "set (snd (absorb sz ys)) \<subseteq> set ys"
  "coalesced ys \<Longrightarrow> coalesced ((fst (absorb sz ys), False) # snd (absorb sz ys))"
  by (cases rule: absorb_cases [of sz ys]; auto simp: coalesced_Cons)+

lemma dealloc_props:
  shows "bsum (dealloc xs sz ys) = bsum xs + sz + bsum ys"
    "used_sum (dealloc xs sz ys) = used_sum xs + used_sum ys"
    "\<forall>b\<in>set (xs @ (sz, True) # ys). 4 dvd fst b \<Longrightarrow> \<forall>b\<in>set (dealloc xs sz ys). 4 dvd fst b"
    "coalesced (xs @ (sz, True) # ys) \<Longrightarrow> coalesced (dealloc xs sz ys)"
    "range_of (a + bsum xs) sz \<subseteq> frees a (dealloc xs sz ys)"
    "xs = us @ [(sl, False)] \<Longrightarrow> range_of (a + bsum us) sl \<subseteq> frees a (dealloc xs sz ys)"
proof -
  note ab = absorb_props [where sz = sz and ys = ys]
  show "bsum (dealloc xs sz ys) = bsum xs + sz + bsum ys"
    using ab(1) by (cases rule: dealloc_cases [where xs = xs and sz = sz and ys = ys]) simp_all
  show "used_sum (dealloc xs sz ys) = used_sum xs + used_sum ys"
    using ab(2) by (cases rule: dealloc_cases [where xs = xs and sz = sz and ys = ys]) simp_all
  show "\<forall>b\<in>set (xs @ (sz, True) # ys). 4 dvd fst b \<Longrightarrow> \<forall>b\<in>set (dealloc xs sz ys). 4 dvd fst b"
    using ab(4,5) by (cases rule: dealloc_cases [where xs = xs and sz = sz and ys = ys]) auto
  show "coalesced (xs @ (sz, True) # ys) \<Longrightarrow> coalesced (dealloc xs sz ys)"
    using ab(6)
    by (cases rule: dealloc_cases [where xs = xs and sz = sz and ys = ys]) (auto simp: coalesced_append coalesced_Cons)
  show "range_of (a + bsum xs) sz \<subseteq> frees a (dealloc xs sz ys)"
    using ab(3) by (cases rule: dealloc_cases [where xs = xs and sz = sz and ys = ys]) (auto simp: frees_append)
  assume "xs = us @ [(sl, False)]"
  then have "dealloc xs sz ys = us @ (sl + fst (absorb sz ys), False) # snd (absorb sz ys)"
    by (simp add: dealloc_def)
  then show "range_of (a + bsum us) sl \<subseteq> frees a (dealloc xs sz ys)"
    by (auto simp: frees_append)
qed

text \<open>\<^verbatim>\<open>kfree\<close> up to the merge with the next block, and the merge with the previous one.\<close>

lemma kfree_merge_next:
  assumes sg: "seg m HEAP_START (xs @ (sz, True) # ys)" and tot: "HEAP_START + bsum xs + sz + bsum ys = HEAP_END"
  defines "p \<equiv> HEAP_START + bsum xs"
  defines "m2 \<equiv> coalesce_next (set_used m (of_nat p) 0) (of_nat p)"
  shows "seg m2 HEAP_START xs" "seg m2 p ((fst (absorb sz ys), False) # snd (absorb sz ys))"
    "agree_on (- range_of p 12) m m2" "blk_used m2 (of_nat p) = 0"
proof -
  let ?p = "of_nat p :: addr"
  have p0: "0 < p" by (simp add: p_def heap_consts)
  from sg have h: "hdr m ?p = (of_nat sz, 1, nxt (p + sz))" "20 \<le> sz" "seg m HEAP_START xs" "seg m (p + sz) ys"
    by (simp_all add: seg_append p_def)
  note tot = tot [folded p_def]
  have rng: "unat ?p + 12 \<le> 2 ^ 32" "range_of (unat ?p) 12 = range_of p 12"
    using header_range [of p] tot h(2) by simp_all
  define m1 where "m1 = set_used m ?p 0"
  have a1: "agree_on (- range_of p 12) m m1"
    unfolding m1_def using rng by (intro agree_on_set agree_on_refl) auto
  have s1: "seg m1 p ((sz, False) # ys)"
    using h tot by (auto simp: m1_def fields_of_hdr intro!: seg_frame [OF h(4) _ a1 [unfolded m1_def]])
  have x1: "seg m1 HEAP_START xs"
    using tot by (intro seg_frame [OF h(3) _ a1]) (auto simp: p_def)
  have c2: "seg m2 p ((fst (absorb sz ys), False) # snd (absorb sz ys))" "agree_on (- range_of p 12) m1 m2"
    using coalesce_next_seg [OF s1 tot p0] by (simp_all add: m2_def m1_def)
  then show "seg m2 p ((fst (absorb sz ys), False) # snd (absorb sz ys))" "blk_used m2 ?p = 0"
    by (simp_all add: fields_of_hdr)
  show "seg m2 HEAP_START xs"
    using tot by (intro seg_frame [OF x1 _ c2(2)]) (auto simp: p_def)
  show "agree_on (- range_of p 12) m m2" using a1 c2(2) by (rule agree_on_trans)
qed

lemma kfree_merge_prev:
  fixes xs ys :: blocks and sz :: nat
  defines "sz' \<equiv> fst (absorb sz ys)" and "ys' \<equiv> snd (absorb sz ys)" and "p \<equiv> HEAP_START + bsum xs"
  assumes x2: "seg m2 HEAP_START xs" and c2: "seg m2 p ((sz', False) # ys')" and u2: "blk_used m2 (of_nat p) = 0"
    and tot: "p + sz + bsum ys = HEAP_END" and pos: "20 \<le> sz" and hs: "hs = nxt HEAP_START"
  shows "\<exists>prev. kfree_prev m2 hs (of_nat p) = Some prev
      \<and> seg (coalesce_prev m2 prev (of_nat p)) HEAP_START (dealloc xs sz ys)
      \<and> agree_on (- frees HEAP_START (dealloc xs sz ys)) m2 (coalesce_prev m2 prev (of_nat p))
      \<and> blk_used (coalesce_prev m2 prev (of_nat p)) (of_nat p) = 0"
proof -
  let ?p = "of_nat p :: addr"
  have p0: "0 < p" "p \<ge> HEAP_START" by (simp_all add: p_def heap_consts)
  have rng: "unat ?p + 12 \<le> 2 ^ 32" using header_range [of p] tot pos by simp
  have sums: "sz' + bsum ys' = sz + bsum ys"
    using absorb_props(1) [where sz = sz and ys = ys] by (simp add: sz'_def ys'_def)
  show ?thesis
  proof (cases "xs = []")
    case True
    then have "dealloc xs sz ys = (sz', False) # ys'" by (simp add: dealloc_def sz'_def ys'_def)
    moreover have "kfree_prev m2 hs ?p = Some NULL"
      using c2(1) sums tot True p0 hs kfree_prev_none [of m2 p "(sz', False) # ys'" p]
      by (simp add: p_def)
    ultimately show ?thesis using c2(1) True u2 by (simp add: coalesce_prev_def p_def)
  next
    case False
    then obtain us sl ul where xs: "xs = us @ [(sl, ul)]" by (metis rev_exhaust surj_pair)
    define q where "q = HEAP_START + bsum us"
    have pq: "p = q + sl" by (simp add: p_def q_def xs)
    have s2: "seg m2 HEAP_START (us @ (sl, ul) # (sz', False) # ys')"
      using x2 c2(1) by (simp add: xs seg_append p_def add.assoc)
    have kp: "kfree_prev m2 hs ?p = Some (of_nat q)"
      using kfree_prev_found [OF s2] tot sums hs by (simp add: pq q_def heap_consts)
    have sq: "seg m2 q ((sl, ul) # (sz', False) # ys')" "0 < q"
      using s2 by (simp_all add: seg_append q_def heap_consts)
    have tq: "q + sl + sz' + bsum ys' = HEAP_END" using tot sums pq by simp
    note cp = coalesce_prev_seg [OF sq(1) tq sq(2), folded pq]
    show ?thesis
    proof (cases ul)
      case True
      with xs have "dealloc xs sz ys = xs @ (sz', False) # ys'"
        by (simp add: dealloc_def sz'_def ys'_def)
      with kp cp(1) [OF True] s2 xs True u2 show ?thesis by auto
    next
      case ul: False
      let ?m3 = "coalesce_prev m2 (of_nat q) ?p"
      have d: "dealloc xs sz ys = us @ (sl + sz', False) # ys'"
        using xs ul by (simp add: dealloc_def sz'_def ys'_def)
      have m3: "seg ?m3 q ((sl + sz', False) # ys')" "agree_on (- range_of q 12) m2 ?m3"
        using cp(2) [OF ul] by blast+
      have "?p + 4 \<in> - range_of q 12"
        using header_offsets(1) [OF rng(1)] of_nat_addr [of p] pq sq(1) tot by auto
      then have u3: "blk_used ?m3 ?p = 0"
        using u2 agree_onD [OF m3(2)] by (simp add: blk_used_def)
      have "seg ?m3 HEAP_START us"
        using s2 tq sq(1) by (intro seg_frame [OF _ _ m3(2)]) (auto simp: seg_append q_def)
      moreover have "range_of q 12 \<subseteq> frees HEAP_START (dealloc xs sz ys)"
        using sq(1) by (auto simp: d frees_append q_def)
      then have "agree_on (- frees HEAP_START (dealloc xs sz ys)) m2 ?m3"
        by (intro agree_on_mono [OF m3(2)]) blast
      ultimately show ?thesis
        using kp m3(1) u3 by (simp add: d seg_append q_def)
    qed
  qed
qed

text \<open>
  A call on the block of an allocated pointer: it returns, the heap stands for the list with
  that block freed, and only bytes of blocks that are now free have changed.
\<close>

lemma kfree_rep:
  assumes rep: "heap_rep st (xs @ (sz, True) # ys)"
  defines "p \<equiv> HEAP_START + bsum xs"
  obtains st' where "kfree (of_nat p + 12) st = Some st'" "heap_rep st' (dealloc xs sz ys)"
    "agree_on (- frees HEAP_START (dealloc xs sz ys)) (ram st) (ram st')"
    "blk_used (ram st') (of_nat p) = 0"
proof -
  let ?p = "of_nat p :: addr"
  have sg: "seg (ram st) HEAP_START (xs @ (sz, True) # ys)" and tot: "HEAP_START + bsum xs + sz + bsum ys = HEAP_END"
    and hs: "heap_start st = nxt HEAP_START"
    using rep by (simp_all add: heap_rep_def HEAP_END_def nxt_def heap_consts)
  from sg have h: "hdr (ram st) ?p = (of_nat sz, 1, nxt (p + sz))" "20 \<le> sz" by (simp_all add: seg_append p_def)
  have nonnull: "?p + 12 \<noteq> NULL"
    using unat_offset [of ?p 12] of_nat_addr [of p] tot h(2) by (auto simp: heap_consts p_def)
  define m2 where "m2 = coalesce_next (set_used (ram st) ?p 0) ?p"
  note n = kfree_merge_next [OF sg tot, folded p_def, folded m2_def]
  obtain prev where prev: "kfree_prev m2 (heap_start st) ?p = Some prev"
    "seg (coalesce_prev m2 prev ?p) HEAP_START (dealloc xs sz ys)"
    "agree_on (- frees HEAP_START (dealloc xs sz ys)) m2 (coalesce_prev m2 prev ?p)"
    "blk_used (coalesce_prev m2 prev ?p) ?p = 0"
    using kfree_merge_prev [OF n(1) n(2) [unfolded p_def] n(4) [unfolded p_def] tot h(2) hs, folded p_def] by blast
  define st' where "st' = st\<lparr>ram := coalesce_prev m2 prev ?p,
    used_memory := used_memory st - of_nat sz\<rparr>"
  note dp = dealloc_props [where xs = xs and sz = sz and ys = ys]
  show thesis
  proof (rule that)
    show "kfree (of_nat p + 12) st = Some st'"
      using nonnull h(1) prev(1)
      by (simp add: kfree_def Let_def fields_of_hdr m2_def [symmetric] st'_def)
    show "heap_rep st' (dealloc xs sz ys)"
    proof -
      have "coalesced (dealloc xs sz ys)" "\<forall>b\<in>set (dealloc xs sz ys). 4 dvd fst b"
        using rep dp(3,4) unfolding heap_rep_def by blast+
      with rep prev(2) show ?thesis
        by (simp add: heap_rep_def st'_def dp(1,2))
    qed
    have "range_of p 12 \<subseteq> range_of p sz" using h(2) by auto
    with dp(5) [of HEAP_START] have "range_of p 12 \<subseteq> frees HEAP_START (dealloc xs sz ys)"
      unfolding p_def by blast
    then have "agree_on (- frees HEAP_START (dealloc xs sz ys)) (ram st) m2"
      by (intro agree_on_mono [OF n(3)]) blast
    then show "agree_on (- frees HEAP_START (dealloc xs sz ys)) (ram st) (ram st')"
      using prev(3) by (simp add: st'_def agree_on_trans)
    show "blk_used (ram st') (of_nat p) = 0" using prev(4) by (simp add: st'_def)
  qed
qed

text \<open>On a coalesced heap, looking at the two neighbours is the whole of \<open>coalesce\<close>.\<close>

lemma coalesce_id: "coalesced bs \<Longrightarrow> coalesce bs = bs"
proof (induction bs)
  case (Cons b bs)
  then show ?case by (cases bs; cases b; cases "hd bs") (auto simp: coalesced_Cons)
qed simp

lemma coalesce_freed:
  assumes "coalesced (xs @ (sz, True) # ys)"
  shows "coalesce (xs @ (sz, False) # ys) = dealloc xs sz ys"
proof -
  have step: "coalesce ((s, False) # ys) = (fst (absorb s ys), False) # snd (absorb s ys)"
    if "coalesced ys" for s
  proof (cases rule: absorb_cases [of s ys])
    case 1
    with that show ?thesis by (cases ys; cases "hd ys") (auto simp: coalesce_id coalesced_Cons)
  next
    case (2 t zs)
    with that have "coalesce ((s + t, False) # zs) = (s + t, False) # zs"
      by (intro coalesce_id) (auto simp: coalesced_Cons)
    with 2 show ?thesis by simp
  qed
  have co: "coalesced xs" "coalesced ys" using assms by (simp_all add: coalesced_append coalesced_Cons)
  show ?thesis
  proof (cases rule: dealloc_cases [where xs = xs and sz = sz and ys = ys])
    case keep
    have "coalesce (xs @ (sz, False) # ys) = xs @ coalesce ((sz, False) # ys)"
      using co(1) keep(1)
    proof (induction xs)
      case (Cons b xs)
      then show ?case by (cases b; cases xs; cases "hd xs") (auto simp: coalesced_Cons split: if_splits)
    qed simp
    with keep(2) step [OF co(2)] show ?thesis by simp
  next
    case (merge us sl)
    have "coalesce (us @ (sl, False) # (sz, False) # ys) = us @ coalesce ((sl + sz, False) # ys)"
      using co(1) unfolding merge(1)
    proof (induction us)
      case (Cons b us)
      then show ?case by (cases b; cases us; cases "hd us") (auto simp: coalesced_Cons)
    qed simp
    moreover have "absorb (sl + sz) ys = (sl + fst (absorb sz ys), snd (absorb sz ys))"
      by (cases rule: absorb_cases [of sz ys]) (auto simp: absorb_def split: list.splits bool.splits prod.splits)
    ultimately show ?thesis using merge step [OF co(2)] by simp
  qed
qed

lemma release_above: "\<forall>b\<in>set bs. 0 < fst b \<Longrightarrow> a + bsum bs \<le> p \<Longrightarrow> release a p bs = bs"
  by (induction a p bs rule: release.induct) auto

lemma release_below: "p < a \<Longrightarrow> release a p bs = bs"
  by (induction a p bs rule: release.induct) auto

lemma release_append: "release a p (xs @ ys) = release a p xs @ release (a + bsum xs) p ys"
  by (induction a p xs rule: release.induct) (auto simp: add.assoc)

lemma seg_pos: "seg m a bs \<Longrightarrow> \<forall>b\<in>set bs. 0 < fst b"
  by (induction bs arbitrary: a) auto

lemma free_list_dealloc:
  assumes "heap_rep st (xs @ (sz, True) # ys)"
  shows "free_list HEAP_START (HEAP_START + bsum xs) (xs @ (sz, True) # ys) = dealloc xs sz ys"
proof -
  have "seg (ram st) HEAP_START (xs @ (sz, True) # ys)" using assms by (simp add: heap_rep_def)
  from seg_pos [OF this] have "\<forall>b\<in>set xs. 0 < fst b" "0 < sz" by auto
  then have "release HEAP_START (HEAP_START + bsum xs) (xs @ (sz, True) # ys) = xs @ (sz, False) # ys"
    by (simp add: release_append release_above release_below)
  then show ?thesis
    using assms coalesce_freed by (simp add: free_list_def heap_rep_def)
qed

end
