(* ===== verification/Allocator.thy ===== *)
theory Allocator
  imports CMem
begin

text \<open>
  The contract between the heap and its clients (the file system, \<^verbatim>\<open>krealloc\<close>, the shell): what
  a client may rely on when it calls the allocator and writes through the pointers it owns.
  \<open>owns s p n\<close> says that \<open>p\<close> is a pointer the allocator handed out and that \<open>n\<close> bytes from
  \<open>p\<close> on belong to the caller; \<open>arena\<close> is the memory the allocator manages.
\<close>

locale allocator =
  fixes alloc :: "u32 \<Rightarrow> 's \<Rightarrow> (addr \<times> 's) option"
    and free :: "addr \<Rightarrow> 's \<Rightarrow> 's option"
    and memof :: "'s \<Rightarrow> mem"
    and setmem :: "mem \<Rightarrow> 's \<Rightarrow> 's"
    and ok :: "'s \<Rightarrow> bool"
    and owns :: "'s \<Rightarrow> addr \<Rightarrow> nat \<Rightarrow> bool"
    and arena :: "addr set"
    and limit :: nat
  assumes memof_setmem [simp]: "memof (setmem m s) = m"
    and setmem_setmem [simp]: "setmem m (setmem m' s) = setmem m s"
    and owns_bounds: "owns s p n \<Longrightarrow> p \<noteq> NULL \<and> unat p + n \<le> 2 ^ 32 \<and> range_of (unat p) n \<subseteq> arena"
    and owns_fun: "owns s p n \<Longrightarrow> owns s p k \<Longrightarrow> n = k"
    and owns_disjoint: "owns s p n \<Longrightarrow> owns s q k \<Longrightarrow> p \<noteq> q \<Longrightarrow>
      range_of (unat p) n \<inter> range_of (unat q) k = {}"
    and alloc_law: "ok s \<Longrightarrow> 0 < unat sz \<Longrightarrow> unat sz \<le> limit \<Longrightarrow>
      \<exists>p s'. alloc sz s = Some (p, s') \<and> ok s' \<and>
        (p = NULL \<and> s' = s \<or>
         p \<noteq> NULL \<and> (\<forall>k. \<not> owns s p k)
         \<and> (\<exists>n. unat sz \<le> n \<and> (\<forall>q k. owns s' q k \<longleftrightarrow> owns s q k \<or> q = p \<and> k = n))
         \<and> agree_on (- arena) (memof s) (memof s')
         \<and> (\<forall>q k. owns s q k \<longrightarrow> agree_on (range_of (unat q) k) (memof s) (memof s')))"
    and free_law: "ok s \<Longrightarrow> owns s p n \<Longrightarrow>
      \<exists>s'. free p s = Some s' \<and> ok s'
        \<and> (\<forall>q k. owns s' q k \<longleftrightarrow> owns s q k \<and> q \<noteq> p)
        \<and> agree_on (- arena) (memof s) (memof s')
        \<and> (\<forall>q k. owns s q k \<longrightarrow> q \<noteq> p \<longrightarrow> agree_on (range_of (unat q) k) (memof s) (memof s'))"
    and write_law: "ok s \<Longrightarrow> owns s p n \<Longrightarrow> agree_on (- range_of (unat p) n) (memof s) m \<Longrightarrow>
      ok (setmem m s) \<and> (\<forall>q k. owns (setmem m s) q k \<longleftrightarrow> owns s q k)"
    and write_outside_law: "ok s \<Longrightarrow> agree_on arena (memof s) m \<Longrightarrow>
      ok (setmem m s) \<and> (\<forall>q k. owns (setmem m s) q k \<longleftrightarrow> owns s q k)"
begin

text \<open>
  Memory a client can count on while it calls the allocator: outside the arena, or inside a
  block it owns.
\<close>

definition safe :: "'s \<Rightarrow> addr set \<Rightarrow> bool" where
  "safe s S \<longleftrightarrow> S \<inter> arena = {} \<or> (\<exists>q k. owns s q k \<and> S \<subseteq> range_of (unat q) k)"

lemma safe_agree:
  assumes "safe s S" "agree_on (- arena) (memof s) m"
    and "\<And>q k. owns s q k \<Longrightarrow> agree_on (range_of (unat q) k) (memof s) m"
  shows "agree_on S (memof s) m"
  using assms unfolding safe_def agree_on_def by blast

text \<open>
  A successful allocation followed by writes into the new block only: everybody else keeps their
  blocks and their bytes.
\<close>

lemma alloc_and_fill:
  assumes ok: "ok s" and sz: "0 < unat sz" "unat sz \<le> limit"
    and al: "alloc sz s = Some (p, s')" "p \<noteq> NULL"
    and m: "agree_on (- range_of (unat p) (unat sz)) (memof s') m"
  shows "ok (setmem m s')" "\<forall>k. \<not> owns s p k" "unat p + unat sz \<le> 2 ^ 32"
    "\<exists>n. unat sz \<le> n \<and> (\<forall>q k. owns (setmem m s') q k \<longleftrightarrow> owns s q k \<or> q = p \<and> k = n)"
    "agree_on (- arena) (memof s) m"
    "\<forall>q k. owns s q k \<longrightarrow> agree_on (range_of (unat q) k) (memof s) m"
proof -
  from alloc_law [OF ok sz] al obtain n where
    s': "ok s'" "\<forall>k. \<not> owns s p k" "unat sz \<le> n"
    "\<forall>q k. owns s' q k \<longleftrightarrow> owns s q k \<or> q = p \<and> k = n"
    "agree_on (- arena) (memof s) (memof s')"
    "\<forall>q k. owns s q k \<longrightarrow> agree_on (range_of (unat q) k) (memof s) (memof s')" by auto
  then have p: "owns s' p n" by blast
  note pb = owns_bounds [OF p]
  have "range_of (unat p) (unat sz) \<subseteq> range_of (unat p) n" using s'(3) by auto
  then have fr: "agree_on (- range_of (unat p) n) (memof s') m"
    by (intro agree_on_mono [OF m]) blast
  from write_law [OF s'(1) p fr]
  have w: "ok (setmem m s')" "\<forall>q k. owns (setmem m s') q k \<longleftrightarrow> owns s' q k" by simp_all
  show "ok (setmem m s')" by (rule w)
  show "\<forall>k. \<not> owns s p k" by (rule s')
  show "unat p + unat sz \<le> 2 ^ 32" using pb s'(3) by simp
  show "\<exists>n. unat sz \<le> n \<and> (\<forall>q k. owns (setmem m s') q k \<longleftrightarrow> owns s q k \<or> q = p \<and> k = n)"
    using w(2) s'(3,4) by auto
  show "agree_on (- arena) (memof s) m"
    using agree_on_mono [OF fr] pb by (intro agree_on_trans [OF s'(5)]) blast
  show "\<forall>q k. owns s q k \<longrightarrow> agree_on (range_of (unat q) k) (memof s) m"
  proof (intro allI impI)
    fix q k assume q: "owns s q k"
    then have "owns s' q k" "q \<noteq> p" using s'(2,4) by blast+
    from owns_disjoint [OF this(1) p this(2)] have "range_of (unat q) k \<subseteq> - range_of (unat p) n"
      by blast
    with s'(6) q agree_on_mono [OF fr] show "agree_on (range_of (unat q) k) (memof s) m"
      by (blast intro: agree_on_trans)
  qed
qed

text \<open>A source the client can count on is still there after the call, and is not in the new block.\<close>

lemma source_kept:
  assumes ok: "ok s" and sz: "0 < unat sz" "unat sz \<le> limit"
    and al: "alloc sz s = Some (p, s')" "p \<noteq> NULL" and src: "safe s S"
  shows "agree_on S (memof s) (memof s')" "S \<inter> range_of (unat p) (unat sz) = {}"
proof -
  from alloc_law [OF ok sz] al obtain n where
    s': "\<forall>k. \<not> owns s p k" "unat sz \<le> n"
    "\<forall>q k. owns s' q k \<longleftrightarrow> owns s q k \<or> q = p \<and> k = n"
    "agree_on (- arena) (memof s) (memof s')"
    "\<forall>q k. owns s q k \<longrightarrow> agree_on (range_of (unat q) k) (memof s) (memof s')" by auto
  then have p: "owns s' p n" by blast
  show "agree_on S (memof s) (memof s')"
    using safe_agree [OF src s'(4)] s'(5) by blast
  have "S \<inter> range_of (unat p) n = {}"
    using src unfolding safe_def
  proof (elim disjE exE conjE)
    fix q k assume q: "owns s q k" "S \<subseteq> range_of (unat q) k"
    then have "owns s' q k" "q \<noteq> p" using s'(1,3) by blast+
    from owns_disjoint [OF this(1) p this(2)] q(2) show ?thesis by blast
  qed (use owns_bounds [OF p] in blast)
  moreover have "range_of (unat p) (unat sz) \<subseteq> range_of (unat p) n" using s'(2) by auto
  ultimately show "S \<inter> range_of (unat p) (unat sz) = {}" by blast
qed

text \<open>Allocating a block and copying into it: the bytes arrive.\<close>

lemma alloc_and_copy:
  assumes ok: "ok s" and sz: "0 < unat sz" "unat sz \<le> limit" and len: "unat len \<le> unat sz"
    and src: "safe s (range_of (unat src) (unat len))" "unat src + unat len \<le> 2 ^ 32"
    and al: "alloc sz s = Some (p, s')" "p \<noteq> NULL"
  shows "agree_on (- range_of (unat p) (unat sz)) (memof s') (memcpy (memof s') p src len)"
    "bytes_at (memcpy (memof s') p src len) p (unat len) = bytes_at (memof s) src (unat len)"
proof -
  have pz: "unat p + unat sz \<le> 2 ^ 32"
    by (rule alloc_and_fill(3) [OF ok sz al agree_on_refl])
  have sub: "range_of (unat p) (unat len) \<subseteq> range_of (unat p) (unat sz)" using len by auto
  show "agree_on (- range_of (unat p) (unat sz)) (memof s') (memcpy (memof s') p src len)"
    using sub pz len by (intro agree_on_memcpy) auto
  note k = source_kept [OF ok sz al src(1)]
  show "bytes_at (memcpy (memof s') p src len) p (unat len) = bytes_at (memof s) src (unat len)"
  proof (cases "unat len = 0")
    case False
    then have "unat p + unat len \<le> unat src \<or> unat src + unat len \<le> unat p"
      using sub k(2) pz len src(2) by (intro range_overlap) auto
    then have "bytes_at (memcpy (memof s') p src len) p (unat len) = bytes_at (memof s') src (unat len)"
      using pz len src(2) by (intro bytes_at_memcpy) auto
    with bytes_at_cong [OF k(1) src(2)] show ?thesis by simp
  qed simp
qed

end

end
