(* ===== verification/Heap_Own.thy ===== *)
theory Heap_Own
  imports Heap Allocator
begin

text \<open>
  The heap as its callers see it: which pointers are live, that live blocks never overlap, and
  that the allocator of \<^theory_text>\<open>Heap\<close> keeps the contract of the locale \<open>allocator\<close>. Then the
  properties of \<^verbatim>\<open>kmalloc\<close>, \<^verbatim>\<open>kfree\<close>, \<^verbatim>\<open>kcalloc\<close> and \<^verbatim>\<open>krealloc\<close>.
\<close>

section \<open>Live blocks\<close>

lemma placed_iff:
  "(p, n) \<in> set (placed a bs) \<longleftrightarrow> (\<exists>xs ys. bs = xs @ (n, True) # ys \<and> p = a + bsum xs)"
proof (induction bs arbitrary: a)
  case (Cons b bs)
  show ?case
  proof
    assume "(p, n) \<in> set (placed a (b # bs))"
    then consider "snd b" "p = a" "n = fst b" | "(p, n) \<in> set (placed (a + fst b) bs)"
      by (auto split: if_splits)
    then show "\<exists>xs ys. b # bs = xs @ (n, True) # ys \<and> p = a + bsum xs"
    proof cases
      case 1
      then have "b # bs = [] @ (n, True) # bs \<and> p = a + bsum []" by (simp add: prod_eq_iff)
      then show ?thesis by blast
    next
      case 2
      then obtain xs ys where "bs = xs @ (n, True) # ys" "p = a + fst b + bsum xs"
        using Cons.IH by blast
      then have "b # bs = (b # xs) @ (n, True) # ys \<and> p = a + bsum (b # xs)" by simp
      then show ?thesis by blast
    qed
  next
    assume "\<exists>xs ys. b # bs = xs @ (n, True) # ys \<and> p = a + bsum xs"
    then obtain xs ys where xs: "b # bs = xs @ (n, True) # ys" "p = a + bsum xs" by blast
    show "(p, n) \<in> set (placed a (b # bs))"
    proof (cases xs)
      case Nil
      with xs show ?thesis by auto
    next
      case (Cons c xs')
      then have "bs = xs' @ (n, True) # ys \<and> p = a + fst b + bsum xs'" using xs by simp
      with Cons.IH have "(p, n) \<in> set (placed (a + fst b) bs)" by blast
      then show ?thesis by simp
    qed
  qed
qed simp

lemma placed_bounds: "(p, n) \<in> set (placed a bs) \<Longrightarrow> a \<le> p \<and> p + n \<le> a + bsum bs"
  by (auto simp: placed_iff)

lemma placed_size: "seg m a bs \<Longrightarrow> (p, n) \<in> set (placed a bs) \<Longrightarrow> 20 \<le> n"
  by (auto simp: placed_iff seg_append)

lemma placed_disjoint:
  "(p, n) \<in> set (placed a bs) \<Longrightarrow> (q, k) \<in> set (placed a bs) \<Longrightarrow>
    p = q \<and> n = k \<or> p + n \<le> q \<or> q + k \<le> p"
proof (induction bs arbitrary: a)
  case (Cons b bs)
  then show ?case
    using placed_bounds [of p n "a + fst b" bs] placed_bounds [of q k "a + fst b" bs]
    by (auto split: if_splits)
qed simp

lemma frees_above: "x \<in> frees a bs \<Longrightarrow> a \<le> unat x"
  by (induction bs arbitrary: a) (fastforce split: if_splits)+

lemma placed_frees:
  "(p, n) \<in> set (placed a bs) \<Longrightarrow> range_of p n \<inter> frees a bs = {}"
proof (induction bs arbitrary: a)
  case (Cons b bs)
  from Cons.prems consider "snd b" "p = a" "n = fst b" | "(p, n) \<in> set (placed (a + fst b) bs)"
    by (auto split: if_splits)
  then show ?case
  proof cases
    case 1
    then show ?thesis by (fastforce dest: frees_above)
  next
    case 2
    then have "range_of p n \<inter> frees (a + fst b) bs = {}" by (rule Cons.IH)
    moreover have "a + fst b \<le> p" using placed_bounds [OF 2] by simp
    ultimately show ?thesis by auto
  qed
qed simp

lemma placed_hdrs:
  "seg m a bs \<Longrightarrow> (p, n) \<in> set (placed a bs) \<Longrightarrow> range_of (p + 12) (n - 12) \<inter> hdrs a bs = {}"
proof (induction bs arbitrary: a)
  case (Cons b bs)
  have hs: "hdrs (a + fst b) bs \<subseteq> range_of (a + fst b) (bsum bs)"
    using Cons.prems(1) by (intro hdrs_subset [of m]) simp
  from Cons.prems(2) consider "p = a" "n = fst b" | "(p, n) \<in> set (placed (a + fst b) bs)"
    by (auto split: if_splits)
  then show ?case
  proof cases
    case 1
    then show ?thesis using hs by fastforce
  next
    case 2
    then have "range_of (p + 12) (n - 12) \<inter> hdrs (a + fst b) bs = {}"
      using Cons.prems(1) by (intro Cons.IH) simp_all
    moreover have "a + fst b \<le> p" using placed_bounds [OF 2] by simp
    ultimately show ?thesis using Cons.prems(1) by auto
  qed
qed simp

section \<open>Ownership\<close>

text \<open>
  \<open>owns st ptr n\<close>: the heap is sound and \<open>ptr\<close> points behind the header of a block in use that
  has room for \<open>n\<close> bytes.
\<close>

definition heap_ok :: "mm \<Rightarrow> bool" where
  "heap_ok st \<longleftrightarrow> (\<exists>bs. heap_rep st bs)"

definition owns :: "mm \<Rightarrow> addr \<Rightarrow> nat \<Rightarrow> bool" where
  "owns st ptr n \<longleftrightarrow> (\<exists>bs p. heap_rep st bs \<and> (p, n + 12) \<in> set (placed HEAP_START bs)
     \<and> ptr = of_nat (p + 12))"

definition arena :: "addr set" where
  "arena = range_of HEAP_START HEAP_SIZE"

lemma owns_rep:
  assumes "heap_rep st bs"
  shows "owns st ptr n \<longleftrightarrow> (\<exists>p. (p, n + 12) \<in> set (placed HEAP_START bs) \<and> ptr = of_nat (p + 12))"
  using heap_rep_unique [OF assms] assms unfolding owns_def by blast

lemma placed_addr:
  assumes "heap_rep st bs" "(p, n + 12) \<in> set (placed HEAP_START bs)"
  shows "unat (of_nat (p + 12) :: addr) = p + 12" "HEAP_START \<le> p" "p + 12 + n \<le> HEAP_END" "8 \<le> n"
proof -
  have "seg (ram st) HEAP_START bs" "HEAP_START + bsum bs = HEAP_END"
    using assms(1) by (simp_all add: heap_rep_def HEAP_END_def)
  with placed_bounds [OF assms(2)] placed_size [OF _ assms(2)]
  show "HEAP_START \<le> p" "p + 12 + n \<le> HEAP_END" "8 \<le> n" by fastforce+
  then show "unat (of_nat (p + 12) :: addr) = p + 12" by (intro of_nat_addr) simp
qed

lemma ownsE:
  assumes "owns st ptr n"
  obtains bs p where "heap_rep st bs" "(p, n + 12) \<in> set (placed HEAP_START bs)"
    "ptr = of_nat (p + 12)" "unat ptr = p + 12" "HEAP_START \<le> p" "p + 12 + n \<le> HEAP_END" "8 \<le> n"
proof -
  from assms obtain bs p where *: "heap_rep st bs" "(p, n + 12) \<in> set (placed HEAP_START bs)"
    "ptr = of_nat (p + 12)" by (auto simp: owns_def)
  note pa = placed_addr [OF *(1,2)]
  show thesis by (rule that [OF * _ pa(2,3,4)]) (simp only: *(3) pa(1))
qed

lemma owns_arena:
  assumes "owns st ptr n"
  shows "ptr \<noteq> NULL \<and> unat ptr + n \<le> 2 ^ 32 \<and> range_of (unat ptr) n \<subseteq> arena"
  using assms
proof (rule ownsE)
  fix bs p
  assume "unat ptr = p + 12" "HEAP_START \<le> p" "p + 12 + n \<le> HEAP_END"
  then show ?thesis by (auto simp: arena_def HEAP_END_def heap_consts)
qed

lemma owns_unique: "owns st p n \<Longrightarrow> owns st p k \<Longrightarrow> n = k"
proof (elim ownsE)
  fix bs q bs' q'
  assume *: "heap_rep st bs" "(q, n + 12) \<in> set (placed HEAP_START bs)" "unat p = q + 12"
    "heap_rep st bs'" "(q', k + 12) \<in> set (placed HEAP_START bs')" "unat p = q' + 12"
  then have "bs' = bs" "q' = q" using heap_rep_unique by auto
  with * have "(q, n + 12) \<in> set (placed HEAP_START bs)" "(q, k + 12) \<in> set (placed HEAP_START bs)"
    by simp_all
  from placed_disjoint [OF this] show "n = k" by auto
qed

lemma owns_separate:
  "owns st p n \<Longrightarrow> owns st q k \<Longrightarrow> p \<noteq> q \<Longrightarrow> range_of (unat p) n \<inter> range_of (unat q) k = {}"
proof (elim ownsE)
  fix bs r bs' r'
  assume *: "p \<noteq> q" "heap_rep st bs" "(r, n + 12) \<in> set (placed HEAP_START bs)" "unat p = r + 12"
    "heap_rep st bs'" "(r', k + 12) \<in> set (placed HEAP_START bs')" "unat q = r' + 12"
  then have "bs' = bs" "r \<noteq> r'" using heap_rep_unique by (auto simp: word_unat_eq_iff)
  with * placed_disjoint [of r "n + 12" HEAP_START bs r' "k + 12"]
  have "r + (n + 12) \<le> r' \<or> r' + (k + 12) \<le> r" by auto
  with * show ?thesis by (intro range_of_disjoint) auto
qed

section \<open>The heap keeps the allocator contract\<close>

text \<open>The blocks in use after a block was split off, and after one was freed.\<close>

lemma placed_split:
  assumes "t \<le> n"
  shows "\<exists>c. t \<le> c \<and> c \<le> n \<and> (c = t \<or> c = n) \<and>
    set (placed a (xs @ split_block t n @ ys)) =
      insert (a + bsum xs, c) (set (placed a (xs @ (n, False) # ys)))"
proof (cases "t + 28 \<le> n")
  case True
  then have "set (placed a (xs @ split_block t n @ ys)) =
      insert (a + bsum xs, t) (set (placed a (xs @ (n, False) # ys)))"
    by (auto simp: split_block_def placed_append add.assoc)
  with assms show ?thesis by blast
next
  case False
  then have "set (placed a (xs @ split_block t n @ ys)) =
      insert (a + bsum xs, n) (set (placed a (xs @ (n, False) # ys)))"
    by (auto simp: split_block_def placed_append add.assoc)
  with assms show ?thesis by blast
qed

lemma placed_dealloc:
  "set (placed a (dealloc xs sz ys)) = set (placed a xs) \<union> set (placed (a + bsum xs + sz) ys)"
proof -
  have ab: "placed (b + fst (absorb sz ys)) (snd (absorb sz ys)) = placed (b + sz) ys" for b
    by (cases rule: absorb_cases [of sz ys]) (simp_all add: add.assoc)
  show ?thesis
    using ab [of "a + bsum xs"]
    by (cases rule: dealloc_cases [where xs = xs and sz = sz and ys = ys])
      (simp_all add: placed_append add.assoc)
qed

lemma payload_frame:
  assumes "heap_rep st bs" "agree_on (- frees HEAP_START bs) (ram st) m" "owns st q k"
  shows "agree_on (range_of (unat q) k) (ram st) m"
proof -
  from assms(1,3) obtain p where p: "(p, k + 12) \<in> set (placed HEAP_START bs)" "q = of_nat (p + 12)"
    using owns_rep by blast
  with placed_addr(1) [OF assms(1) p(1)] have "unat q = p + 12" by simp
  then have "range_of (unat q) k \<subseteq> range_of p (k + 12)" by auto
  with placed_frees [OF p(1)] have "range_of (unat q) k \<subseteq> - frees HEAP_START bs" by blast
  with assms(2) show ?thesis by (rule agree_on_mono)
qed

lemma frees_arena: "heap_rep st bs \<Longrightarrow> frees HEAP_START bs \<subseteq> arena"
proof -
  have "frees a bs \<subseteq> range_of a (bsum bs)" for a
  proof (induction bs arbitrary: a)
    case (Cons b bs)
    have "range_of (a + fst b) (bsum bs) \<union> range_of a (fst b) \<subseteq> range_of a (bsum (b # bs))" by auto
    with Cons.IH [of "a + fst b"] show ?case by auto
  qed simp
  then show "heap_rep st bs \<Longrightarrow> frees HEAP_START bs \<subseteq> arena"
    by (simp add: heap_rep_def arena_def)
qed

lemma kmalloc_owns:
  assumes "heap_ok st" "0 < unat sz" "unat sz \<le> 0xFFFFFFF0"
  shows "\<exists>p st'. kmalloc sz st = Some (p, st') \<and> heap_ok st' \<and>
      (p = NULL \<and> st' = st \<or>
       p \<noteq> NULL \<and> (\<forall>k. \<not> owns st p k)
       \<and> (\<exists>n. unat sz \<le> n \<and> (\<forall>q k. owns st' q k \<longleftrightarrow> owns st q k \<or> q = p \<and> k = n))
       \<and> agree_on (- arena) (ram st) (ram st')
       \<and> (\<forall>q k. owns st q k \<longrightarrow> agree_on (range_of (unat q) k) (ram st) (ram st')))"
proof -
  from assms(1) obtain bs where rep: "heap_rep st bs" by (auto simp: heap_ok_def)
  show ?thesis
  proof (cases rule: kmalloc_SomeE [OF rep assms(2,3), case_names fail taken])
    case fail
    with assms(1) show ?thesis by auto
  next
    case (taken st' xs n ys)
    let ?t = "malloc_total (unat sz)" and ?a = "HEAP_START + bsum xs"
    let ?bs' = "xs @ split_block ?t n @ ys"
    from placed_split [OF taken(3)] obtain c where c: "?t \<le> c"
      "set (placed HEAP_START ?bs') = insert (?a, c) (set (placed HEAP_START bs))"
      unfolding taken(2) by blast
    have c12: "unat sz + 12 \<le> c" "c - 12 + 12 = c"
      using c(1) malloc_total_bounds(2) [of "unat sz"] by simp_all
    have new: "(?a, c - 12 + 12) \<in> set (placed HEAP_START ?bs')" using c c12 by simp
    note na = placed_addr [OF taken(5) new]
    let ?p = "of_nat (?a + 12) :: addr"
    have ow: "owns st' q k \<longleftrightarrow> owns st q k \<or> q = ?p \<and> k = c - 12" for q k
      unfolding owns_rep [OF rep] owns_rep [OF taken(5)] c(2) using c12 by auto
    have "seg (ram st) HEAP_START bs" using rep by (simp add: heap_rep_def)
    then have szs: "20 \<le> n" "\<And>q k. (q, k) \<in> set (placed HEAP_START xs) \<Longrightarrow> 20 \<le> k"
      unfolding taken(2) by (auto simp: seg_append intro: placed_size)
    have fresh: "\<not> owns st ?p k" for k
    proof
      assume "owns st ?p k"
      then obtain q where q: "(q, k + 12) \<in> set (placed HEAP_START bs)" "?p = of_nat (q + 12)"
        using owns_rep [OF rep] by blast
      have "q = ?a"
        using arg_cong [OF q(2), of unat] placed_addr(1) [OF rep q(1)] na(1) by simp
      moreover have "q + (k + 12) \<le> ?a \<or> ?a + n \<le> q"
        using q(1) placed_bounds [of q "k + 12" HEAP_START xs]
          placed_bounds [of q "k + 12" "?a + n" ys]
        unfolding taken(2) by (auto simp: placed_append)
      ultimately show False using szs(1) by simp
    qed
    have sub: "range_of ?a n \<subseteq> frees HEAP_START bs"
      unfolding taken(2) by (auto simp: frees_append)
    have fr: "agree_on (- frees HEAP_START bs) (ram st) (ram st')"
      using sub by (intro agree_on_mono [OF taken(6)]) blast
    have "owns st' ?p (c - 12)" using ow by blast
    then have "?p \<noteq> NULL" using owns_arena by blast
    moreover have "agree_on (- arena) (ram st) (ram st')"
      using frees_arena [OF rep] by (intro agree_on_mono [OF fr]) blast
    moreover have "unat sz \<le> c - 12" using c12 by simp
    moreover have "heap_ok st'" using taken(5) by (auto simp: heap_ok_def)
    moreover have "\<forall>q k. owns st q k \<longrightarrow> agree_on (range_of (unat q) k) (ram st) (ram st')"
      using payload_frame [OF rep fr] by blast
    moreover have "kmalloc sz st = Some (?p, st')" using taken(1) by simp
    ultimately show ?thesis using ow fresh by blast
  qed
qed

lemma kfree_owns:
  assumes "owns st p n"
  shows "\<exists>st'. kfree p st = Some st' \<and> heap_ok st'
      \<and> (\<forall>q k. owns st' q k \<longleftrightarrow> owns st q k \<and> q \<noteq> p)
      \<and> agree_on (- arena) (ram st) (ram st')
      \<and> (\<forall>q k. owns st q k \<longrightarrow> q \<noteq> p \<longrightarrow> agree_on (range_of (unat q) k) (ram st) (ram st'))"
proof -
  from assms obtain bs a where rep: "heap_rep st bs" and a: "(a, n + 12) \<in> set (placed HEAP_START bs)"
    and p: "p = of_nat (a + 12)" "unat p = a + 12" by (rule ownsE)
  from a obtain xs ys where bs: "bs = xs @ (n + 12, True) # ys" "a = HEAP_START + bsum xs"
    by (auto simp: placed_iff)
  from kfree_rep [OF rep [unfolded bs(1)]] obtain st' where
    st': "kfree (of_nat a + 12) st = Some st'" "heap_rep st' (dealloc xs (n + 12) ys)"
      "agree_on (- frees HEAP_START (dealloc xs (n + 12) ys)) (ram st) (ram st')"
    unfolding bs(2) by blast
  have pl: "set (placed HEAP_START (dealloc xs (n + 12) ys)) = set (placed HEAP_START bs) - {(a, n + 12)}"
  proof -
    have "(a, n + 12) \<notin> set (placed HEAP_START xs)" "(a, n + 12) \<notin> set (placed (a + (n + 12)) ys)"
      using placed_bounds [of a "n + 12" HEAP_START xs] placed_bounds [of a "n + 12" "a + (n + 12)" ys]
      by (auto simp: bs(2))
    then show ?thesis by (auto simp: placed_dealloc bs placed_append)
  qed
  have ow: "owns st' q k \<longleftrightarrow> owns st q k \<and> q \<noteq> p" for q k
  proof
    assume "owns st' q k"
    then obtain r where r: "(r, k + 12) \<in> set (placed HEAP_START bs)" "(r, k + 12) \<noteq> (a, n + 12)"
      "q = of_nat (r + 12)" using owns_rep [OF st'(2)] pl by blast
    from placed_disjoint [OF r(1) a] r(2) have "r \<noteq> a" by auto
    moreover have "unat q = r + 12" using placed_addr(1) [OF rep r(1)] r(3) by simp
    ultimately show "owns st q k \<and> q \<noteq> p" using r p(2) owns_rep [OF rep] by auto
  next
    assume *: "owns st q k \<and> q \<noteq> p"
    then obtain r where r: "(r, k + 12) \<in> set (placed HEAP_START bs)" "q = of_nat (r + 12)"
      using owns_rep [OF rep] by blast
    with * p(1) have "(r, k + 12) \<noteq> (a, n + 12)" by auto
    with r pl show "owns st' q k" using owns_rep [OF st'(2)] by blast
  qed
  have pf: "agree_on (range_of (unat q) k) (ram st) (ram st')" if "owns st q k" "q \<noteq> p" for q k
  proof -
    from that ow have "owns st' q k" by blast
    from payload_frame [OF st'(2) agree_on_sym [OF st'(3)] this] show ?thesis by (rule agree_on_sym)
  qed
  have "agree_on (- arena) (ram st) (ram st')"
    using frees_arena [OF st'(2)] by (intro agree_on_mono [OF st'(3)]) blast
  moreover have "kfree p st = Some st'" using st'(1) p(1) by simp
  moreover have "heap_ok st'" using st'(2) by (auto simp: heap_ok_def)
  ultimately show ?thesis using ow pf by blast
qed

text \<open>Writes through an owned pointer, and writes outside the heap, keep every block.\<close>

lemma heap_rep_write:
  assumes "heap_rep st bs" "agree_on (hdrs HEAP_START bs) (ram st) m"
  shows "heap_rep (st\<lparr>ram := m\<rparr>) bs"
  using assms seg_cong [OF assms(2)] by (simp add: heap_rep_def HEAP_END_def)

lemma owns_write_rep:
  assumes "heap_rep st bs" "agree_on (hdrs HEAP_START bs) (ram st) m"
  shows "heap_ok (st\<lparr>ram := m\<rparr>) \<and> (\<forall>q k. owns (st\<lparr>ram := m\<rparr>) q k \<longleftrightarrow> owns st q k)"
  using owns_rep [OF heap_rep_write [OF assms]] owns_rep [OF assms(1)] heap_rep_write [OF assms]
  unfolding heap_ok_def by blast

text \<open>Headers lie outside the bytes of a live block.\<close>

lemma owns_hdrs:
  assumes "heap_rep st bs" "owns st p n"
  shows "range_of (unat p) n \<inter> hdrs HEAP_START bs = {}"
proof -
  from assms obtain a where a: "(a, n + 12) \<in> set (placed HEAP_START bs)" "unat p = a + 12"
    by (metis ownsE heap_rep_unique)
  have "seg (ram st) HEAP_START bs" using assms(1) by (simp add: heap_rep_def)
  from placed_hdrs [OF this a(1)] a(2) show ?thesis by simp
qed

lemma owns_write:
  assumes "heap_ok st" "owns st p n" "agree_on (- range_of (unat p) n) (ram st) m"
  shows "heap_ok (st\<lparr>ram := m\<rparr>) \<and> (\<forall>q k. owns (st\<lparr>ram := m\<rparr>) q k \<longleftrightarrow> owns st q k)"
proof -
  from assms(1) obtain bs where rep: "heap_rep st bs" by (auto simp: heap_ok_def)
  have "agree_on (hdrs HEAP_START bs) (ram st) m"
    by (rule agree_on_mono [OF assms(3)]) (use owns_hdrs [OF rep assms(2)] in blast)
  with rep show ?thesis by (rule owns_write_rep)
qed

lemma owns_write_outside:
  assumes "heap_ok st" "agree_on arena (ram st) m"
  shows "heap_ok (st\<lparr>ram := m\<rparr>) \<and> (\<forall>q k. owns (st\<lparr>ram := m\<rparr>) q k \<longleftrightarrow> owns st q k)"
proof -
  from assms(1) obtain bs where rep: "heap_rep st bs" by (auto simp: heap_ok_def)
  then have "hdrs HEAP_START bs \<subseteq> arena"
    using hdrs_subset [of "ram st" HEAP_START bs] by (simp add: heap_rep_def arena_def)
  with assms(2) have "agree_on (hdrs HEAP_START bs) (ram st) m" by (rule agree_on_mono)
  with rep show ?thesis by (rule owns_write_rep)
qed

interpretation heap: allocator kmalloc kfree ram "\<lambda>m st. st\<lparr>ram := m\<rparr>" heap_ok owns arena "0xFFFFFFF0"
proof (unfold_locales, goal_cases)
  case (3 s p n)
  then show ?case by (rule owns_arena)
next
  case (4 s p n k)
  then show ?case by (rule owns_unique)
next
  case (5 s p n q k)
  then show ?case by (rule owns_separate)
next
  case (6 s sz)
  then show ?case by (rule kmalloc_owns)
next
  case (7 s p n)
  then show ?case by (intro kfree_owns)
next
  case (8 s p n m)
  then show ?case by (rule owns_write)
next
  case (9 s m)
  then show ?case by (rule owns_write_outside)
qed simp_all

end
