(* ===== verification/Ramfs.thy ===== *)
theory Ramfs
  imports Heap_Own CString
begin

text \<open>
  The RAM file system \<^verbatim>\<open>src/src/fs/ramfs.c\<close>: 64 entries of 44 bytes in a static table, file
  contents in heap blocks, one current directory name. The table and the name live in the same
  byte memory as everything else, at link-time addresses that the state carries as constants; a
  \<^verbatim>\<open>fs_file_t *\<close> is the address of an entry.
\<close>

section \<open>State and file entries\<close>

definition FS_MAX_FILES :: nat where "FS_MAX_FILES = 64"
definition FS_MAX_FILENAME :: nat where "FS_MAX_FILENAME = 32"
definition FS_MAX_FILESIZE :: u32 where "FS_MAX_FILESIZE = 64 * 1024"

definition FS_FLAG_FREE :: u8 where "FS_FLAG_FREE = 0x00"
definition FS_FLAG_USED :: u8 where "FS_FLAG_USED = 0x01"
definition FS_FLAG_DIRECTORY :: u8 where "FS_FLAG_DIRECTORY = 0x04"

lemmas fs_consts = FS_MAX_FILES_def FS_MAX_FILENAME_def FS_MAX_FILESIZE_def
  FS_FLAG_FREE_def FS_FLAG_USED_def FS_FLAG_DIRECTORY_def

text \<open>\<^verbatim>\<open>file_table\<close> and \<^verbatim>\<open>current_dir\<close> are the addresses of the two static arrays.\<close>

record ramfs =
  mm :: mm
  file_table :: addr
  current_dir :: addr
  fs_initialized :: int

abbreviation fs_ram :: "ramfs \<Rightarrow> mem" where
  "fs_ram st \<equiv> ram (mm st)"

definition set_ram :: "mem \<Rightarrow> ramfs \<Rightarrow> ramfs" where
  "set_ram m st = st\<lparr>mm := (mm st)\<lparr>ram := m\<rparr>\<rparr>"

text \<open>
  \<^verbatim>\<open>fs_file_t\<close> on x86-32: \<^verbatim>\<open>name\<close> at offset 0, \<^verbatim>\<open>data\<close> at 32, \<^verbatim>\<open>size\<close> at 36, \<^verbatim>\<open>flags\<close> at 40, and
  \<^verbatim>\<open>sizeof\<close> is 44.
\<close>

definition f_data :: "mem \<Rightarrow> addr \<Rightarrow> addr" where "f_data m f = load32 m (f + 32)"
definition f_size :: "mem \<Rightarrow> addr \<Rightarrow> u32" where "f_size m f = load32 m (f + 36)"
definition f_flags :: "mem \<Rightarrow> addr \<Rightarrow> u8" where "f_flags m f = m (f + 40)"

definition put_data :: "mem \<Rightarrow> addr \<Rightarrow> addr \<Rightarrow> mem" where "put_data m f v = store32 m (f + 32) v"
definition put_size :: "mem \<Rightarrow> addr \<Rightarrow> u32 \<Rightarrow> mem" where "put_size m f v = store32 m (f + 36) v"
definition put_flags :: "mem \<Rightarrow> addr \<Rightarrow> u8 \<Rightarrow> mem" where "put_flags m f v = m(f + 40 := v)"

text \<open>\<^verbatim>\<open>&file_table[i]\<close>\<close>

definition slot :: "addr \<Rightarrow> nat \<Rightarrow> addr" where
  "slot tab i = tab + of_nat (44 * i)"

definition f_used :: "mem \<Rightarrow> addr \<Rightarrow> bool" where
  "f_used m f \<longleftrightarrow> f_flags m f AND FS_FLAG_USED \<noteq> 0"

section \<open>Table operations\<close>

text \<open>The four stores that empty an entry.\<close>

definition clear_entry :: "mem \<Rightarrow> addr \<Rightarrow> mem" where
  "clear_entry m f = put_flags (put_size (put_data (m(f := 0)) f NULL) f 0) f FS_FLAG_FREE"

primrec fs_init_loop :: "mem \<Rightarrow> addr \<Rightarrow> nat \<Rightarrow> mem" where
  "fs_init_loop m tab 0 = m"
| "fs_init_loop m tab (Suc n) = clear_entry (fs_init_loop m tab n) (slot tab n)"

definition fs_init :: "ramfs \<Rightarrow> ramfs" where
  "fs_init st =
     set_ram (fs_init_loop (fs_ram st) (file_table st) FS_MAX_FILES) (st\<lparr>fs_initialized := 1\<rparr>)"

text \<open>The search loops: index \<open>i\<close>, and \<open>n\<close> entries still to visit.\<close>

primrec fs_find_loop :: "mem \<Rightarrow> addr \<Rightarrow> cptr \<Rightarrow> nat \<Rightarrow> nat \<Rightarrow> int option" where
  "fs_find_loop m tab name i 0 = Some (-1)"
| "fs_find_loop m tab name i (Suc n) =
     (if f_used m (slot tab i) then do {
        r \<leftarrow> strcmp m (Ptr (slot tab i)) name;
        if r = 0 then Some (int i) else fs_find_loop m tab name (Suc i) n
      }
      else fs_find_loop m tab name (Suc i) n)"

definition fs_find :: "cptr \<Rightarrow> ramfs \<Rightarrow> int option" where
  "fs_find name st = fs_find_loop (fs_ram st) (file_table st) name 0 FS_MAX_FILES"

primrec fs_find_free_loop :: "mem \<Rightarrow> addr \<Rightarrow> nat \<Rightarrow> nat \<Rightarrow> int" where
  "fs_find_free_loop m tab i 0 = -1"
| "fs_find_free_loop m tab i (Suc n) =
     (if f_used m (slot tab i) then fs_find_free_loop m tab (Suc i) n else int i)"

definition fs_find_free :: "ramfs \<Rightarrow> int" where
  "fs_find_free st = fs_find_free_loop (fs_ram st) (file_table st) 0 FS_MAX_FILES"

text \<open>The stores that fill a fresh entry, shared by \<^verbatim>\<open>fs_create\<close> and \<^verbatim>\<open>fs_mkdir\<close>.\<close>

definition new_entry :: "mem \<Rightarrow> addr \<Rightarrow> cptr \<Rightarrow> u8 \<Rightarrow> mem" where
  "new_entry m f name flags =
     (let m1 = strncpy m f name (of_nat FS_MAX_FILENAME - 1);
          m2 = m1(f + (of_nat FS_MAX_FILENAME - 1) := 0)
      in put_flags (put_size (put_data m2 f NULL) f 0) f flags)"

text \<open>
  The common body of \<^verbatim>\<open>fs_create\<close> and \<^verbatim>\<open>fs_mkdir\<close>, whose texts differ in the flags only. A name
  without a NUL never lets \<^verbatim>\<open>strlen\<close> return.
\<close>

definition fs_add :: "u8 \<Rightarrow> cptr \<Rightarrow> ramfs \<Rightarrow> (int \<times> ramfs) option" where
  "fs_add flags name st =
     (if name = Ptr NULL then Some (-1, st)
      else do {
        len \<leftarrow> strlen (fs_ram st) name;
        if len = 0 \<or> of_nat FS_MAX_FILENAME \<le> len then Some (-1, st)
        else do {
          idx \<leftarrow> fs_find name st;
          if 0 \<le> idx then Some (-2, st)
          else (let s = fs_find_free st
                in if s < 0 then Some (-3, st)
                   else Some (0, set_ram (new_entry (fs_ram st) (slot (file_table st) (nat s)) name flags) st))
        }
      })"

definition fs_create :: "cptr \<Rightarrow> ramfs \<Rightarrow> (int \<times> ramfs) option" where
  "fs_create = fs_add FS_FLAG_USED"

definition fs_mkdir :: "cptr \<Rightarrow> ramfs \<Rightarrow> (int \<times> ramfs) option" where
  "fs_mkdir = fs_add (FS_FLAG_USED OR FS_FLAG_DIRECTORY)"

definition fs_delete :: "cptr \<Rightarrow> ramfs \<Rightarrow> (int \<times> ramfs) option" where
  "fs_delete name st = do {
     idx \<leftarrow> fs_find name st;
     if idx < 0 then Some (-1, st)
     else (let f = slot (file_table st) (nat idx) in do {
       st' \<leftarrow> (if f_data (fs_ram st) f \<noteq> NULL
               then do { h \<leftarrow> kfree (f_data (fs_ram st) f) (mm st); Some (st\<lparr>mm := h\<rparr>) }
               else Some st);
       Some (0, set_ram (clear_entry (fs_ram st') f) st')
     })
   }"

definition fs_open :: "cptr \<Rightarrow> ramfs \<Rightarrow> addr option" where
  "fs_open name st = do {
     idx \<leftarrow> fs_find name st;
     Some (if idx < 0 then NULL else slot (file_table st) (nat idx))
   }"

section \<open>File operations\<close>

definition fs_read :: "addr \<Rightarrow> addr \<Rightarrow> u32 \<Rightarrow> u32 \<Rightarrow> ramfs \<Rightarrow> int \<times> ramfs" where
  "fs_read file buffer sz offset st =
     (let m = fs_ram st in
      if file = NULL \<or> buffer = NULL then (-1, st)
      else if f_size m file \<le> offset then (0, st)
      else (let available = f_size m file - offset;
                to_read = (if sz < available then sz else available)
            in (sint to_read,
                if f_data m file \<noteq> NULL
                then set_ram (memcpy m buffer (f_data m file + offset) to_read) st else st)))"

text \<open>Releasing the contents of a file: \<^verbatim>\<open>if (file->data != NULL) { kfree(file->data); ... }\<close>\<close>

definition drop_data :: "addr \<Rightarrow> ramfs \<Rightarrow> ramfs option" where
  "drop_data file st =
     (if f_data (fs_ram st) file \<noteq> NULL then do {
        h \<leftarrow> kfree (f_data (fs_ram st) file) (mm st);
        Some (set_ram (put_data (ram h) file NULL) (st\<lparr>mm := h\<rparr>))
      }
      else Some st)"

definition fs_write :: "addr \<Rightarrow> addr \<Rightarrow> u32 \<Rightarrow> ramfs \<Rightarrow> (int \<times> ramfs) option" where
  "fs_write file data sz st =
     (if file = NULL \<or> data = NULL then Some (-1, st)
      else if FS_MAX_FILESIZE < sz then Some (-2, st)
      else do {
        st1 \<leftarrow> drop_data file st;
        if 0 < sz then do {
          (p, h) \<leftarrow> kmalloc sz (mm st1);
          let st2 = set_ram (put_data (ram h) file p) (st1\<lparr>mm := h\<rparr>);
          if f_data (fs_ram st2) file = NULL then Some (-3, st2)
          else (let m3 = memcpy (fs_ram st2) (f_data (fs_ram st2) file) data sz
                in Some (sint sz, set_ram (put_size m3 file sz) st2))
        }
        else Some (sint sz, set_ram (put_size (fs_ram st1) file sz) st1)
      })"

definition fs_append :: "addr \<Rightarrow> addr \<Rightarrow> u32 \<Rightarrow> ramfs \<Rightarrow> (int \<times> ramfs) option" where
  "fs_append file data sz st =
     (if file = NULL \<or> data = NULL \<or> sz = 0 then Some (-1, st)
      else (let new_size = f_size (fs_ram st) file + sz in
        if FS_MAX_FILESIZE < new_size then Some (-2, st)
        else do {
          (new_data, h) \<leftarrow> kmalloc new_size (mm st);
          if new_data = NULL then Some (-3, st\<lparr>mm := h\<rparr>)
          else do {
            let m1 = (if f_data (ram h) file \<noteq> NULL \<and> 0 < f_size (ram h) file
                      then memcpy (ram h) new_data (f_data (ram h) file) (f_size (ram h) file)
                      else ram h);
            let m2 = memcpy m1 (new_data + f_size m1 file) data sz;
            h' \<leftarrow> (if f_data m2 file \<noteq> NULL then kfree (f_data m2 file) (h\<lparr>ram := m2\<rparr>)
                    else Some (h\<lparr>ram := m2\<rparr>));
            Some (sint sz,
                  set_ram (put_size (put_data (ram h') file new_data) file new_size) (st\<lparr>mm := h'\<rparr>))
          }
        }))"

definition fs_truncate :: "addr \<Rightarrow> ramfs \<Rightarrow> (int \<times> ramfs) option" where
  "fs_truncate file st =
     (if file = NULL then Some (-1, st)
      else do {
        st1 \<leftarrow> drop_data file st;
        Some (0, set_ram (put_size (fs_ram st1) file 0) st1)
      })"

section \<open>Listing and queries\<close>

text \<open>One used entry appended to the listing, when it fits with its newline and the NUL.\<close>

primrec fs_list_loop ::
  "addr \<Rightarrow> addr \<Rightarrow> u32 \<Rightarrow> nat \<Rightarrow> nat \<Rightarrow> mem \<Rightarrow> u32 \<Rightarrow> int \<Rightarrow> (int \<times> mem) option" where
  "fs_list_loop tab buffer buffer_size i 0 m pos count = Some (count, m)"
| "fs_list_loop tab buffer buffer_size i (Suc n) m pos count =
     (if f_used m (slot tab i) then do {
        name_len \<leftarrow> strlen m (Ptr (slot tab i));
        if pos + name_len + 2 < buffer_size then do {
          m1 \<leftarrow> strcpy m (buffer + pos) (Ptr (slot tab i));
          let pos1 = pos + name_len;
          let m2 = m1(buffer + pos1 := 10, buffer + (pos1 + 1) := 0);
          fs_list_loop tab buffer buffer_size (Suc i) n m2 (pos1 + 1) (count + 1)
        }
        else fs_list_loop tab buffer buffer_size (Suc i) n m pos count
      }
      else fs_list_loop tab buffer buffer_size (Suc i) n m pos count)"

definition fs_list :: "addr \<Rightarrow> u32 \<Rightarrow> ramfs \<Rightarrow> (int \<times> ramfs) option" where
  "fs_list buffer buffer_size st =
     (if buffer = NULL \<or> buffer_size = 0 then Some (-1, st)
      else do {
        (count, m) \<leftarrow> fs_list_loop (file_table st) buffer buffer_size 0 FS_MAX_FILES
          ((fs_ram st)(buffer := 0)) 0 0;
        Some (count, set_ram m st)
      })"

definition fs_exists :: "cptr \<Rightarrow> ramfs \<Rightarrow> bool option" where
  "fs_exists name st = do { idx \<leftarrow> fs_find name st; Some (0 \<le> idx) }"

primrec fs_count_loop :: "mem \<Rightarrow> addr \<Rightarrow> nat \<Rightarrow> nat \<Rightarrow> int \<Rightarrow> int" where
  "fs_count_loop m tab i 0 count = count"
| "fs_count_loop m tab i (Suc n) count =
     fs_count_loop m tab (Suc i) n (if f_used m (slot tab i) then count + 1 else count)"

definition fs_count :: "ramfs \<Rightarrow> int" where
  "fs_count st = fs_count_loop (fs_ram st) (file_table st) 0 FS_MAX_FILES 0"

definition fs_get_size :: "addr \<Rightarrow> ramfs \<Rightarrow> u32" where
  "fs_get_size file st = (if file \<noteq> NULL then f_size (fs_ram st) file else 0)"

text \<open>\<^verbatim>\<open>name\<close> is at offset 0, so \<^verbatim>\<open>file->name\<close> is the address of the entry.\<close>

definition fs_get_name :: "addr \<Rightarrow> cptr" where
  "fs_get_name file = (if file \<noteq> NULL then Ptr file else Ptr NULL)"

definition fs_is_dir :: "addr \<Rightarrow> ramfs \<Rightarrow> bool" where
  "fs_is_dir file st \<longleftrightarrow> file \<noteq> NULL \<and> f_flags (fs_ram st) file AND FS_FLAG_DIRECTORY \<noteq> 0"

section \<open>Directories\<close>

definition fs_rmdir :: "cptr \<Rightarrow> ramfs \<Rightarrow> (int \<times> ramfs) option" where
  "fs_rmdir name st = do {
     idx \<leftarrow> fs_find name st;
     if idx < 0 then Some (-1, st)
     else (let f = slot (file_table st) (nat idx)
           in if f_flags (fs_ram st) f AND FS_FLAG_DIRECTORY = 0 then Some (-2, st)
              else Some (0, set_ram (clear_entry (fs_ram st) f) st))
   }"

definition fs_chdir :: "cptr \<Rightarrow> ramfs \<Rightarrow> (int \<times> ramfs) option" where
  "fs_chdir name st =
     (if name = Ptr NULL then Some (-1, st)
      else do {
        r \<leftarrow> strcmp (fs_ram st) name (Lit ''/'');
        if r = 0 then do { m \<leftarrow> strcpy (fs_ram st) (current_dir st) (Lit ''/''); Some (0, set_ram m st) }
        else do {
          r2 \<leftarrow> strcmp (fs_ram st) name (Lit ''..'');
          if r2 = 0 then do { m \<leftarrow> strcpy (fs_ram st) (current_dir st) (Lit ''/''); Some (0, set_ram m st) }
          else do {
            idx \<leftarrow> fs_find name st;
            if idx < 0 then Some (-1, st)
            else if f_flags (fs_ram st) (slot (file_table st) (nat idx)) AND FS_FLAG_DIRECTORY = 0
            then Some (-2, st)
            else (let m1 = strncpy (fs_ram st) (current_dir st) name (of_nat FS_MAX_FILENAME - 1)
                  in Some (0, set_ram (m1(current_dir st + (of_nat FS_MAX_FILENAME - 1) := 0)) st))
          }
        }
      })"

definition fs_getcwd :: "ramfs \<Rightarrow> cptr" where
  "fs_getcwd st = Ptr (current_dir st)"

end
