(* ===== verification/Ramfs_Inv.thy ===== *)
theory Ramfs_Inv
  imports Ramfs
begin

text \<open>
  What a sound file system state stands for: 64 abstract entries and a current directory name.
  The invariant \<open>fs_rep\<close> ties the byte table to them and to the heap (every file's contents are a
  block the file system owns), and one update lemma carries it over a change to a single entry.
  Only the contract of the heap is used here, through the facts \<open>heap.*\<close> of its interpretation.
\<close>

section \<open>Fields of an entry\<close>

definition eset :: "addr \<Rightarrow> addr set" where
  "eset f = range_of (unat f) 44"

lemma entry_offsets:
  fixes f :: addr
  assumes "unat f + 44 \<le> 2 ^ 32"
  shows "unat (f + 32) = unat f + 32" "unat (f + 36) = unat f + 36" "unat (f + 40) = unat f + 40"
    "unat (f + 31) = unat f + 31"
  using unat_offset [of f 32] unat_offset [of f 36] unat_offset [of f 40] unat_offset [of f 31] assms
  by simp_all

lemma fields_put:
  assumes "unat f + 44 \<le> 2 ^ 32"
  shows "f_data (put_data m f v) f = v" "f_size (put_data m f v) f = f_size m f"
    "f_flags (put_data m f v) f = f_flags m f"
    "f_data (put_size m f w) f = f_data m f" "f_size (put_size m f w) f = w"
    "f_flags (put_size m f w) f = f_flags m f"
    "f_data (put_flags m f b) f = f_data m f" "f_size (put_flags m f b) f = f_size m f"
    "f_flags (put_flags m f b) f = b"
  using entry_offsets [OF assms] assms
  unfolding f_data_def f_size_def f_flags_def put_data_def put_size_def put_flags_def
  by (simp_all add: load32_store32_other load32_upd_outside store32_outside)

lemma agree_on_put:
  assumes "unat f + 44 \<le> 2 ^ 32" "S \<inter> eset f \<subseteq> range_of (unat f) 32" "agree_on S m m'"
  shows "agree_on S m (put_data m' f v)" "agree_on S m (put_size m' f w)"
    "agree_on S m (put_flags m' f b)"
proof -
  note o = entry_offsets [OF assms(1)]
  have "range_of (unat (f + 32)) 4 \<inter> S = {}" "range_of (unat (f + 36)) 4 \<inter> S = {}" "f + 40 \<notin> S"
    using assms(2) o unfolding eset_def by auto
  with assms(1,3) o show "agree_on S m (put_data m' f v)" "agree_on S m (put_size m' f w)"
    "agree_on S m (put_flags m' f b)"
    unfolding put_data_def put_size_def put_flags_def
    by (auto intro!: agree_on_store32 agree_on_upd)
qed

lemma fields_cong:
  assumes "unat f + 44 \<le> 2 ^ 32" "agree_on (eset f) m m'"
  shows "f_data m f = f_data m' f" "f_size m f = f_size m' f" "f_flags m f = f_flags m' f"
    "length n < 32 \<Longrightarrow> cstr m (Ptr f) n \<longleftrightarrow> cstr m' (Ptr f) n"
proof -
  note o = entry_offsets [OF assms(1)]
  show "f_data m f = f_data m' f" "f_size m f = f_size m' f" "f_flags m f = f_flags m' f"
    using o assms(1) unfolding f_data_def f_size_def f_flags_def
    by (auto intro!: load32_cong agree_on_mono [OF assms(2)] agree_onD [OF assms(2)] simp: eset_def)
  assume "length n < 32"
  with assms show "cstr m (Ptr f) n \<longleftrightarrow> cstr m' (Ptr f) n"
    by (intro cstr_cong) (auto intro!: agree_on_mono [OF assms(2)] simp: eset_def)
qed

section \<open>Abstract files\<close>

text \<open>
  \<open>Lost n\<close> is the state a failed \<^verbatim>\<open>fs_write\<close> leaves: \<^verbatim>\<open>size\<close> still says \<open>n > 0\<close> and \<^verbatim>\<open>data\<close> is NULL.
\<close>

datatype fcontent = Stored "u8 list" | Lost nat

datatype fentry = FEntry (ename: "u8 list") (edir: bool) (econt: fcontent)

record afs =
  slots :: "fentry option list"
  cwd :: "u8 list"

definition content_rep :: "mm \<Rightarrow> addr \<Rightarrow> u32 \<Rightarrow> fcontent \<Rightarrow> bool" where
  "content_rep h p n c = (case c of
     Stored bs \<Rightarrow> n = of_nat (length bs) \<and> length bs \<le> unat FS_MAX_FILESIZE
       \<and> (if p = NULL then bs = []
          else (\<exists>k. owns h p k \<and> length bs \<le> k \<and> bytes_at (ram h) p (length bs) = bs))
   | Lost k \<Rightarrow> p = NULL \<and> n = of_nat k \<and> 0 < k \<and> k \<le> unat FS_MAX_FILESIZE)"

definition flags_of :: "bool \<Rightarrow> u8" where
  "flags_of dir = (if dir then FS_FLAG_USED OR FS_FLAG_DIRECTORY else FS_FLAG_USED)"

definition entry_rep :: "mm \<Rightarrow> addr \<Rightarrow> fentry option \<Rightarrow> bool" where
  "entry_rep h f e = (case e of
     None \<Rightarrow> f_flags (ram h) f = FS_FLAG_FREE \<and> f_data (ram h) f = NULL
   | Some e \<Rightarrow> f_flags (ram h) f = flags_of (edir e) \<and> cstr (ram h) (Ptr f) (ename e)
       \<and> ename e \<noteq> [] \<and> length (ename e) < FS_MAX_FILENAME
       \<and> content_rep h (f_data (ram h) f) (f_size (ram h) f) (econt e))"

text \<open>Where the static arrays lie: no wrap, apart from each other and from the heap.\<close>

definition layout :: "ramfs \<Rightarrow> bool" where
  "layout st \<longleftrightarrow> file_table st \<noteq> NULL \<and> unat (file_table st) + 2816 \<le> 2 ^ 32
     \<and> unat (current_dir st) + 32 \<le> 2 ^ 32
     \<and> range_of (unat (file_table st)) 2816 \<inter> arena = {}
     \<and> range_of (unat (current_dir st)) 32 \<inter> arena = {}
     \<and> range_of (unat (file_table st)) 2816 \<inter> range_of (unat (current_dir st)) 32 = {}"

definition distinct_names :: "fentry option list \<Rightarrow> bool" where
  "distinct_names es \<longleftrightarrow> (\<forall>i<length es. \<forall>j<length es. \<forall>e e'. i \<noteq> j \<longrightarrow>
     es ! i = Some e \<longrightarrow> es ! j = Some e' \<longrightarrow> ename e \<noteq> ename e')"

definition distinct_data :: "mem \<Rightarrow> addr \<Rightarrow> bool" where
  "distinct_data m tab \<longleftrightarrow> (\<forall>i<FS_MAX_FILES. \<forall>j<FS_MAX_FILES. i \<noteq> j \<longrightarrow>
     f_data m (slot tab i) \<noteq> NULL \<longrightarrow> f_data m (slot tab i) \<noteq> f_data m (slot tab j))"

definition fs_rep :: "ramfs \<Rightarrow> afs \<Rightarrow> bool" where
  "fs_rep st A \<longleftrightarrow> layout st \<and> heap_ok (mm st) \<and> length (slots A) = FS_MAX_FILES
     \<and> (\<forall>i<FS_MAX_FILES. entry_rep (mm st) (slot (file_table st) i) (slots A ! i))
     \<and> distinct_names (slots A) \<and> distinct_data (fs_ram st) (file_table st)
     \<and> cstr (fs_ram st) (Ptr (current_dir st)) (cwd A) \<and> length (cwd A) < FS_MAX_FILENAME"

lemma fs_repD:
  assumes "fs_rep st A"
  shows "layout st" "heap_ok (mm st)" "length (slots A) = FS_MAX_FILES"
    "i < FS_MAX_FILES \<Longrightarrow> entry_rep (mm st) (slot (file_table st) i) (slots A ! i)"
    "distinct_names (slots A)" "distinct_data (fs_ram st) (file_table st)"
    "cstr (fs_ram st) (Ptr (current_dir st)) (cwd A)" "length (cwd A) < FS_MAX_FILENAME"
  using assms by (simp_all add: fs_rep_def)

section \<open>Slots\<close>

definition table_set :: "ramfs \<Rightarrow> addr set" where
  "table_set st = range_of (unat (file_table st)) 2816"

lemma unat_slot:
  assumes "layout st" "i < FS_MAX_FILES"
  shows "unat (slot (file_table st) i) = unat (file_table st) + 44 * i"
  unfolding slot_def using assms by (intro unat_offset) (simp add: layout_def FS_MAX_FILES_def)

lemma slot_props:
  assumes "layout st" "i < FS_MAX_FILES"
  shows "slot (file_table st) i \<noteq> NULL" "unat (slot (file_table st) i) + 44 \<le> 2 ^ 32"
    "eset (slot (file_table st) i) \<subseteq> table_set st" "eset (slot (file_table st) i) \<inter> arena = {}"
    "eset (slot (file_table st) i) \<inter> range_of (unat (current_dir st)) 32 = {}"
    "j < FS_MAX_FILES \<Longrightarrow> i \<noteq> j \<Longrightarrow> eset (slot (file_table st) i) \<inter> eset (slot (file_table st) j) = {}"
proof -
  note u = unat_slot [OF assms]
  have "0 < unat (file_table st)" using assms(1) by (simp add: layout_def unat_gt_0)
  then show "slot (file_table st) i \<noteq> NULL" using u by (auto simp: word_unat_eq_iff)
  show "unat (slot (file_table st) i) + 44 \<le> 2 ^ 32"
    using u assms by (simp add: layout_def FS_MAX_FILES_def)
  show sub: "eset (slot (file_table st) i) \<subseteq> table_set st"
    unfolding eset_def table_set_def u using assms(2) by (intro range_of_subset) (simp_all add: FS_MAX_FILES_def)
  with assms(1) show "eset (slot (file_table st) i) \<inter> arena = {}"
    "eset (slot (file_table st) i) \<inter> range_of (unat (current_dir st)) 32 = {}"
    unfolding layout_def table_set_def by blast+
  assume "j < FS_MAX_FILES" "i \<noteq> j"
  then show "eset (slot (file_table st) i) \<inter> eset (slot (file_table st) j) = {}"
    unfolding eset_def u unat_slot [OF assms(1) \<open>j < FS_MAX_FILES\<close>] by (intro range_of_disjoint) arith
qed

lemma slot_inj:
  assumes "layout st" "i < FS_MAX_FILES" "j < FS_MAX_FILES"
    and "slot (file_table st) i = slot (file_table st) j"
  shows "i = j"
proof -
  have "unat (slot (file_table st) i) = unat (slot (file_table st) j)" using assms(4) by (rule arg_cong)
  then show ?thesis unfolding unat_slot [OF assms(1,2)] unat_slot [OF assms(1,3)] by simp
qed

section \<open>Frames\<close>

text \<open>A block that keeps its owner and its bytes.\<close>

definition block_kept :: "mm \<Rightarrow> mm \<Rightarrow> addr \<Rightarrow> bool" where
  "block_kept h h' q \<longleftrightarrow> (\<forall>k. owns h q k \<longrightarrow> owns h' q k \<and> agree_on (range_of (unat q) k) (ram h) (ram h'))"

lemma block_keptD: "block_kept h h' q \<Longrightarrow> owns h q k \<Longrightarrow> owns h' q k"
  by (simp add: block_kept_def)

lemma block_kept_refl [simp]: "block_kept h h q"
  by (simp add: block_kept_def)

lemma block_kept_trans: "block_kept h h' q \<Longrightarrow> block_kept h' h'' q \<Longrightarrow> block_kept h h'' q"
  unfolding block_kept_def by (meson agree_on_trans)

lemma content_rep_frame:
  assumes "content_rep h p n c" "p \<noteq> NULL \<Longrightarrow> block_kept h h' p"
  shows "content_rep h' p n c"
proof (cases c)
  case (Stored bs)
  show ?thesis
  proof (cases "p = NULL")
    case False
    with assms Stored obtain k where k: "owns h p k" "length bs \<le> k" "bytes_at (ram h) p (length bs) = bs"
      "owns h' p k" "agree_on (range_of (unat p) k) (ram h) (ram h')"
      by (auto simp: content_rep_def block_kept_def)
    have "unat p + k \<le> 2 ^ 32" using heap.owns_bounds [OF k(1)] by simp
    moreover have "agree_on (range_of (unat p) (length bs)) (ram h) (ram h')"
      by (rule agree_on_mono [OF k(5)]) (use k(2) in auto)
    ultimately have "bytes_at (ram h) p (length bs) = bytes_at (ram h') p (length bs)"
      using k(2) by (intro bytes_at_cong) simp_all
    with k False assms(1) Stored show ?thesis by (auto simp: content_rep_def)
  qed (use assms(1) Stored in \<open>simp add: content_rep_def\<close>)
qed (use assms(1) in \<open>simp add: content_rep_def\<close>)

lemma entry_rep_frame:
  assumes "unat f + 44 \<le> 2 ^ 32" "entry_rep h f e" "agree_on (eset f) (ram h) (ram h')"
    and "f_data (ram h) f \<noteq> NULL \<Longrightarrow> block_kept h h' (f_data (ram h) f)"
  shows "entry_rep h' f e"
proof -
  note c = fields_cong [OF assms(1,3)]
  show ?thesis
  proof (cases e)
    case None
    with assms(2) c show ?thesis by (simp add: entry_rep_def)
  next
    case (Some x)
    with assms(2) have x: "length (ename x) < 32" "content_rep h (f_data (ram h) f) (f_size (ram h) f) (econt x)"
      by (simp_all add: entry_rep_def FS_MAX_FILENAME_def)
    from content_rep_frame [OF x(2) assms(4)] Some assms(2) c(1-3) c(4) [OF x(1)]
    show ?thesis by (simp add: entry_rep_def)
  qed
qed

text \<open>
  The update lemma: one entry changes, every other entry keeps its bytes and its block.
\<close>

lemma fs_rep_update:
  assumes rep: "fs_rep st A" and i: "i < FS_MAX_FILES" and ok: "heap_ok h'"
    and fr: "agree_on (- (eset (slot (file_table st) i) \<union> arena)) (fs_ram st) (ram h')"
    and kept: "\<And>j. j < FS_MAX_FILES \<Longrightarrow> j \<noteq> i \<Longrightarrow> f_data (fs_ram st) (slot (file_table st) j) \<noteq> NULL \<Longrightarrow>
      block_kept (mm st) h' (f_data (fs_ram st) (slot (file_table st) j))"
    and e: "entry_rep h' (slot (file_table st) i) e"
    and fresh: "\<And>j. j < FS_MAX_FILES \<Longrightarrow> j \<noteq> i \<Longrightarrow> f_data (ram h') (slot (file_table st) i) \<noteq> NULL \<Longrightarrow>
      f_data (fs_ram st) (slot (file_table st) j) \<noteq> f_data (ram h') (slot (file_table st) i)"
    and names: "\<And>j x y. j < FS_MAX_FILES \<Longrightarrow> j \<noteq> i \<Longrightarrow> e = Some x \<Longrightarrow> slots A ! j = Some y \<Longrightarrow>
      ename y \<noteq> ename x"
  shows "fs_rep (st\<lparr>mm := h'\<rparr>) (A\<lparr>slots := (slots A)[i := e]\<rparr>)"
proof -
  note D = fs_repD [OF rep]
  let ?s = "slot (file_table st)"
  have other: "agree_on (eset (?s j)) (fs_ram st) (ram h')" if "j < FS_MAX_FILES" "j \<noteq> i" for j
    using slot_props(4) [OF D(1) that(1)] slot_props(6) [OF D(1) that(1) i that(2)]
    by (intro agree_on_mono [OF fr]) blast
  have data: "f_data (ram h') (?s j) = f_data (fs_ram st) (?s j)" if "j < FS_MAX_FILES" "j \<noteq> i" for j
    using fields_cong(1) [OF slot_props(2) [OF D(1) that(1)] other [OF that]] by simp
  have "entry_rep h' (?s j) ((slots A)[i := e] ! j)" if j: "j < FS_MAX_FILES" for j
  proof (cases "j = i")
    case True
    with e i D(3) show ?thesis by simp
  next
    case False
    from entry_rep_frame [OF slot_props(2) [OF D(1) j] D(4) [OF j] other [OF j False] kept [OF j False]]
    show ?thesis using False by simp
  qed
  moreover have "distinct_names ((slots A)[i := e])"
    unfolding distinct_names_def
  proof (intro allI impI)
    fix j k x y assume *: "j < length ((slots A)[i := e])" "k < length ((slots A)[i := e])" "j \<noteq> k"
      "(slots A)[i := e] ! j = Some x" "(slots A)[i := e] ! k = Some y"
    consider "j = i" | "k = i" | "j \<noteq> i" "k \<noteq> i" by blast
    then show "ename x \<noteq> ename y"
    proof cases
      case 3
      with * D(5) show ?thesis by (simp add: distinct_names_def)
    next
      case 1
      with * D(3) names [of k x y] show ?thesis by simp
    next
      case 2
      with * D(3) names [of j y x] show ?thesis by simp
    qed
  qed
  moreover have "distinct_data (ram h') (file_table st)"
    unfolding distinct_data_def
  proof (intro allI impI)
    fix j k assume *: "j < FS_MAX_FILES" "k < FS_MAX_FILES" "j \<noteq> k" "f_data (ram h') (?s j) \<noteq> NULL"
    consider "j = i" | "k = i" "j \<noteq> i" | "j \<noteq> i" "k \<noteq> i" by blast
    then show "f_data (ram h') (?s j) \<noteq> f_data (ram h') (?s k)"
    proof cases
      case 1
      with * fresh [of k] data [of k] show ?thesis by metis
    next
      case 2
      with * fresh [of j] data [of j] show ?thesis by metis
    next
      case 3
      with * data [of j] data [of k] D(6) show ?thesis by (simp add: distinct_data_def)
    qed
  qed
  moreover have "agree_on (range_of (unat (current_dir st)) 32) (fs_ram st) (ram h')"
    using slot_props(5) [OF D(1) i] D(1) by (intro agree_on_mono [OF fr]) (auto simp: layout_def)
  then have "agree_on (cspan (Ptr (current_dir st)) (Suc (length (cwd A)))) (fs_ram st) (ram h')"
    by (rule agree_on_mono) (use D(8) in \<open>auto simp: FS_MAX_FILENAME_def\<close>)
  then have "cstr (ram h') (Ptr (current_dir st)) (cwd A)"
    using cstr_cong D(1,7,8) by (fastforce simp: layout_def FS_MAX_FILENAME_def)
  moreover have "layout (st\<lparr>mm := h'\<rparr>)" using D(1) by (simp add: layout_def)
  ultimately show ?thesis using D(3,8) ok by (simp add: fs_rep_def)
qed

end
