(* ===== verification/Ramfs_Ops.thy ===== *)
theory Ramfs_Ops
  imports Ramfs_Inv
begin

text \<open>
  The operations of the file system against their specification on abstract entries: each returns,
  gives the specified result code, and leads to a sound state for the specified entries.
\<close>

section \<open>Specification\<close>

fun find_slot :: "u8 list \<Rightarrow> fentry option list \<Rightarrow> nat option" where
  "find_slot n [] = None"
| "find_slot n (e # es) =
     (if (case e of Some x \<Rightarrow> ename x = n | None \<Rightarrow> False) then Some 0
      else map_option Suc (find_slot n es))"

fun free_slot :: "fentry option list \<Rightarrow> nat option" where
  "free_slot [] = None"
| "free_slot (e # es) = (if e = None then Some 0 else map_option Suc (free_slot es))"

definition a_add :: "bool \<Rightarrow> u8 list \<Rightarrow> afs \<Rightarrow> int \<times> afs" where
  "a_add dir n A =
     (if n = [] \<or> FS_MAX_FILENAME \<le> length n then (-1, A)
      else case find_slot n (slots A) of
        Some _ \<Rightarrow> (-2, A)
      | None \<Rightarrow> (case free_slot (slots A) of
          None \<Rightarrow> (-3, A)
        | Some i \<Rightarrow> (0, A\<lparr>slots := (slots A)[i := Some (FEntry n dir (Stored []))]\<rparr>)))"

definition a_delete :: "u8 list \<Rightarrow> afs \<Rightarrow> int \<times> afs" where
  "a_delete n A = (case find_slot n (slots A) of
     None \<Rightarrow> (-1, A)
   | Some i \<Rightarrow> (0, A\<lparr>slots := (slots A)[i := None]\<rparr>))"

definition is_dir_slot :: "afs \<Rightarrow> nat \<Rightarrow> bool" where
  "is_dir_slot A i \<longleftrightarrow> (case slots A ! i of Some e \<Rightarrow> edir e | None \<Rightarrow> False)"

definition a_rmdir :: "u8 list \<Rightarrow> afs \<Rightarrow> int \<times> afs" where
  "a_rmdir n A = (case find_slot n (slots A) of
     None \<Rightarrow> (-1, A)
   | Some i \<Rightarrow> if is_dir_slot A i then (0, A\<lparr>slots := (slots A)[i := None]\<rparr>) else (-2, A))"

definition a_chdir :: "u8 list \<Rightarrow> afs \<Rightarrow> int \<times> afs" where
  "a_chdir n A =
     (if n = bytes ''/'' \<or> n = bytes ''..'' then (0, A\<lparr>cwd := bytes ''/''\<rparr>)
      else case find_slot n (slots A) of
        None \<Rightarrow> (-1, A)
      | Some i \<Rightarrow> if is_dir_slot A i then (0, A\<lparr>cwd := n\<rparr>) else (-2, A))"

lemma find_slot_Some:
  "find_slot n es = Some i \<Longrightarrow> i < length es \<and> (\<exists>e. es ! i = Some e \<and> ename e = n)"
  by (induction es arbitrary: i) (auto split: if_splits option.splits)

lemma find_slot_None: "find_slot n es = None \<Longrightarrow> j < length es \<Longrightarrow> es ! j = Some e \<Longrightarrow> ename e \<noteq> n"
proof (induction es arbitrary: j)
  case (Cons x es)
  then show ?case by (cases j) (auto split: if_splits)
qed simp

lemma free_slot_Some: "free_slot es = Some i \<Longrightarrow> i < length es \<and> es ! i = None"
  by (induction es arbitrary: i) (auto split: if_splits)

lemma free_slot_None: "free_slot es = None \<Longrightarrow> j < length es \<Longrightarrow> es ! j \<noteq> None"
proof (induction es arbitrary: j)
  case (Cons x es)
  then show ?case by (cases j) (auto split: if_splits)
qed simp

section \<open>Searching the table\<close>

lemma flags_of_used [simp]: "flags_of d AND FS_FLAG_USED \<noteq> 0" "FS_FLAG_FREE AND FS_FLAG_USED = 0"
  by (simp_all add: flags_of_def FS_FLAG_USED_def FS_FLAG_DIRECTORY_def FS_FLAG_FREE_def)

lemma flags_of_dir [simp]: "flags_of d AND FS_FLAG_DIRECTORY = 0 \<longleftrightarrow> \<not> d"
  by (simp add: flags_of_def FS_FLAG_USED_def FS_FLAG_DIRECTORY_def)

lemma entry_used:
  "entry_rep h f e \<Longrightarrow> f_used (ram h) f \<longleftrightarrow> e \<noteq> None"
  by (auto simp: entry_rep_def f_used_def split: option.splits)

lemma fs_find_loop_eq:
  assumes "\<And>k. k < length es \<Longrightarrow> entry_rep h (slot tab (i + k)) (es ! k)" "cstr (ram h) name n"
  shows "fs_find_loop (ram h) tab name i (length es)
    = Some (case find_slot n es of None \<Rightarrow> -1 | Some k \<Rightarrow> int (i + k))"
  using assms(1)
proof (induction es arbitrary: i)
  case (Cons e es)
  have e: "entry_rep h (slot tab i) e" using Cons.prems [of 0] by simp
  have "fs_find_loop (ram h) tab name (Suc i) (length es)
    = Some (case find_slot n es of None \<Rightarrow> -1 | Some k \<Rightarrow> int (Suc i + k))"
    using Cons.prems [of "Suc _"] by (intro Cons.IH) simp
  then have IH: "fs_find_loop (ram h) tab name (Suc i) (length es)
    = Some (case map_option Suc (find_slot n es) of None \<Rightarrow> -1 | Some k \<Rightarrow> int (i + k))"
    by (simp split: option.splits)
  show ?case
  proof (cases e)
    case None
    with entry_used [OF e] IH show ?thesis by simp
  next
    case (Some x)
    with e have "cstr (ram h) (Ptr (slot tab i)) (ename x)" by (simp add: entry_rep_def)
    from strcmp_eq [OF this assms(2)] strcmp_0 [OF this assms(2)] Some entry_used [OF e] IH
    show ?thesis by auto
  qed
qed simp

lemma fs_find_eq:
  assumes "fs_rep st A" "cstr (fs_ram st) name n"
  shows "fs_find name st = Some (case find_slot n (slots A) of None \<Rightarrow> -1 | Some k \<Rightarrow> int k)"
  using fs_find_loop_eq [of "slots A" "mm st" "file_table st" 0 name n] fs_repD(3,4) [OF assms(1)] assms(2)
  by (simp add: fs_find_def cong: option.case_cong)

lemma fs_find_free_loop_eq:
  assumes "\<And>k. k < length es \<Longrightarrow> entry_rep h (slot tab (i + k)) (es ! k)"
  shows "fs_find_free_loop (ram h) tab i (length es)
    = (case free_slot es of None \<Rightarrow> -1 | Some k \<Rightarrow> int (i + k))"
  using assms
proof (induction es arbitrary: i)
  case (Cons e es)
  have e: "entry_rep h (slot tab i) e" using Cons.prems [of 0] by simp
  have "fs_find_free_loop (ram h) tab (Suc i) (length es)
    = (case free_slot es of None \<Rightarrow> -1 | Some k \<Rightarrow> int (Suc i + k))"
    using Cons.prems [of "Suc _"] by (intro Cons.IH) simp
  with entry_used [OF e] show ?case by (simp split: option.splits)
qed simp

lemma fs_find_free_eq:
  assumes "fs_rep st A"
  shows "fs_find_free st = (case free_slot (slots A) of None \<Rightarrow> -1 | Some k \<Rightarrow> int k)"
  using fs_find_free_loop_eq [of "slots A" "mm st" "file_table st" 0] fs_repD(3,4) [OF assms]
  by (simp add: fs_find_free_def cong: option.case_cong)

lemma fs_open_eq:
  assumes "fs_rep st A" "cstr (fs_ram st) name n"
  shows "fs_open name st = Some (case find_slot n (slots A) of None \<Rightarrow> NULL | Some k \<Rightarrow> slot (file_table st) k)"
  by (simp add: fs_open_def fs_find_eq [OF assms] split: option.splits)

lemma find_slot_lt:
  "fs_rep st A \<Longrightarrow> find_slot n (slots A) = Some i \<Longrightarrow> i < FS_MAX_FILES"
  using find_slot_Some [of n "slots A" i] fs_repD(3) [of st A] by simp

section \<open>Stores inside one entry\<close>

text \<open>A change to the bytes of one entry that leaves its data pointer NULL or as it was.\<close>

lemma set_ram_mm: "set_ram m (st\<lparr>mm := h\<rparr>) = st\<lparr>mm := h\<lparr>ram := m\<rparr>\<rparr>" "set_ram m st = st\<lparr>mm := (mm st)\<lparr>ram := m\<rparr>\<rparr>"
  by (simp_all add: set_ram_def)

lemma table_write:
  assumes lay: "layout st" and i: "i < FS_MAX_FILES" and ok: "heap_ok h"
    and fr: "agree_on (- eset (slot (file_table st) i)) (ram h) m"
  shows "heap_ok (h\<lparr>ram := m\<rparr>)" "\<And>q k. owns (h\<lparr>ram := m\<rparr>) q k \<longleftrightarrow> owns h q k"
    "\<And>q. block_kept h (h\<lparr>ram := m\<rparr>) q"
proof -
  have a: "agree_on arena (ram h) m"
    using slot_props(4) [OF lay i] by (intro agree_on_mono [OF fr]) blast
  from heap.write_outside_law [OF ok a]
  show w: "heap_ok (h\<lparr>ram := m\<rparr>)" "\<And>q k. owns (h\<lparr>ram := m\<rparr>) q k \<longleftrightarrow> owns h q k" by blast+
  show "block_kept h (h\<lparr>ram := m\<rparr>) q" for q
    unfolding block_kept_def
  proof (intro allI impI conjI)
    fix k assume o: "owns h q k"
    then show "owns (h\<lparr>ram := m\<rparr>) q k" by (simp add: w(2))
    from heap.owns_bounds [OF o] show "agree_on (range_of (unat q) k) (ram h) (ram (h\<lparr>ram := m\<rparr>))"
      using agree_on_mono [OF a] by simp
  qed
qed

lemma clear_entry_props:
  assumes "unat f + 44 \<le> 2 ^ 32"
  shows "f_flags (clear_entry m f) f = FS_FLAG_FREE" "f_data (clear_entry m f) f = NULL"
    "agree_on (- eset f) m (clear_entry m f)"
proof -
  show "f_flags (clear_entry m f) f = FS_FLAG_FREE" "f_data (clear_entry m f) f = NULL"
    by (simp_all add: clear_entry_def fields_put [OF assms])
  have "agree_on (- eset f) m (m(f := 0))" by (rule agree_on_upd) (auto simp: eset_def)
  then show "agree_on (- eset f) m (clear_entry m f)"
    unfolding clear_entry_def using assms by (intro agree_on_put) auto
qed

lemma new_entry_props:
  assumes f: "unat f + 44 \<le> 2 ^ 32" and n: "cstr m name n" "n \<noteq> []" "length n < 32"
    and src: "cfits name (Suc (length n))" "cspan name (Suc (length n)) \<inter> eset f = {}"
  shows "f_flags (new_entry m f name fl) f = fl" "f_data (new_entry m f name fl) f = NULL"
    "f_size (new_entry m f name fl) f = 0" "cstr (new_entry m f name fl) (Ptr f) n"
    "agree_on (- eset f) m (new_entry m f name fl)"
proof -
  define m1 where "m1 = strncpy m f name 31"
  define m2 where "m2 = m1(f + 31 := 0)"
  have ne: "new_entry m f name fl = put_flags (put_size (put_data m2 f NULL) f 0) f fl"
    by (simp add: new_entry_def m1_def m2_def FS_MAX_FILENAME_def Let_def)
  show "f_flags (new_entry m f name fl) f = fl" "f_data (new_entry m f name fl) f = NULL"
    "f_size (new_entry m f name fl) f = 0"
    unfolding ne by (simp_all add: fields_put [OF f])
  have d: "cspan name (Suc (length n)) \<inter> range_of (unat f) (unat (31 :: u32)) = {}"
    using src(2) by (auto simp: eset_def)
  have u31: "unat (f + 31) = unat f + 31" by (rule entry_offsets(4) [OF f])
  define bs where "bs = (if length n < 31 then n @ replicate (Suc (31 - length n)) 0 else n)"
  have m1: "m1 = put_bytes m f bs"
    unfolding m1_def bs_def using strncpy_short [OF n(1) _ _ src(1) d] strncpy_long [OF n(1) _ _ src(1) d] f n(3)
    by simp
  have lb: "length bs \<le> 32" "length n \<le> length bs" "take (length n) bs = n" using n(3) by (auto simp: bs_def)
  have fb: "unat f + length bs \<le> 2 ^ 32" using lb f by simp
  have "agree_on (- eset f) m m1"
    unfolding m1 by (rule agree_on_put_bytes [OF fb]) (use lb in \<open>auto simp: eset_def\<close>)
  then have "agree_on (- eset f) m m2"
    unfolding m2_def by (rule agree_on_upd [rotated]) (use u31 in \<open>simp add: eset_def\<close>)
  then show "agree_on (- eset f) m (new_entry m f name fl)"
    unfolding ne using f by (intro agree_on_put) auto
  have "bytes_at m1 f (length n) = n"
    using bytes_at_put_bytes [OF fb, of m] take_bytes_at [OF lb(2), of m1 f] lb(3) by (simp add: m1)
  moreover have "agree_on (range_of (unat f) (length n)) m1 m2"
    unfolding m2_def by (rule agree_on_upd) (use u31 n(3) in simp_all)
  then have "bytes_at m1 f (length n) = bytes_at m2 f (length n)" using f n(3) by (intro bytes_at_cong) simp_all
  moreover have "m2 (f + of_nat (length n)) = 0"
  proof (cases "length n = 31")
    case True
    then show ?thesis by (simp add: m2_def)
  next
    case False
    then have "length n < 31" using n(3) by simp
    moreover have "unat (f + of_nat (length n)) = unat f + length n" using f n(3) by (intro unat_offset) simp
    ultimately show ?thesis using fb by (simp add: m2_def m1 put_bytes_apply bs_def nth_append)
  qed
  ultimately have "cstr m2 (Ptr f) n" using cstr_nonzero [OF n(1)] by (simp add: cstr_Ptr)
  moreover have "agree_on (range_of (unat f) 32) m2 (new_entry m f name fl)"
    unfolding ne using f by (intro agree_on_put) (auto simp: eset_def)
  then have "agree_on (cspan (Ptr f) (Suc (length n))) m2 (new_entry m f name fl)"
    by (rule agree_on_mono) (use n(3) in auto)
  ultimately show "cstr (new_entry m f name fl) (Ptr f) n"
    using cstr_cong [of "Ptr f" n m2] f n(3) by simp
qed

section \<open>Adding and removing entries\<close>

text \<open>
  What the operations may assume of a name: a terminated string that the file system's own stores
  do not reach (a literal, or a string outside the table, the directory name and the heap).
\<close>

definition name_arg :: "ramfs \<Rightarrow> cptr \<Rightarrow> u8 list \<Rightarrow> bool" where
  "name_arg st p n \<longleftrightarrow> p \<noteq> Ptr NULL \<and> cstr (fs_ram st) p n \<and> length n < 2 ^ 32 - 1
     \<and> cfits p (Suc (length n)) \<and> cspan p (Suc (length n)) \<inter> table_set st = {}
     \<and> cspan p (Suc (length n)) \<inter> range_of (unat (current_dir st)) 32 = {}"

lemma name_argD:
  assumes "name_arg st p n"
  shows "p \<noteq> Ptr NULL" "cstr (fs_ram st) p n" "length n < 2 ^ 32" "cfits p (Suc (length n))"
    "cspan p (Suc (length n)) \<inter> table_set st = {}"
    "cspan p (Suc (length n)) \<inter> range_of (unat (current_dir st)) 32 = {}"
  using assms by (simp_all add: name_arg_def)

lemma name_arg_Lit: "0 \<notin> set (bytes s) \<Longrightarrow> length s < 2 ^ 32 - 1 \<Longrightarrow> name_arg st (Lit s) (bytes s)"
  by (simp add: name_arg_def cstr_Lit)

text \<open>The entry at \<open>i\<close> becomes empty; its block, if it has one, has already been dealt with.\<close>

lemma fs_rep_clear:
  assumes rep: "fs_rep st A" and i: "i < FS_MAX_FILES" and ok: "heap_ok h"
    and fr: "agree_on (- (eset (slot (file_table st) i) \<union> arena)) (fs_ram st) (ram h)"
    and kept: "\<And>j. j < FS_MAX_FILES \<Longrightarrow> j \<noteq> i \<Longrightarrow> f_data (fs_ram st) (slot (file_table st) j) \<noteq> NULL \<Longrightarrow>
      block_kept (mm st) h (f_data (fs_ram st) (slot (file_table st) j))"
  shows "fs_rep (set_ram (clear_entry (ram h) (slot (file_table st) i)) (st\<lparr>mm := h\<rparr>))
      (A\<lparr>slots := (slots A)[i := None]\<rparr>)"
proof -
  note D = fs_repD [OF rep]
  let ?f = "slot (file_table st) i" and ?m = "clear_entry (ram h) (slot (file_table st) i)"
  note c = clear_entry_props [OF slot_props(2) [OF D(1) i], of "ram h"]
  note w = table_write [OF D(1) i ok c(3)]
  show ?thesis
    unfolding set_ram_mm(1)
  proof (rule fs_rep_update [OF rep i w(1)])
    have "agree_on (- (eset ?f \<union> arena)) (ram h) ?m" by (rule agree_on_mono [OF c(3)]) blast
    from agree_on_trans [OF fr this]
    show "agree_on (- (eset ?f \<union> arena)) (fs_ram st) (ram (h\<lparr>ram := ?m\<rparr>))" by simp
    show "block_kept (mm st) (h\<lparr>ram := ?m\<rparr>) (f_data (fs_ram st) (slot (file_table st) j))"
      if "j < FS_MAX_FILES" "j \<noteq> i" "f_data (fs_ram st) (slot (file_table st) j) \<noteq> NULL" for j
      by (rule block_kept_trans [OF kept [OF that] w(3)])
  qed (use c(1,2) in \<open>simp_all add: entry_rep_def\<close>)
qed

lemma fs_add_refines:
  assumes rep: "fs_rep st A" and n: "name_arg st name n"
  shows "\<exists>st'. fs_add (flags_of dir) name st = Some (fst (a_add dir n A), st') \<and> fs_rep st' (snd (a_add dir n A))
    \<and> (\<forall>q k. owns (mm st') q k \<longleftrightarrow> owns (mm st) q k)
    \<and> agree_on (- table_set st) (fs_ram st) (fs_ram st')"
proof -
  note D = fs_repD [OF rep] and N = name_argD [OF n]
  have len: "strlen (fs_ram st) name = Some (of_nat (length n))" by (rule strlen_eq [OF N(2,3)])
  have short: "of_nat (length n) = (0 :: u32) \<longleftrightarrow> n = []"
    "of_nat FS_MAX_FILENAME \<le> (of_nat (length n) :: u32) \<longleftrightarrow> FS_MAX_FILENAME \<le> length n"
    using of_nat_eq_u32 [of "length n" 0] N(3) by (simp_all add: word_le_nat_alt FS_MAX_FILENAME_def)
  consider (bad) "n = [] \<or> FS_MAX_FILENAME \<le> length n"
    | (dup) k where "\<not> (n = [] \<or> FS_MAX_FILENAME \<le> length n)" "find_slot n (slots A) = Some k"
    | (full) "\<not> (n = [] \<or> FS_MAX_FILENAME \<le> length n)" "find_slot n (slots A) = None" "free_slot (slots A) = None"
    | (new) i where "\<not> (n = [] \<or> FS_MAX_FILENAME \<le> length n)" "find_slot n (slots A) = None" "free_slot (slots A) = Some i"
    by (cases "find_slot n (slots A)"; cases "free_slot (slots A)") auto
  then show ?thesis
  proof cases
    case bad
    with rep N(1) len short show ?thesis by (auto simp: fs_add_def a_add_def)
  next
    case dup
    with rep N(1) len short fs_find_eq [OF rep N(2)] show ?thesis by (simp add: fs_add_def a_add_def)
  next
    case full
    with rep N(1) len short fs_find_eq [OF rep N(2)] fs_find_free_eq [OF rep] show ?thesis
      by (simp add: fs_add_def a_add_def)
  next
    case (new i)
    then have nn: "n \<noteq> []" "length n < 32" by (simp_all add: FS_MAX_FILENAME_def)
    from free_slot_Some [OF new(3)] D(3) have i: "i < FS_MAX_FILES" by simp
    let ?f = "slot (file_table st) i"
    let ?m = "new_entry (fs_ram st) ?f name (flags_of dir)"
    have "cspan name (Suc (length n)) \<inter> eset ?f = {}" using N(5) slot_props(3) [OF D(1) i] by blast
    note c = new_entry_props [OF slot_props(2) [OF D(1) i] N(2) nn N(4) this, of "flags_of dir"]
    note w = table_write [OF D(1) i D(2) c(5)]
    have "fs_rep (st\<lparr>mm := (mm st)\<lparr>ram := ?m\<rparr>\<rparr>) (A\<lparr>slots := (slots A)[i := Some (FEntry n dir (Stored []))]\<rparr>)"
    proof (rule fs_rep_update [OF rep i w(1)])
      show "agree_on (- (eset ?f \<union> arena)) (fs_ram st) (ram ((mm st)\<lparr>ram := ?m\<rparr>))"
        using agree_on_mono [OF c(5), of "- (eset ?f \<union> arena)"] by auto
      show "block_kept (mm st) ((mm st)\<lparr>ram := ?m\<rparr>) (f_data (fs_ram st) (slot (file_table st) j))" for j
        by (rule w(3))
      show "entry_rep ((mm st)\<lparr>ram := ?m\<rparr>) ?f (Some (FEntry n dir (Stored [])))"
        using c nn by (simp add: entry_rep_def content_rep_def FS_MAX_FILENAME_def)
      show "ename y \<noteq> ename x" if "j < FS_MAX_FILES" "Some (FEntry n dir (Stored [])) = Some x"
        "slots A ! j = Some y" for j x y
        using find_slot_None [OF new(2) _ that(3)] that(1,2) D(3) by auto
    qed (use c(2) in simp_all)
    moreover have "fs_add (flags_of dir) name st = Some (0, st\<lparr>mm := (mm st)\<lparr>ram := ?m\<rparr>\<rparr>)"
      using new N(1) len short fs_find_eq [OF rep N(2)] fs_find_free_eq [OF rep]
      by (simp add: fs_add_def set_ram_mm Let_def)
    moreover have "agree_on (- table_set st) (fs_ram st) ?m"
      using slot_props(3) [OF D(1) i] by (intro agree_on_mono [OF c(5)]) blast
    ultimately show ?thesis using new w(2) by (simp add: a_add_def)
  qed
qed

text \<open>The block behind an entry, and releasing it.\<close>

lemma file_block:
  assumes "fs_rep st A" "i < FS_MAX_FILES" "f_data (fs_ram st) (slot (file_table st) i) \<noteq> NULL"
  obtains e bs k where "slots A ! i = Some e" "econt e = Stored bs"
    "owns (mm st) (f_data (fs_ram st) (slot (file_table st) i)) k" "length bs \<le> k"
    "bytes_at (fs_ram st) (f_data (fs_ram st) (slot (file_table st) i)) (length bs) = bs"
proof -
  have e: "entry_rep (mm st) (slot (file_table st) i) (slots A ! i)" using assms by (intro fs_repD)
  with assms(3) obtain x where x: "slots A ! i = Some x" by (cases "slots A ! i") (auto simp: entry_rep_def)
  with e have "content_rep (mm st) (f_data (fs_ram st) (slot (file_table st) i))
    (f_size (fs_ram st) (slot (file_table st) i)) (econt x)" by (simp add: entry_rep_def)
  with assms(3) x that show thesis by (cases "econt x") (auto simp: content_rep_def)
qed

lemma kfree_kept:
  assumes "heap_ok h" "owns h p n"
  obtains h' where "kfree p h = Some h'" "heap_ok h'" "agree_on (- arena) (ram h) (ram h')"
    "\<And>q k. owns h' q k \<longleftrightarrow> owns h q k \<and> q \<noteq> p" "\<And>q. q \<noteq> p \<Longrightarrow> block_kept h h' q"
proof -
  from heap.free_law [OF assms] obtain h' where "kfree p h = Some h'" "heap_ok h'"
    "\<forall>q k. owns h' q k \<longleftrightarrow> owns h q k \<and> q \<noteq> p" "agree_on (- arena) (ram h) (ram h')"
    "\<forall>q k. owns h q k \<longrightarrow> q \<noteq> p \<longrightarrow> agree_on (range_of (unat q) k) (ram h) (ram h')" by blast
  then show thesis by (intro that [of h']) (auto simp: block_kept_def)
qed

lemma kmalloc_kept:
  assumes "heap_ok h" "0 < unat sz" "unat sz \<le> 0xFFFFFFF0"
  obtains p h' where "kmalloc sz h = Some (p, h')" "heap_ok h'" "p = NULL \<Longrightarrow> h' = h"
    "agree_on (- arena) (ram h) (ram h')" "\<And>q. block_kept h h' q"
    "\<And>q k. owns h q k \<Longrightarrow> q \<noteq> p"
    "p \<noteq> NULL \<Longrightarrow> \<exists>n. unat sz \<le> n \<and> (\<forall>q k. owns h' q k \<longleftrightarrow> owns h q k \<or> q = p \<and> k = n)"
proof -
  from heap.alloc_law [OF assms] obtain p h' where *: "kmalloc sz h = Some (p, h')" "heap_ok h'"
    "p = NULL \<and> h' = h \<or> p \<noteq> NULL \<and> (\<forall>k. \<not> owns h p k)
     \<and> (\<exists>n. unat sz \<le> n \<and> (\<forall>q k. owns h' q k \<longleftrightarrow> owns h q k \<or> q = p \<and> k = n))
     \<and> agree_on (- arena) (ram h) (ram h')
     \<and> (\<forall>q k. owns h q k \<longrightarrow> agree_on (range_of (unat q) k) (ram h) (ram h'))" by blast
  show thesis
  proof (cases "p = NULL")
    case True
    with * have "h' = h" by simp
    with True * show thesis using heap.owns_bounds by (intro that [of p h]) auto
  next
    case False
    with * show thesis by (intro that [of p h']) (auto simp: block_kept_def)
  qed
qed

text \<open>\<^verbatim>\<open>fs_delete\<close>: the entry is gone, its block is free, every other block is kept.\<close>

lemma fs_delete_refines:
  assumes rep: "fs_rep st A" and n: "name_arg st name n"
  shows "\<exists>st'. fs_delete name st = Some (fst (a_delete n A), st') \<and> fs_rep st' (snd (a_delete n A))
    \<and> (\<forall>q k. owns (mm st') q k \<longleftrightarrow> owns (mm st) q k
        \<and> \<not> (\<exists>i. find_slot n (slots A) = Some i \<and> q = f_data (fs_ram st) (slot (file_table st) i)))"
proof (cases "find_slot n (slots A)")
  case None
  with rep fs_find_eq [OF rep name_argD(2) [OF n]] show ?thesis by (simp add: fs_delete_def a_delete_def)
next
  case (Some i)
  note D = fs_repD [OF rep] and i = find_slot_lt [OF rep Some]
  let ?f = "slot (file_table st) i"
  let ?p = "f_data (fs_ram st) ?f"
  note found = fs_find_eq [OF rep name_argD(2) [OF n]]
  show ?thesis
  proof (cases "?p = NULL")
    case True
    note c = clear_entry_props(3) [OF slot_props(2) [OF D(1) i], of "fs_ram st"]
    have "fs_rep (set_ram (clear_entry (fs_ram st) ?f) st) (A\<lparr>slots := (slots A)[i := None]\<rparr>)"
      using fs_rep_clear [OF rep i D(2)] by simp
    moreover have "owns (mm st) q k \<longrightarrow> q \<noteq> ?p" for q k using True heap.owns_bounds by blast
    ultimately show ?thesis
      using Some found True table_write(2) [OF D(1) i D(2) c]
      by (auto simp: fs_delete_def a_delete_def set_ram_mm(2))
  next
    case False
    from file_block [OF rep i False] obtain k where "owns (mm st) ?p k" by blast
    from kfree_kept [OF D(2) this] obtain h where h: "kfree ?p (mm st) = Some h" "heap_ok h"
      "agree_on (- arena) (fs_ram st) (ram h)" "\<And>q k. owns h q k \<longleftrightarrow> owns (mm st) q k \<and> q \<noteq> ?p"
      "\<And>q. q \<noteq> ?p \<Longrightarrow> block_kept (mm st) h q" by blast
    note c = clear_entry_props(3) [OF slot_props(2) [OF D(1) i], of "ram h"]
    have "fs_rep (set_ram (clear_entry (ram h) ?f) (st\<lparr>mm := h\<rparr>)) (A\<lparr>slots := (slots A)[i := None]\<rparr>)"
    proof (rule fs_rep_clear [OF rep i h(2)])
      show "agree_on (- (eset ?f \<union> arena)) (fs_ram st) (ram h)" by (rule agree_on_mono [OF h(3)]) blast
      show "block_kept (mm st) h (f_data (fs_ram st) (slot (file_table st) j))"
        if "j < FS_MAX_FILES" "j \<noteq> i" "f_data (fs_ram st) (slot (file_table st) j) \<noteq> NULL" for j
        using D(6) that i False by (intro h(5)) (auto simp: distinct_data_def)
    qed
    moreover have "fs_delete name st = Some (0, set_ram (clear_entry (ram h) ?f) (st\<lparr>mm := h\<rparr>))"
      using Some found False h(1) by (simp add: fs_delete_def Let_def)
    ultimately show ?thesis
      using Some h(4) table_write(2) [OF D(1) i h(2) c] by (auto simp: a_delete_def set_ram_mm(1))
  qed
qed

lemma is_dir_slot_flags:
  assumes "fs_rep st A" "find_slot n (slots A) = Some i"
  shows "f_flags (fs_ram st) (slot (file_table st) i) AND FS_FLAG_DIRECTORY = 0 \<longleftrightarrow> \<not> is_dir_slot A i"
  using find_slot_Some [OF assms(2)] fs_repD(4) [OF assms(1) find_slot_lt [OF assms]]
  by (auto simp: entry_rep_def is_dir_slot_def)

text \<open>\<^verbatim>\<open>fs_rmdir\<close>: a directory entry is gone; no block is given back.\<close>

lemma fs_rmdir_refines:
  assumes rep: "fs_rep st A" and n: "name_arg st name n"
  shows "\<exists>st'. fs_rmdir name st = Some (fst (a_rmdir n A), st') \<and> fs_rep st' (snd (a_rmdir n A))
    \<and> (\<forall>q k. owns (mm st') q k \<longleftrightarrow> owns (mm st) q k)"
proof (cases "find_slot n (slots A)")
  case None
  with rep fs_find_eq [OF rep name_argD(2) [OF n]] show ?thesis by (simp add: fs_rmdir_def a_rmdir_def)
next
  case (Some i)
  note D = fs_repD [OF rep] and i = find_slot_lt [OF rep Some]
  let ?f = "slot (file_table st) i"
  note c = clear_entry_props(3) [OF slot_props(2) [OF D(1) i], of "fs_ram st"]
  have "fs_rep (set_ram (clear_entry (fs_ram st) ?f) st) (A\<lparr>slots := (slots A)[i := None]\<rparr>)"
    using fs_rep_clear [OF rep i D(2)] by simp
  with rep Some fs_find_eq [OF rep name_argD(2) [OF n]] is_dir_slot_flags [OF rep Some]
    table_write(2) [OF D(1) i D(2) c]
  show ?thesis by (simp add: fs_rmdir_def a_rmdir_def set_ram_mm(2) Let_def)
qed

end
