(* ===== verification/Heap_Room.thy ===== *)
theory Heap_Room
  imports Heap_Own
begin

text \<open>
  Room on the heap: a stretch of memory that no live block touches. It depends on the live blocks
  only, so that whatever keeps them keeps the room; on a coalesced heap it is a free block, so that
  an allocation that fits succeeds.
\<close>

section \<open>Gaps\<close>

text \<open>\<open>n\<close> bytes between the live blocks, their headers included.\<close>

definition gap :: "mm \<Rightarrow> nat \<Rightarrow> bool" where
  "gap h n \<longleftrightarrow> (\<exists>a. HEAP_START \<le> a \<and> a + n \<le> HEAP_END
     \<and> (\<forall>q k. owns h q k \<longrightarrow> unat q + k \<le> a \<or> a + n \<le> unat q - 12))"

lemma gap_kept: "gap h n \<Longrightarrow> (\<And>q k. owns h' q k \<Longrightarrow> owns h q k) \<Longrightarrow> gap h' n"
  unfolding gap_def by blast

lemma gap_mono: "gap h n \<Longrightarrow> k \<le> n \<Longrightarrow> gap h k"
  unfolding gap_def by (elim exE conjE) (rule exI, fastforce intro: order_trans)

lemma gap_in_list:
  assumes "\<forall>(p, s)\<in>set (placed b bs). p + s \<le> a \<or> a + n \<le> p" "b \<le> a" "a + n \<le> b + bsum bs" "0 < n"
    and "coalesced bs" "\<forall>x\<in>set bs. 0 < fst x"
  shows "\<exists>s. (s, False) \<in> set bs \<and> n \<le> s"
  using assms
proof (induction bs arbitrary: b)
  case (Cons x bs)
  show ?case
  proof (cases "b + fst x \<le> a")
    case True
    have "\<exists>s. (s, False) \<in> set bs \<and> n \<le> s"
      by (rule Cons.IH [of "b + fst x"]) (use Cons.prems True in \<open>auto simp: coalesced_Cons add.assoc\<close>)
    then show ?thesis by auto
  next
    case False
    then have u: "\<not> snd x" using Cons.prems(1,2,4) by (cases x) auto
    show ?thesis
    proof (cases "a + n \<le> b + fst x")
      case True
      with Cons.prems(2) u show ?thesis by (intro exI [of _ "fst x"]) (cases x, auto)
    next
      case far: False
      then obtain y ys where y: "bs = y # ys" using Cons.prems(3) by (cases bs) auto
      with Cons.prems(5) u have "snd y" by simp
      then have "(b + fst x, fst y) \<in> set (placed b (x # bs))" by (simp add: y)
      with Cons.prems(1,6) y far False show ?thesis by fastforce
    qed
  qed
qed simp

lemma gap_block:
  assumes rep: "heap_rep h bs" and n: "0 < n"
  shows "gap h n \<longleftrightarrow> (\<exists>s. (s, False) \<in> set bs \<and> n \<le> s)"
proof
  have sg: "seg (ram h) HEAP_START bs" and tot: "HEAP_START + bsum bs = HEAP_END"
    using rep by (simp_all add: heap_rep_def HEAP_END_def)
  assume "gap h n"
  then obtain a where a: "HEAP_START \<le> a" "a + n \<le> HEAP_END"
    "\<And>q k. owns h q k \<Longrightarrow> unat q + k \<le> a \<or> a + n \<le> unat q - 12" by (auto simp: gap_def)
  have "p + s \<le> a \<or> a + n \<le> p" if "(p, s) \<in> set (placed HEAP_START bs)" for p s
  proof -
    have s: "20 \<le> s" by (rule placed_size [OF sg that])
    with that have p: "(p, (s - 12) + 12) \<in> set (placed HEAP_START bs)" by simp
    have "owns h (of_nat (p + 12)) (s - 12)" using p by (auto simp: owns_rep [OF rep])
    from a(3) [OF this] placed_addr(1) [OF rep p] s show ?thesis by auto
  qed
  then show "\<exists>s. (s, False) \<in> set bs \<and> n \<le> s"
    using gap_in_list [of HEAP_START bs a n] a tot n rep seg_pos [OF sg] by (auto simp: heap_rep_def)
next
  assume "\<exists>s. (s, False) \<in> set bs \<and> n \<le> s"
  then obtain s xs ys where s: "bs = xs @ (s, False) # ys" "n \<le> s" by (auto simp: in_set_conv_decomp)
  have tot: "HEAP_START + bsum bs = HEAP_END" using rep by (simp add: heap_rep_def HEAP_END_def)
  let ?a = "HEAP_START + bsum xs"
  have "unat q + k \<le> ?a \<or> ?a + n \<le> unat q - 12" if "owns h q k" for q k
  proof -
    from that obtain p where p: "(p, k + 12) \<in> set (placed HEAP_START bs)" "q = of_nat (p + 12)"
      by (auto simp: owns_rep [OF rep])
    have "p + (k + 12) \<le> ?a \<or> ?a + s \<le> p"
      using p(1) placed_bounds [of p "k + 12" HEAP_START xs] placed_bounds [of p "k + 12" "?a + s" ys]
      by (auto simp: s(1) placed_append add.assoc)
    with placed_addr(1) [OF rep p(1)] p(2) s(2) show ?thesis by auto
  qed
  then show "gap h n" using s tot unfolding gap_def by (intro exI [of _ ?a]) auto
qed

section \<open>Allocation with room\<close>

text \<open>A block comes out, and the rest of the room is still there.\<close>

lemma gap_alloc:
  assumes ok: "heap_ok h" and sz: "0 < unat sz" "unat sz \<le> 0xFFFFFFF0"
    and g: "gap h (malloc_total (unat sz) + r)" "28 \<le> r"
    and run: "kmalloc sz h = Some (p, h')"
  shows "p \<noteq> NULL" "gap h' r"
proof -
  let ?t = "malloc_total (unat sz)"
  from ok obtain bs where rep: "heap_rep h bs" by (auto simp: heap_ok_def)
  from g rep obtain s where s: "(s, False) \<in> set bs" "?t + r \<le> s" by (auto simp: gap_block)
  have "p \<noteq> NULL \<and> gap h' r"
  proof (cases rule: kmalloc_SomeE [OF rep sz, case_names fail taken])
    case fail
    with s show ?thesis by fastforce
  next
    case (taken h1 xs n ys)
    have "HEAP_START + bsum bs = HEAP_END" using rep by (simp add: heap_rep_def HEAP_END_def)
    then have "HEAP_START + bsum xs + 12 \<le> HEAP_END"
      using taken(2,3) malloc_total_bounds(2) [of "unat sz"] by simp
    from of_nat_addr_nonzero [OF _ this] have "p \<noteq> NULL" using run taken(1) by (simp add: heap_consts)
    moreover have "\<exists>s'. (s', False) \<in> set (xs @ split_block ?t n @ ys) \<and> r \<le> s'"
    proof (cases "(s, False) \<in> set (xs @ ys)")
      case True
      with s(2) show ?thesis by fastforce
    next
      case False
      with s(1) taken(2) have "s = n" by auto
      with s(2) g(2) have "(n - ?t, False) \<in> set (split_block ?t n)" "r \<le> n - ?t" by (auto simp: split_block_def)
      then show ?thesis by auto
    qed
    then have "gap h1 r" using g(2) by (subst gap_block [OF taken(5)]) simp_all
    ultimately show ?thesis using run taken(1) by simp
  qed
  then show "p \<noteq> NULL" "gap h' r" by blast+
qed

section \<open>The contract\<close>

text \<open>An allocator that does not fail while there is room; \<open>need\<close> is what a request takes from it.\<close>

locale room_allocator = allocator +
  fixes room :: "'a \<Rightarrow> nat \<Rightarrow> bool" and need :: "nat \<Rightarrow> nat" and least :: nat
  assumes room_law: "ok s \<Longrightarrow> 0 < unat sz \<Longrightarrow> unat sz \<le> limit \<Longrightarrow> room s (need (unat sz) + r) \<Longrightarrow> least \<le> r \<Longrightarrow>
      alloc sz s = Some (p, s') \<Longrightarrow> p \<noteq> NULL \<and> room s' r"
    and room_kept: "room s n \<Longrightarrow> (\<And>q k. owns s' q k \<Longrightarrow> owns s q k) \<Longrightarrow> room s' n"
    and room_less: "room s n \<Longrightarrow> k \<le> n \<Longrightarrow> room s k"
begin

lemma room_free: "ok s \<Longrightarrow> owns s p n \<Longrightarrow> free p s = Some s' \<Longrightarrow> room s r \<Longrightarrow> room s' r"
  using free_law [of s p n] room_kept [of s r s'] by auto

lemma room_write:
  "ok s \<Longrightarrow> owns s p n \<Longrightarrow> agree_on (- range_of (unat p) n) (memof s) m \<Longrightarrow> room s r \<Longrightarrow> room (setmem m s) r"
  using write_law [of s p n m] room_kept [of s r "setmem m s"] by auto

end

interpretation roomy: room_allocator kmalloc kfree ram "\<lambda>m st. st\<lparr>ram := m\<rparr>" heap_ok owns arena "0xFFFFFFF0" gap malloc_total 28
proof (unfold_locales, goal_cases)
  case (1 s sz r p s')
  then show ?case using gap_alloc by blast
next
  case (2 s n s')
  then show ?case by (rule gap_kept)
next
  case (3 s n k)
  then show ?case by (rule gap_mono)
qed

end
