(* ===== verification/Ramfs_Files.thy ===== *)
theory Ramfs_Files
  imports Ramfs_Ops Heap_Room
begin

text \<open>
  Reading, writing, appending to and truncating a file: what happens to its contents, to the
  heap blocks, and to everybody else's bytes.
\<close>

section \<open>Changing the contents of one entry\<close>

definition set_cont :: "nat \<Rightarrow> fcontent \<Rightarrow> afs \<Rightarrow> afs" where
  "set_cont i c A = A\<lparr>slots := (slots A)[i := map_option (\<lambda>e. FEntry (ename e) (edir e) c) (slots A ! i)]\<rparr>"

lemma fs_rep_content:
  assumes rep: "fs_rep st A" and i: "i < FS_MAX_FILES" and e: "slots A ! i = Some e" and ok: "heap_ok h"
    and fr: "agree_on (- (eset (slot (file_table st) i) \<union> arena)) (fs_ram st) (ram h)"
    and nm: "agree_on (range_of (unat (slot (file_table st) i)) 32) (fs_ram st) (ram h)"
    and fl: "f_flags (ram h) (slot (file_table st) i) = f_flags (fs_ram st) (slot (file_table st) i)"
    and kept: "\<And>j. j < FS_MAX_FILES \<Longrightarrow> j \<noteq> i \<Longrightarrow> f_data (fs_ram st) (slot (file_table st) j) \<noteq> NULL \<Longrightarrow>
      block_kept (mm st) h (f_data (fs_ram st) (slot (file_table st) j))"
    and c: "content_rep h (f_data (ram h) (slot (file_table st) i)) (f_size (ram h) (slot (file_table st) i)) c"
    and fresh: "\<And>j. j < FS_MAX_FILES \<Longrightarrow> j \<noteq> i \<Longrightarrow> f_data (ram h) (slot (file_table st) i) \<noteq> NULL \<Longrightarrow>
      f_data (fs_ram st) (slot (file_table st) j) \<noteq> f_data (ram h) (slot (file_table st) i)"
  shows "fs_rep (st\<lparr>mm := h\<rparr>) (set_cont i c A)"
  unfolding set_cont_def
proof (rule fs_rep_update [OF rep i ok fr kept _ fresh])
  note D = fs_repD [OF rep]
  let ?f = "slot (file_table st) i"
  have old: "f_flags (fs_ram st) ?f = flags_of (edir e)" "cstr (fs_ram st) (Ptr ?f) (ename e)" "ename e \<noteq> []"
    "length (ename e) < FS_MAX_FILENAME"
    using D(4) [OF i] e by (simp_all add: entry_rep_def)
  have "agree_on (cspan (Ptr ?f) (Suc (length (ename e)))) (fs_ram st) (ram h)"
    by (rule agree_on_mono [OF nm]) (use old(4) in \<open>auto simp: FS_MAX_FILENAME_def\<close>)
  then have "cstr (ram h) (Ptr ?f) (ename e)"
    using cstr_cong [of "Ptr ?f" "ename e" "fs_ram st" "ram h"] old(2,4) slot_props(2) [OF D(1) i]
    by (simp add: FS_MAX_FILENAME_def)
  with old fl c e show "entry_rep h ?f (map_option (\<lambda>e. FEntry (ename e) (edir e) c) (slots A ! i))"
    by (simp add: entry_rep_def)
  show "ename y \<noteq> ename x" if "j < FS_MAX_FILES" "j \<noteq> i"
    "map_option (\<lambda>e. FEntry (ename e) (edir e) c) (slots A ! i) = Some x" "slots A ! j = Some y" for j x y
    using D(3,5) that e i by (auto simp: distinct_names_def)
qed

text \<open>Bytes of the caller: outside the table, and outside the heap or in a block no file holds.\<close>

definition client_region :: "ramfs \<Rightarrow> addr set \<Rightarrow> bool" where
  "client_region st S \<longleftrightarrow> S \<inter> table_set st = {} \<and> S \<inter> range_of (unat (current_dir st)) 32 = {} \<and>
     (S \<inter> arena = {} \<or> (\<exists>q k. owns (mm st) q k \<and> S \<subseteq> range_of (unat q) k
        \<and> (\<forall>i<FS_MAX_FILES. f_data (fs_ram st) (slot (file_table st) i) \<noteq> q)))"

lemma client_region_kept:
  assumes "client_region st S" and i: "layout st" "i < FS_MAX_FILES"
    and fr: "agree_on (- (eset (slot (file_table st) i) \<union> arena)) (fs_ram st) (ram h)"
    and kept: "\<And>q. q \<noteq> f_data (fs_ram st) (slot (file_table st) i) \<Longrightarrow> block_kept (mm st) h q"
  shows "agree_on S (fs_ram st) (ram h)"
  using assms(1) unfolding client_region_def
proof (elim conjE disjE exE)
  assume "S \<inter> table_set st = {}" "S \<inter> arena = {}"
  with slot_props(3) [OF i] show ?thesis by (intro agree_on_mono [OF fr]) blast
next
  fix q k assume q: "owns (mm st) q k" "S \<subseteq> range_of (unat q) k"
    "\<forall>i<FS_MAX_FILES. f_data (fs_ram st) (slot (file_table st) i) \<noteq> q"
  then have "block_kept (mm st) h q" using i(2) by (intro kept) blast
  with q(1) have "agree_on (range_of (unat q) k) (fs_ram st) (ram h)" by (simp add: block_kept_def)
  then show ?thesis using q(2) by (rule agree_on_mono)
qed

text \<open>A copy into an owned block.\<close>

lemma fill_block:
  assumes ok: "heap_ok h" and p: "owns h p k" and d: "unat p \<le> unat d" "unat d + unat n \<le> unat p + k"
    and src: "range_of (unat data) (unat n) \<inter> range_of (unat p) k = {}" "unat data + unat n \<le> 2 ^ 32"
  defines "m \<equiv> memcpy (ram h) d data n"
  shows "heap_ok (h\<lparr>ram := m\<rparr>)" "\<And>q j. owns (h\<lparr>ram := m\<rparr>) q j \<longleftrightarrow> owns h q j"
    "\<And>q. q \<noteq> p \<Longrightarrow> block_kept h (h\<lparr>ram := m\<rparr>) q" "agree_on (- arena) (ram h) m"
    "agree_on (- range_of (unat d) (unat n)) (ram h) m"
    "bytes_at m d (unat n) = bytes_at (ram h) data (unat n)"
proof -
  note b = heap.owns_bounds [OF p]
  have db: "unat d + unat n \<le> 2 ^ 32" using b d by simp
  have sub: "range_of (unat d) (unat n) \<subseteq> range_of (unat p) k" using d by auto
  show fr: "agree_on (- range_of (unat d) (unat n)) (ram h) m"
    unfolding m_def using db by (intro agree_on_memcpy) auto
  have frp: "agree_on (- range_of (unat p) k) (ram h) m" by (rule agree_on_mono [OF fr]) (use sub in blast)
  then show "agree_on (- arena) (ram h) m" by (rule agree_on_mono) (use b in blast)
  from heap.write_law [OF ok p frp]
  show "heap_ok (h\<lparr>ram := m\<rparr>)" and o: "\<And>q j. owns (h\<lparr>ram := m\<rparr>) q j \<longleftrightarrow> owns h q j" by blast+
  show "block_kept h (h\<lparr>ram := m\<rparr>) q" if "q \<noteq> p" for q
    unfolding block_kept_def
  proof (intro allI impI conjI)
    fix j assume q: "owns h q j"
    then show "owns (h\<lparr>ram := m\<rparr>) q j" by (simp add: o)
    from heap.owns_disjoint [OF q p that] agree_on_mono [OF frp]
    show "agree_on (range_of (unat q) j) (ram h) (ram (h\<lparr>ram := m\<rparr>))" by (simp add: disjoint_eq_subset_Compl)
  qed
  show "bytes_at m d (unat n) = bytes_at (ram h) data (unat n)"
  proof (cases "unat n = 0")
    case False
    have "range_of (unat d) (unat n) \<inter> range_of (unat data) (unat n) = {}" using src(1) sub by blast
    then have "unat d + unat n \<le> unat data \<or> unat data + unat n \<le> unat d"
      using False db src(2) by (intro range_overlap) auto
    then show ?thesis unfolding m_def using db src(2) by (intro bytes_at_memcpy) auto
  qed simp
qed

text \<open>\<^verbatim>\<open>drop_data\<close>: the block is given back, the pointer is NULL, the size field still stands.\<close>

lemma drop_data_props:
  assumes rep: "fs_rep st A" and i: "i < FS_MAX_FILES"
  defines "f \<equiv> slot (file_table st) i"
  obtains h where "drop_data f st = Some (st\<lparr>mm := h\<rparr>)" "heap_ok h"
    "agree_on (- (eset f \<union> arena)) (fs_ram st) (ram h)" "agree_on (range_of (unat f) 32) (fs_ram st) (ram h)"
    "f_data (ram h) f = NULL" "f_size (ram h) f = f_size (fs_ram st) f" "f_flags (ram h) f = f_flags (fs_ram st) f"
    "\<And>q. q \<noteq> f_data (fs_ram st) f \<Longrightarrow> block_kept (mm st) h q"
    "\<And>q k. owns h q k \<longleftrightarrow> owns (mm st) q k \<and> q \<noteq> f_data (fs_ram st) f"
proof (cases "f_data (fs_ram st) f = NULL")
  case True
  then show thesis
    using fs_repD(2) [OF rep] heap.owns_bounds by (intro that [of "mm st"]) (auto simp: drop_data_def)
next
  case False
  note D = fs_repD [OF rep]
  note sp = slot_props [OF D(1) i, folded f_def]
  from file_block [OF rep i] False obtain k where "owns (mm st) (f_data (fs_ram st) f) k" unfolding f_def by blast
  from kfree_kept [OF D(2) this] obtain h where h: "kfree (f_data (fs_ram st) f) (mm st) = Some h" "heap_ok h"
    "agree_on (- arena) (fs_ram st) (ram h)"
    "\<And>q k. owns h q k \<longleftrightarrow> owns (mm st) q k \<and> q \<noteq> f_data (fs_ram st) f"
    "\<And>q. q \<noteq> f_data (fs_ram st) f \<Longrightarrow> block_kept (mm st) h q" by blast
  let ?m = "put_data (ram h) f NULL"
  have fr: "agree_on (- eset f) (ram h) ?m" using sp(2) by (intro agree_on_put) auto
  note w = table_write [OF D(1) i h(2) fr [unfolded f_def], folded f_def]
  have fe: "agree_on (eset f) (fs_ram st) (ram h)" by (rule agree_on_mono [OF h(3)]) (use sp(4) in blast)
  note c = fields_cong [OF sp(2) fe]
  show thesis
  proof (rule that [of "h\<lparr>ram := ?m\<rparr>"])
    show "drop_data f st = Some (st\<lparr>mm := h\<lparr>ram := ?m\<rparr>\<rparr>)"
      using False h(1) by (simp add: drop_data_def set_ram_mm(1))
    have "agree_on (- (eset f \<union> arena)) (fs_ram st) (ram h)" by (rule agree_on_mono [OF h(3)]) blast
    moreover have "agree_on (- (eset f \<union> arena)) (ram h) ?m" by (rule agree_on_mono [OF fr]) blast
    ultimately show "agree_on (- (eset f \<union> arena)) (fs_ram st) (ram (h\<lparr>ram := ?m\<rparr>))"
      using agree_on_trans by auto
    have "agree_on (range_of (unat f) 32) (fs_ram st) (ram h)" by (rule agree_on_mono [OF fe]) (auto simp: eset_def)
    then show "agree_on (range_of (unat f) 32) (fs_ram st) (ram (h\<lparr>ram := ?m\<rparr>))"
      using sp(2) by (auto intro!: agree_on_put simp: eset_def)
    show "block_kept (mm st) (h\<lparr>ram := ?m\<rparr>) q" if "q \<noteq> f_data (fs_ram st) f" for q
      by (rule block_kept_trans [OF h(5) [OF that] w(3)])
  qed (use w h(4) c sp(2) in \<open>simp_all add: fields_put\<close>)
qed

section \<open>Truncating and writing\<close>

text \<open>Stores to \<^verbatim>\<open>data\<close> and \<^verbatim>\<open>size\<close> of one entry, after anything that leaves the rest of the table alone.\<close>

definition field_update :: "addr \<Rightarrow> mem \<Rightarrow> mem \<Rightarrow> bool" where
  "field_update f m m' \<longleftrightarrow>
     (\<exists>p n. m' = put_data m f p \<or> m' = put_size m f n \<or> m' = put_size (put_data m f p) f n)"

lemma field_updateI [intro, simp]:
  "field_update f m (put_data m f p)" "field_update f m (put_size m f n)"
  "field_update f m (put_size (put_data m f p) f n)"
  unfolding field_update_def by blast+

lemma table_fields_write:
  assumes lay: "layout st" and i: "i < FS_MAX_FILES" and ok: "heap_ok h"
  defines "f \<equiv> slot (file_table st) i"
  assumes fr: "agree_on (- (eset f \<union> arena)) m0 (ram h)" and nm: "agree_on (range_of (unat f) 32) m0 (ram h)"
    and m: "field_update f (ram h) m"
  shows "heap_ok (h\<lparr>ram := m\<rparr>)" "\<And>q k. owns (h\<lparr>ram := m\<rparr>) q k \<longleftrightarrow> owns h q k"
    "\<And>q. block_kept h (h\<lparr>ram := m\<rparr>) q" "agree_on (- (eset f \<union> arena)) m0 m"
    "agree_on (range_of (unat f) 32) m0 m" "f_flags m f = f_flags (ram h) f" "agree_on (- table_set st) (ram h) m"
proof -
  note sp = slot_props [OF lay i, folded f_def]
  have e: "agree_on (- eset f) (ram h) m"
    using m sp(2) unfolding field_update_def by (elim exE disjE) (auto intro!: agree_on_put)
  note w = table_write [OF lay i ok e [unfolded f_def], folded f_def]
  show "heap_ok (h\<lparr>ram := m\<rparr>)" "\<And>q k. owns (h\<lparr>ram := m\<rparr>) q k \<longleftrightarrow> owns h q k"
    "\<And>q. block_kept h (h\<lparr>ram := m\<rparr>) q" by (fact w)+
  have "agree_on (- (eset f \<union> arena)) (ram h) m" by (rule agree_on_mono [OF e]) blast
  with fr show "agree_on (- (eset f \<union> arena)) m0 m" by (rule agree_on_trans)
  have "agree_on (range_of (unat f) 32) (ram h) m"
    using m sp(2) unfolding field_update_def by (elim exE disjE) (auto intro!: agree_on_put simp: eset_def)
  with nm show "agree_on (range_of (unat f) 32) m0 m" by (rule agree_on_trans)
  show "f_flags m f = f_flags (ram h) f" using m sp(2) unfolding field_update_def by (elim exE disjE) (simp_all add: fields_put)
  show "agree_on (- table_set st) (ram h) m" by (rule agree_on_mono [OF e]) (use sp(3) in blast)
qed

lemma other_data:
  assumes "fs_rep st A" "i < FS_MAX_FILES" "j < FS_MAX_FILES" "j \<noteq> i"
    "f_data (fs_ram st) (slot (file_table st) j) \<noteq> NULL"
  shows "f_data (fs_ram st) (slot (file_table st) j) \<noteq> f_data (fs_ram st) (slot (file_table st) i)"
  using fs_repD(6) [OF assms(1)] assms(2-) by (simp add: distinct_data_def)

text \<open>
  The last step of every file operation: the heap holds the new contents, and the fields of the
  entry are set to say so.
\<close>

lemma commit:
  assumes rep: "fs_rep st A" and i: "i < FS_MAX_FILES" and e: "slots A ! i = Some e" and ok: "heap_ok h"
  defines "f \<equiv> slot (file_table st) i"
  assumes fr: "agree_on (- (eset f \<union> arena)) (fs_ram st) (ram h)"
    and nm: "agree_on (range_of (unat f) 32) (fs_ram st) (ram h)"
    and fl: "f_flags (ram h) f = f_flags (fs_ram st) f"
    and kept: "\<And>q. q \<noteq> f_data (fs_ram st) f \<Longrightarrow> block_kept (mm st) h q"
    and m: "field_update f (ram h) m"
    and c: "content_rep h (f_data m f) (f_size m f) c"
    and fresh: "f_data m f = NULL \<or> f_data m f = f_data (fs_ram st) f \<or> (\<forall>k. \<not> owns (mm st) (f_data m f) k)"
  shows "fs_rep (st\<lparr>mm := h\<lparr>ram := m\<rparr>\<rparr>) (set_cont i c A)" "\<And>q k. owns (h\<lparr>ram := m\<rparr>) q k \<longleftrightarrow> owns h q k"
    "\<And>q. q \<noteq> f_data (fs_ram st) f \<Longrightarrow> block_kept (mm st) (h\<lparr>ram := m\<rparr>) q"
    "agree_on (- (eset f \<union> arena)) (fs_ram st) m"
proof -
  note D = fs_repD [OF rep]
  note w = table_fields_write [OF D(1) i ok fr [unfolded f_def] nm [unfolded f_def] m [unfolded f_def], folded f_def]
  show "owns (h\<lparr>ram := m\<rparr>) q k \<longleftrightarrow> owns h q k" for q k by (rule w(2))
  show "agree_on (- (eset f \<union> arena)) (fs_ram st) m" by (rule w(4))
  show all: "block_kept (mm st) (h\<lparr>ram := m\<rparr>) q" if "q \<noteq> f_data (fs_ram st) f" for q
    by (rule block_kept_trans [OF kept [OF that] w(3)])
  show "fs_rep (st\<lparr>mm := h\<lparr>ram := m\<rparr>\<rparr>) (set_cont i c A)"
  proof (rule fs_rep_content [OF rep i e w(1), folded f_def])
    show "block_kept (mm st) (h\<lparr>ram := m\<rparr>) (f_data (fs_ram st) (slot (file_table st) j))"
      if "j < FS_MAX_FILES" "j \<noteq> i" "f_data (fs_ram st) (slot (file_table st) j) \<noteq> NULL" for j
      using other_data [OF rep i that] by (intro all) (simp add: f_def)
    show "content_rep (h\<lparr>ram := m\<rparr>) (f_data (ram (h\<lparr>ram := m\<rparr>)) f) (f_size (ram (h\<lparr>ram := m\<rparr>)) f) c"
      using content_rep_frame [OF c w(3)] by simp
    show "f_data (fs_ram st) (slot (file_table st) j) \<noteq> f_data (ram (h\<lparr>ram := m\<rparr>)) f"
      if "j < FS_MAX_FILES" "j \<noteq> i" "f_data (ram (h\<lparr>ram := m\<rparr>)) f \<noteq> NULL" for j
    proof
      assume eq: "f_data (fs_ram st) (slot (file_table st) j) = f_data (ram (h\<lparr>ram := m\<rparr>)) f"
      with that(3) have nj: "f_data (fs_ram st) (slot (file_table st) j) \<noteq> NULL" by simp
      from other_data [OF rep i that(1,2) nj] file_block [OF rep that(1) nj] eq fresh nj
      show False by (auto simp: f_def)
    qed
  qed (use w(4-6) fl in simp_all)
qed

lemma fs_truncate_spec:
  assumes rep: "fs_rep st A" and i: "i < FS_MAX_FILES" and e: "slots A ! i = Some e"
  defines "f \<equiv> slot (file_table st) i"
  shows "\<exists>st'. fs_truncate f st = Some (0, st') \<and> fs_rep st' (set_cont i (Stored []) A)
    \<and> (\<forall>q k. owns (mm st') q k \<longleftrightarrow> owns (mm st) q k \<and> q \<noteq> f_data (fs_ram st) f)
    \<and> (\<forall>q. q \<noteq> f_data (fs_ram st) f \<longrightarrow> block_kept (mm st) (mm st') q)"
proof -
  note sp = slot_props [OF fs_repD(1) [OF rep] i, folded f_def]
  obtain h where h: "drop_data f st = Some (st\<lparr>mm := h\<rparr>)" "heap_ok h"
    "agree_on (- (eset f \<union> arena)) (fs_ram st) (ram h)" "agree_on (range_of (unat f) 32) (fs_ram st) (ram h)"
    "f_data (ram h) f = NULL" "f_size (ram h) f = f_size (fs_ram st) f" "f_flags (ram h) f = f_flags (fs_ram st) f"
    "\<And>q. q \<noteq> f_data (fs_ram st) f \<Longrightarrow> block_kept (mm st) h q"
    "\<And>q k. owns h q k \<longleftrightarrow> owns (mm st) q k \<and> q \<noteq> f_data (fs_ram st) f"
    by (rule drop_data_props [OF rep i, folded f_def], rule that, assumption+)
  have "content_rep h (f_data (put_size (ram h) f 0) f) (f_size (put_size (ram h) f 0) f) (Stored [])"
    using h(5) sp(2) by (simp add: fields_put content_rep_def)
  from commit [OF rep i e h(2), folded f_def, OF h(3,4,7,8) field_updateI(2) this] h(5) sp(2)
  have "fs_rep (st\<lparr>mm := h\<lparr>ram := put_size (ram h) f 0\<rparr>\<rparr>) (set_cont i (Stored []) A)"
    "\<And>q k. owns (h\<lparr>ram := put_size (ram h) f 0\<rparr>) q k \<longleftrightarrow> owns h q k"
    "\<And>q. q \<noteq> f_data (fs_ram st) f \<Longrightarrow> block_kept (mm st) (h\<lparr>ram := put_size (ram h) f 0\<rparr>) q"
    by (simp_all add: fields_put)
  moreover have "fs_truncate f st = Some (0, st\<lparr>mm := h\<lparr>ram := put_size (ram h) f 0\<rparr>\<rparr>)"
    using h(1) sp(1) by (simp add: fs_truncate_def set_ram_mm(1))
  ultimately show ?thesis using h(9) by auto
qed

section \<open>fs_write\<close>

text \<open>A client's bytes do not lie in a block that no client can own.\<close>

lemma client_region_apart:
  assumes src: "client_region st S" and i: "i < FS_MAX_FILES"
  defines "old \<equiv> f_data (fs_ram st) (slot (file_table st) i)"
  assumes kept: "\<And>q. q \<noteq> old \<Longrightarrow> block_kept (mm st) h q" and p: "owns h p k"
    and new: "p = old \<or> (\<forall>j. \<not> owns (mm st) p j)"
  shows "S \<inter> range_of (unat p) k = {}"
  using src unfolding client_region_def
proof (elim conjE disjE exE)
  fix q j assume q: "owns (mm st) q j" "S \<subseteq> range_of (unat q) j"
    "\<forall>i<FS_MAX_FILES. f_data (fs_ram st) (slot (file_table st) i) \<noteq> q"
  then have "q \<noteq> old" using i by (auto simp: old_def)
  from block_keptD [OF kept [OF this] q(1)] have "owns h q j" .
  moreover have "q \<noteq> p" using new q(1) \<open>q \<noteq> old\<close> by blast
  ultimately have "range_of (unat q) j \<inter> range_of (unat p) k = {}" using p by (intro heap.owns_disjoint)
  with q(2) show ?thesis by blast
qed (use heap.owns_bounds [OF p] in blast)

text \<open>The copy into the new block and the size field.\<close>

lemma write_store:
  assumes rep: "fs_rep st A" and i: "i < FS_MAX_FILES" and e: "slots A ! i = Some e" and ok: "heap_ok h"
  defines "f \<equiv> slot (file_table st) i"
  assumes fr: "agree_on (- (eset f \<union> arena)) (fs_ram st) (ram h)"
    and nm: "agree_on (range_of (unat f) 32) (fs_ram st) (ram h)"
    and fl: "f_flags (ram h) f = f_flags (fs_ram st) f"
    and kept: "\<And>q. q \<noteq> f_data (fs_ram st) f \<Longrightarrow> block_kept (mm st) h q"
    and p: "f_data (ram h) f = p" "p \<noteq> NULL" "owns h p k" "unat n \<le> k"
    and new: "p = f_data (fs_ram st) f \<or> (\<forall>j. \<not> owns (mm st) p j)"
    and data: "unat n \<le> unat FS_MAX_FILESIZE" "unat data + unat n \<le> 2 ^ 32"
    and src: "client_region st (range_of (unat data) (unat n))"
  defines "h' \<equiv> h\<lparr>ram := put_size (memcpy (ram h) p data n) f n\<rparr>"
  shows "fs_rep (st\<lparr>mm := h'\<rparr>) (set_cont i (Stored (bytes_at (fs_ram st) data (unat n))) A)"
    "\<And>q. q \<noteq> f_data (fs_ram st) f \<Longrightarrow> block_kept (mm st) h' q"
    "\<And>q j. owns h' q j \<longleftrightarrow> owns h q j" "agree_on (- (eset f \<union> arena)) (fs_ram st) (ram h')" "f_data (ram h') f = p"
proof -
  note D = fs_repD [OF rep]
  note sp = slot_props [OF D(1) i, folded f_def]
  have dis: "range_of (unat data) (unat n) \<inter> range_of (unat p) k = {}"
    using client_region_apart [OF src i kept [unfolded f_def] p(3)] new by (simp add: f_def)
  note fb = fill_block [OF ok p(3) order_refl _ dis data(2)]
  let ?m = "memcpy (ram h) p data n"
  have fb: "heap_ok (h\<lparr>ram := ?m\<rparr>)" "owns (h\<lparr>ram := ?m\<rparr>) q j \<longleftrightarrow> owns h q j"
    "q \<noteq> p \<Longrightarrow> block_kept h (h\<lparr>ram := ?m\<rparr>) q" "agree_on (- arena) (ram h) ?m"
    "bytes_at ?m p (unat n) = bytes_at (ram h) data (unat n)" for q j
    using fb p(4) by simp_all
  have ag: "agree_on (- (eset f \<union> arena)) (ram h) ?m" "agree_on (range_of (unat f) 32) (ram h) ?m"
    "agree_on (eset f) (ram h) ?m"
    by (rule agree_on_mono [OF fb(4)], use sp(4) in \<open>force simp: eset_def\<close>)+
  note c = fields_cong [OF sp(2) ag(3)]
  have arr: "bytes_at ?m p (unat n) = bytes_at (fs_ram st) data (unat n)"
    using fb(5) bytes_at_cong [OF client_region_kept [OF src D(1) i fr [unfolded f_def] kept [unfolded f_def]] data(2)]
    by simp
  have cont: "content_rep (h\<lparr>ram := ?m\<rparr>) (f_data (put_size ?m f n) f) (f_size (put_size ?m f n) f)
      (Stored (bytes_at (fs_ram st) data (unat n)))"
    using arr p fb(2) c(1) sp(2) data(1) by (auto simp: content_rep_def fields_put)
  have kept': "block_kept (mm st) (h\<lparr>ram := ?m\<rparr>) q" if "q \<noteq> f_data (fs_ram st) f" for q
  proof (cases "\<exists>j. owns (mm st) q j")
    case True
    with new that have "q \<noteq> p" by blast
    then show ?thesis using block_kept_trans [OF kept [OF that] fb(3)] by blast
  qed (simp add: block_kept_def)
  have fresh: "f_data (put_size ?m f n) f = NULL \<or> f_data (put_size ?m f n) f = f_data (fs_ram st) f
      \<or> (\<forall>k. \<not> owns (mm st) (f_data (put_size ?m f n) f) k)"
    using new p(1) c(1) sp(2) by (simp add: fields_put)
  have fr2: "agree_on (- (eset f \<union> arena)) (fs_ram st) (ram (h\<lparr>ram := ?m\<rparr>))"
    "agree_on (range_of (unat f) 32) (fs_ram st) (ram (h\<lparr>ram := ?m\<rparr>))"
    "f_flags (ram (h\<lparr>ram := ?m\<rparr>)) f = f_flags (fs_ram st) f"
    using agree_on_trans [OF fr ag(1)] agree_on_trans [OF nm ag(2)] fl c(3) by simp_all
  note r = commit [OF rep i e fb(1), folded f_def, OF fr2 kept' _ cont fresh, simplified, folded h'_def]
  show "fs_rep (st\<lparr>mm := h'\<rparr>) (set_cont i (Stored (bytes_at (fs_ram st) data (unat n))) A)" by (rule r(1))
  show "block_kept (mm st) h' q" if "q \<noteq> f_data (fs_ram st) f" for q by (rule r(3) [OF that])
  show "owns h' q j \<longleftrightarrow> owns h q j" for q j using r(2) fb(2) by simp
  show "agree_on (- (eset f \<union> arena)) (fs_ram st) (ram h')" using r(4) by (simp add: h'_def)
  show "f_data (ram h') f = p" using p(1) c(1) sp(2) by (simp add: h'_def fields_put)
qed

fun lost :: "fcontent \<Rightarrow> fcontent" where
  "lost (Stored bs) = (if bs = [] then Stored [] else Lost (length bs))"
| "lost (Lost k) = Lost k"

lemma content_rep_lost: "content_rep h p n c \<Longrightarrow> content_rep h' NULL n (lost c)"
  by (cases c) (auto simp: content_rep_def)

text \<open>
  A write stores all bytes, or fails for lack of memory with the contents lost; the blocks it leaves
  are old ones or the file's, and it does not fail while there is room.
\<close>

lemma fs_write_full:
  assumes rep: "fs_rep st A" and i: "i < FS_MAX_FILES" and e: "slots A ! i = Some e"
    and data: "data \<noteq> NULL" "n \<le> FS_MAX_FILESIZE" "unat data + unat n \<le> 2 ^ 32"
    and src: "client_region st (range_of (unat data) (unat n))"
  defines "f \<equiv> slot (file_table st) i"
  shows "\<exists>r h'. fs_write f data n st = Some (r, st\<lparr>mm := h'\<rparr>)
    \<and> (r = sint n \<and> fs_rep (st\<lparr>mm := h'\<rparr>) (set_cont i (Stored (bytes_at (fs_ram st) data (unat n))) A)
       \<or> r = -3 \<and> 0 < n \<and> fs_rep (st\<lparr>mm := h'\<rparr>) (set_cont i (lost (econt e)) A)
         \<and> (\<forall>g\<ge>28. \<not> gap (mm st) (malloc_total (unat n) + g)))
    \<and> (\<forall>q. q \<noteq> f_data (fs_ram st) f \<longrightarrow> block_kept (mm st) h' q)
    \<and> agree_on (- (eset f \<union> arena)) (fs_ram st) (ram h')
    \<and> (\<forall>q k. owns h' q k \<longrightarrow> owns (mm st) q k \<and> q \<noteq> f_data (fs_ram st) f \<or> q = f_data (ram h') f)
    \<and> (f_data (ram h') f = f_data (fs_ram st) f \<or> (\<forall>k. \<not> owns (mm st) (f_data (ram h') f) k))
    \<and> (\<forall>g\<ge>28. gap (mm st) (malloc_total (unat n) + g) \<longrightarrow> gap h' g)"
proof -
  note D = fs_repD [OF rep]
  note sp = slot_props [OF D(1) i, folded f_def]
  have nb: "unat n \<le> unat FS_MAX_FILESIZE" using data(2) by (simp add: word_le_nat_alt)
  then have nb': "unat n \<le> 0xFFFFFFF0" by (simp add: FS_MAX_FILESIZE_def)
  obtain h where h: "drop_data f st = Some (st\<lparr>mm := h\<rparr>)" "heap_ok h"
    "agree_on (- (eset f \<union> arena)) (fs_ram st) (ram h)" "agree_on (range_of (unat f) 32) (fs_ram st) (ram h)"
    "f_data (ram h) f = NULL" "f_size (ram h) f = f_size (fs_ram st) f" "f_flags (ram h) f = f_flags (fs_ram st) f"
    "\<And>q. q \<noteq> f_data (fs_ram st) f \<Longrightarrow> block_kept (mm st) h q"
    "\<And>q k. owns h q k \<longleftrightarrow> owns (mm st) q k \<and> q \<noteq> f_data (fs_ram st) f"
    by (rule drop_data_props [OF rep i, folded f_def], rule that, assumption+)
  have null: "\<not> owns (mm st) NULL k" for k using heap.owns_bounds by blast
  have gh: "gap h g" if "gap (mm st) g" for g by (rule gap_kept [OF that]) (simp add: h(9))
  have nle: "\<not> FS_MAX_FILESIZE < n" using data(2) by simp
  note run = fs_write_def set_ram_mm(1) fields_put [OF sp(2)] Let_def
  have fc: "content_rep (mm st) (f_data (fs_ram st) f) (f_size (fs_ram st) f) (econt e)"
    using D(4) [OF i] e by (simp add: entry_rep_def f_def)
  show ?thesis
  proof (cases "n = 0")
    case True
    have "content_rep h (f_data (put_size (ram h) f n) f) (f_size (put_size (ram h) f n) f) (Stored [])"
      using h(5) sp(2) True by (simp add: fields_put content_rep_def)
    moreover have "f_data (put_size (ram h) f n) f = NULL" using h(5) sp(2) by (simp add: fields_put)
    note r = commit [OF rep i e h(2), folded f_def, OF h(3,4,7,8) field_updateI(2) calculation disjI1 [OF this]]
    have "gap (h\<lparr>ram := put_size (ram h) f n\<rparr>) g" if "gap (mm st) (malloc_total (unat n) + g)" for g
      by (rule gap_kept [OF gap_mono [OF that]]) (use r(2) h(5,9) in simp_all)
    with r h(1,5,9) True sp(1) data(1) nle null \<open>f_data (put_size (ram h) f n) f = NULL\<close> show ?thesis
      by (intro exI [of _ "sint n"] exI [of _ "h\<lparr>ram := put_size (ram h) f n\<rparr>"]) (simp add: run)
  next
    case False
    then have np: "0 < unat n" "0 < n" by (simp_all add: unat_gt_0 word_neq_0_conv)
    obtain p h2 where a: "kmalloc n h = Some (p, h2)" "heap_ok h2" "p = NULL \<Longrightarrow> h2 = h"
      "agree_on (- arena) (ram h) (ram h2)" "\<And>q. block_kept h h2 q" "\<And>q k. owns h q k \<Longrightarrow> q \<noteq> p"
      "p \<noteq> NULL \<Longrightarrow> \<exists>k. unat n \<le> k \<and> (\<forall>q j. owns h2 q j \<longleftrightarrow> owns h q j \<or> q = p \<and> j = k)"
      by (rule kmalloc_kept [OF h(2) np(1) nb'], rule that, assumption+)
    have ag: "agree_on (- (eset f \<union> arena)) (ram h) (ram h2)" "agree_on (range_of (unat f) 32) (ram h) (ram h2)"
      "agree_on (eset f) (ram h) (ram h2)"
      by (rule agree_on_mono [OF a(4)], use sp(4) in \<open>force simp: eset_def\<close>)+
    note c2 = fields_cong [OF sp(2) ag(3)]
    have fr: "agree_on (- (eset f \<union> arena)) (fs_ram st) (ram h2)"
      "agree_on (range_of (unat f) 32) (fs_ram st) (ram h2)" "f_flags (ram h2) f = f_flags (fs_ram st) f"
      using agree_on_trans [OF h(3) ag(1)] agree_on_trans [OF h(4) ag(2)] h(7) c2(3) by simp_all
    have kept: "block_kept (mm st) h2 q" if "q \<noteq> f_data (fs_ram st) f" for q
      by (rule block_kept_trans [OF h(8) [OF that] a(5)])
    show ?thesis
    proof (cases "p = NULL")
      case True
      have "content_rep h2 (f_data (put_data (ram h2) f p) f) (f_size (put_data (ram h2) f p) f) (lost (econt e))"
        using content_rep_lost [OF fc] h(6) c2(2) sp(2) True by (simp add: fields_put)
      moreover have "f_data (put_data (ram h2) f p) f = NULL" using True sp(2) by (simp add: fields_put)
      note r = commit [OF rep i e a(2), folded f_def, OF fr kept field_updateI(1) calculation disjI1 [OF this]]
      have "\<not> gap (mm st) (malloc_total (unat n) + g)" if "28 \<le> g" for g
        using gap_alloc(1) [OF h(2) np(1) nb' gh that a(1)] True by blast
      with r h(1,5,9) a(1,3) True np(2) sp(1) data(1) nle null \<open>f_data (put_data (ram h2) f p) f = NULL\<close> show ?thesis
        by (intro exI [of _ "-3"] exI [of _ "h2\<lparr>ram := put_data (ram h2) f p\<rparr>"]) (simp add: run)
    next
      case pn: False
      then obtain k where k: "unat n \<le> k" "\<And>q j. owns h2 q j \<longleftrightarrow> owns h q j \<or> q = p \<and> j = k" using a(7) by blast
      note w = table_fields_write [OF D(1) i a(2) fr(1,2) [unfolded f_def] field_updateI(1), of p, folded f_def]
      have new: "p = f_data (fs_ram st) f \<or> (\<forall>j. \<not> owns (mm st) p j)" using a(6) h(9) by blast
      have kept2: "block_kept (mm st) (h2\<lparr>ram := put_data (ram h2) f p\<rparr>) q" if "q \<noteq> f_data (fs_ram st) f" for q
        by (rule block_kept_trans [OF kept [OF that] w(3)])
      have pk: "owns (h2\<lparr>ram := put_data (ram h2) f p\<rparr>) p k" using w(2) k(2) by blast
      have st2: "agree_on (- (eset f \<union> arena)) (fs_ram st) (ram (h2\<lparr>ram := put_data (ram h2) f p\<rparr>))"
        "agree_on (range_of (unat f) 32) (fs_ram st) (ram (h2\<lparr>ram := put_data (ram h2) f p\<rparr>))"
        "f_flags (ram (h2\<lparr>ram := put_data (ram h2) f p\<rparr>)) f = f_flags (fs_ram st) f"
        "f_data (ram (h2\<lparr>ram := put_data (ram h2) f p\<rparr>)) f = p"
        using w(4,5) fr(3) by (simp_all add: fields_put [OF sp(2)])
      note r = write_store [OF rep i e w(1), folded f_def, OF st2(1-3) kept2 st2(4) pn pk k(1) new nb data(3) src]
      have "fs_write f data n st = Some (sint n, st\<lparr>mm := h2\<lparr>ram := put_size (memcpy (put_data (ram h2) f p) p data n) f n\<rparr>\<rparr>)"
        using a(1) np(2) pn h(1) sp(1) data(1) nle by (simp add: run)
      moreover have "gap (h2\<lparr>ram := put_size (memcpy (put_data (ram h2) f p) p data n) f n\<rparr>) g"
        if "28 \<le> g" "gap (mm st) (malloc_total (unat n) + g)" for g
        by (rule gap_kept [OF gap_alloc(2) [OF h(2) np(1) nb' gh [OF that(2)] that(1) a(1)]]) (use r(3) w(2) in simp)
      moreover have "owns h q j \<or> q = p"
        if "owns (h2\<lparr>ram := put_size (memcpy (put_data (ram h2) f p) p data n) f n\<rparr>) q j" for q j
        using that r(3) w(2) k(2) by auto
      ultimately show ?thesis
        using r(1,2,4,5) h(9) new
        by (intro exI [of _ "sint n"] exI [of _ "h2\<lparr>ram := put_size (memcpy (put_data (ram h2) f p) p data n) f n\<rparr>"]) auto
    qed
  qed
qed

lemma fs_write_spec:
  assumes "fs_rep st A" "i < FS_MAX_FILES" "slots A ! i = Some e" "data \<noteq> NULL" "n \<le> FS_MAX_FILESIZE"
    and "unat data + unat n \<le> 2 ^ 32" "client_region st (range_of (unat data) (unat n))"
  defines "f \<equiv> slot (file_table st) i"
  shows "\<exists>r st'. fs_write f data n st = Some (r, st')
    \<and> (r = sint n \<and> fs_rep st' (set_cont i (Stored (bytes_at (fs_ram st) data (unat n))) A)
       \<or> r = -3 \<and> 0 < n \<and> fs_rep st' (set_cont i (lost (econt e)) A))
    \<and> (\<forall>q. q \<noteq> f_data (fs_ram st) f \<longrightarrow> block_kept (mm st) (mm st') q)"
  using fs_write_full [OF assms(1-7)] unfolding f_def by fastforce

section \<open>fs_append\<close>

fun csize :: "fcontent \<Rightarrow> nat" where
  "csize (Stored bs) = length bs"
| "csize (Lost k) = k"

lemma content_size:
  "content_rep h p n c \<Longrightarrow> n = of_nat (csize c) \<and> unat n = csize c \<and> csize c \<le> unat FS_MAX_FILESIZE"
  by (cases c) (auto simp: content_rep_def FS_MAX_FILESIZE_def intro!: unat_of_nat_lt)

text \<open>The two copies into the new block: the old contents, then the new bytes.\<close>

lemma append_fill:
  assumes ok: "heap_ok h" and p: "owns h p k" and len: "s0 + unat n \<le> k" "0 < unat n"
    and old: "p0 \<noteq> NULL \<longrightarrow> 0 < s0 \<longrightarrow> (\<exists>j. owns h p0 j \<and> s0 \<le> j \<and> p0 \<noteq> p)"
    and src: "range_of (unat data) (unat n) \<inter> range_of (unat p) k = {}" "unat data + unat n \<le> 2 ^ 32"
  defines "m1 \<equiv> (if p0 \<noteq> NULL \<and> 0 < s0 then memcpy (ram h) p p0 (of_nat s0) else ram h)"
  defines "m2 \<equiv> memcpy m1 (p + of_nat s0) data n"
  shows "heap_ok (h\<lparr>ram := m2\<rparr>)" "\<And>q j. owns (h\<lparr>ram := m2\<rparr>) q j \<longleftrightarrow> owns h q j"
    "\<And>q. q \<noteq> p \<Longrightarrow> block_kept h (h\<lparr>ram := m2\<rparr>) q" "agree_on (- arena) (ram h) m2" "agree_on (- arena) (ram h) m1"
    "\<exists>gs. length gs = s0 \<and> (p0 \<noteq> NULL \<longrightarrow> gs = bytes_at (ram h) p0 s0)
      \<and> bytes_at m2 p (s0 + unat n) = gs @ bytes_at (ram h) data (unat n)"
proof -
  note pb = heap.owns_bounds [OF p]
  have step1: "heap_ok (h\<lparr>ram := m1\<rparr>) \<and> (\<forall>q j. owns (h\<lparr>ram := m1\<rparr>) q j \<longleftrightarrow> owns h q j)
    \<and> (\<forall>q. q \<noteq> p \<longrightarrow> block_kept h (h\<lparr>ram := m1\<rparr>) q) \<and> agree_on (- arena) (ram h) m1
    \<and> agree_on (- range_of (unat p) k) (ram h) m1
    \<and> (p0 \<noteq> NULL \<longrightarrow> bytes_at m1 p s0 = bytes_at (ram h) p0 s0)"
  proof (cases "p0 \<noteq> NULL \<and> 0 < s0")
    case True
    with old obtain j where j: "owns h p0 j" "s0 \<le> j" "p0 \<noteq> p" by blast
    have us: "unat (of_nat s0 :: u32) = s0" using pb len heap.owns_bounds [OF j(1)] unat_gt_0 [of p] by (intro unat_of_nat_lt) linarith
    have "range_of (unat p0) s0 \<subseteq> range_of (unat p0) j" using j(2) by auto
    moreover note heap.owns_disjoint [OF j(1) p j(3)]
    ultimately have dis: "range_of (unat p0) s0 \<inter> range_of (unat p) k = {}" by blast
    have "unat p0 + s0 \<le> 2 ^ 32" using heap.owns_bounds [OF j(1)] j(2) by simp
    from fill_block [OF ok p order_refl _ _ , of "of_nat s0" p0, unfolded us, OF _ dis this] len
    have "heap_ok (h\<lparr>ram := m1\<rparr>)" "\<And>q j. owns (h\<lparr>ram := m1\<rparr>) q j \<longleftrightarrow> owns h q j"
      "\<And>q. q \<noteq> p \<Longrightarrow> block_kept h (h\<lparr>ram := m1\<rparr>) q" "agree_on (- arena) (ram h) m1"
      and fr: "agree_on (- range_of (unat p) s0) (ram h) m1" and "bytes_at m1 p s0 = bytes_at (ram h) p0 s0"
      using True by (simp_all add: m1_def)
    moreover have "agree_on (- range_of (unat p) k) (ram h) m1" by (rule agree_on_mono [OF fr]) (use len in auto)
    ultimately show ?thesis by blast
  next
    case False
    then have "m1 = ram h" by (auto simp: m1_def)
    with ok False show ?thesis by auto
  qed
  then have o1: "owns (h\<lparr>ram := m1\<rparr>) p k" using p by blast
  have ud: "unat (p + of_nat s0) = unat p + s0" using pb len by (intro unat_offset) linarith
  from fill_block [OF conjunct1 [OF step1] o1, of "p + of_nat s0" n data, unfolded ud, OF _ _ src] len
  have f2: "heap_ok (h\<lparr>ram := m2\<rparr>)" "owns (h\<lparr>ram := m2\<rparr>) q j \<longleftrightarrow> owns (h\<lparr>ram := m1\<rparr>) q j"
    "q \<noteq> p \<Longrightarrow> block_kept (h\<lparr>ram := m1\<rparr>) (h\<lparr>ram := m2\<rparr>) q" "agree_on (- arena) m1 m2"
    "agree_on (- range_of (unat p + s0) (unat n)) m1 m2"
    "bytes_at m2 (p + of_nat s0) (unat n) = bytes_at m1 data (unat n)" for q j
    by (simp_all add: m2_def)
  show "heap_ok (h\<lparr>ram := m2\<rparr>)" by (rule f2(1))
  show "owns (h\<lparr>ram := m2\<rparr>) q j \<longleftrightarrow> owns h q j" for q j using f2(2) step1 by blast
  show "block_kept h (h\<lparr>ram := m2\<rparr>) q" if "q \<noteq> p" for q
    using step1 f2(3) [OF that] that by (blast intro: block_kept_trans)
  show "agree_on (- arena) (ram h) m2" "agree_on (- arena) (ram h) m1" using step1 f2(4) by (blast intro: agree_on_trans)+
  have "agree_on (range_of (unat p) s0) m1 m2" by (rule agree_on_mono [OF f2(5)]) auto
  then have "bytes_at m1 p s0 = bytes_at m2 p s0" using pb len by (intro bytes_at_cong) simp_all
  moreover have "agree_on (range_of (unat data) (unat n)) (ram h) m1"
    by (rule agree_on_mono [of "- range_of (unat p) k"]) (use step1 src(1) in auto)
  then have "bytes_at (ram h) data (unat n) = bytes_at m1 data (unat n)" using src(2) by (rule bytes_at_cong)
  ultimately show "\<exists>gs. length gs = s0 \<and> (p0 \<noteq> NULL \<longrightarrow> gs = bytes_at (ram h) p0 s0)
      \<and> bytes_at m2 p (s0 + unat n) = gs @ bytes_at (ram h) data (unat n)"
    using step1 f2(6) by (intro exI [of _ "bytes_at m1 p s0"]) (auto simp: bytes_at_add)
qed

text \<open>\<^verbatim>\<open>if (p != NULL) kfree(p);\<close>\<close>

lemma kfree_opt_kept:
  assumes "heap_ok h" "p \<noteq> NULL \<longrightarrow> (\<exists>k. owns h p k)"
  obtains h' where "(if p \<noteq> NULL then kfree p h else Some h) = Some h'" "heap_ok h'"
    "agree_on (- arena) (ram h) (ram h')"
    "\<And>q k. owns h' q k \<longleftrightarrow> owns h q k \<and> q \<noteq> p" "\<And>q. q \<noteq> p \<Longrightarrow> block_kept h h' q"
proof (cases "p = NULL")
  case True
  then show thesis using assms(1) heap.owns_bounds by (intro that [of h]) auto
next
  case False
  with assms(2) obtain k where "owns h p k" by blast
  from kfree_kept [OF assms(1) this] False that show thesis by metis
qed

text \<open>The heap side of \<^verbatim>\<open>fs_append\<close> once the new block is there: filled, and the old block freed.\<close>

lemma append_heap:
  assumes h: "heap_ok h" "\<And>q. block_kept h0 h q" "\<And>q j. owns h q j \<longleftrightarrow> owns h0 q j \<or> q = p \<and> j = k" "\<And>j. \<not> owns h0 p j"
    and len: "s0 + unat n \<le> k" "0 < unat n" and own0: "p0 \<noteq> NULL \<Longrightarrow> \<exists>j. owns h0 p0 j \<and> s0 \<le> j"
    and src: "range_of (unat data) (unat n) \<inter> range_of (unat p) k = {}" "unat data + unat n \<le> 2 ^ 32"
  defines "m1 \<equiv> (if p0 \<noteq> NULL \<and> 0 < s0 then memcpy (ram h) p p0 (of_nat s0) else ram h)"
  defines "m2 \<equiv> memcpy m1 (p + of_nat s0) data n"
  obtains h3 gs where "(if p0 \<noteq> NULL then kfree p0 (h\<lparr>ram := m2\<rparr>) else Some (h\<lparr>ram := m2\<rparr>)) = Some h3" "heap_ok h3"
    "agree_on (- arena) (ram h) m1" "agree_on (- arena) (ram h) m2" "agree_on (- arena) (ram h) (ram h3)"
    "owns h3 p k" "length gs = s0" "p0 \<noteq> NULL \<longrightarrow> gs = bytes_at (ram h) p0 s0"
    "bytes_at (ram h3) p (s0 + unat n) = gs @ bytes_at (ram h) data (unat n)" "\<And>q. q \<noteq> p0 \<Longrightarrow> block_kept h0 h3 q"
proof -
  have pk: "owns h p k" using h(3) by blast
  have "p \<noteq> NULL" using heap.owns_bounds [OF pk] by blast
  then have pp0: "p \<noteq> p0" using own0 h(4) by metis
  then have old: "p0 \<noteq> NULL \<longrightarrow> 0 < s0 \<longrightarrow> (\<exists>j. owns h p0 j \<and> s0 \<le> j \<and> p0 \<noteq> p)" using own0 h(3) by blast
  note fill = append_fill [OF h(1) pk len old src, folded m1_def, folded m2_def]
  have o2: "p0 \<noteq> NULL \<longrightarrow> (\<exists>j. owns (h\<lparr>ram := m2\<rparr>) p0 j)" using fill(2) h(3) own0 by blast
  obtain h3 where h3: "(if p0 \<noteq> NULL then kfree p0 (h\<lparr>ram := m2\<rparr>) else Some (h\<lparr>ram := m2\<rparr>)) = Some h3"
    "heap_ok h3" "agree_on (- arena) (ram (h\<lparr>ram := m2\<rparr>)) (ram h3)"
    "\<And>q k. owns h3 q k \<longleftrightarrow> owns (h\<lparr>ram := m2\<rparr>) q k \<and> q \<noteq> p0"
    "\<And>q. q \<noteq> p0 \<Longrightarrow> block_kept (h\<lparr>ram := m2\<rparr>) h3 q"
    by (rule kfree_opt_kept [OF fill(1) o2], rule that, assumption+)
  from fill(6) obtain gs where gs: "length gs = s0" "p0 \<noteq> NULL \<longrightarrow> gs = bytes_at (ram h) p0 s0"
    "bytes_at m2 p (s0 + unat n) = gs @ bytes_at (ram h) data (unat n)" by blast
  have "block_kept (h\<lparr>ram := m2\<rparr>) h3 p" by (rule h3(5) [OF pp0])
  then have fr3: "agree_on (range_of (unat p) k) m2 (ram h3)" using fill(2) pk by (simp add: block_kept_def)
  have "agree_on (range_of (unat p) (s0 + unat n)) m2 (ram h3)" by (rule agree_on_mono [OF fr3]) (use len(1) in auto)
  moreover have "unat p + (s0 + unat n) \<le> 2 ^ 32" using heap.owns_bounds [OF pk] len(1) by linarith
  ultimately have in3: "bytes_at m2 p (s0 + unat n) = bytes_at (ram h3) p (s0 + unat n)" by (rule bytes_at_cong)
  have kept: "block_kept h0 h3 q" if "q \<noteq> p0" for q
  proof (cases "\<exists>j. owns h0 q j")
    case True
    then have "q \<noteq> p" using h(4) by blast
    from block_kept_trans [OF block_kept_trans [OF h(2) fill(3) [OF this]] h3(5) [OF that]] show ?thesis .
  qed (simp add: block_kept_def)
  have "agree_on (- arena) m2 (ram h3)" using h3(3) by simp
  with fill(4) have "agree_on (- arena) (ram h) (ram h3)" by (rule agree_on_trans)
  moreover have "owns h3 p k" using h3(4) fill(2) pk pp0 by blast
  ultimately show thesis using that [OF h3(1,2) fill(5,4)] gs in3 kept by auto
qed

lemma fs_append_spec:
  assumes rep: "fs_rep st A" and i: "i < FS_MAX_FILES" and e: "slots A ! i = Some e"
    and data: "data \<noteq> NULL" "0 < n" "csize (econt e) + unat n \<le> unat FS_MAX_FILESIZE"
      "unat data + unat n \<le> 2 ^ 32"
    and src: "client_region st (range_of (unat data) (unat n))"
  defines "f \<equiv> slot (file_table st) i"
  shows "(\<exists>st' gs. fs_append f data n st = Some (sint n, st') \<and> length gs = csize (econt e)
      \<and> (\<forall>bs. econt e = Stored bs \<longrightarrow> gs = bs)
      \<and> fs_rep st' (set_cont i (Stored (gs @ bytes_at (fs_ram st) data (unat n))) A)
      \<and> (\<forall>q. q \<noteq> f_data (fs_ram st) f \<longrightarrow> block_kept (mm st) (mm st') q))
    \<or> fs_append f data n st = Some (-3, st)"
proof -
  note D = fs_repD [OF rep]
  note sp = slot_props [OF D(1) i, folded f_def]
  let ?s0 = "csize (econt e)" and ?p0 = "f_data (fs_ram st) f"
  have fc: "content_rep (mm st) ?p0 (f_size (fs_ram st) f) (econt e)"
    using D(4) [OF i] e by (simp add: entry_rep_def f_def)
  note sz = content_size [OF fc]
  have max: "unat FS_MAX_FILESIZE = 65536" by (simp add: FS_MAX_FILESIZE_def)
  have new: "unat (f_size (fs_ram st) f + n) = ?s0 + unat n"
    using sz data(3) max by (subst unat_plus_no_wrap) simp_all
  then have nle: "\<not> FS_MAX_FILESIZE < f_size (fs_ram st) f + n" using data(3) by (simp add: word_less_nat_alt)
  have np: "0 < unat n" "n \<noteq> 0" using data(2) by (auto simp: unat_gt_0)
  have np': "0 < unat (f_size (fs_ram st) f + n)" "unat (f_size (fs_ram st) f + n) \<le> 0xFFFFFFF0"
    using new np(1) data(3) max by simp_all
  obtain p h where a: "kmalloc (f_size (fs_ram st) f + n) (mm st) = Some (p, h)" "heap_ok h"
    "p = NULL \<Longrightarrow> h = mm st" "agree_on (- arena) (fs_ram st) (ram h)" "\<And>q. block_kept (mm st) h q"
    "\<And>q k. owns (mm st) q k \<Longrightarrow> q \<noteq> p"
    "p \<noteq> NULL \<Longrightarrow> \<exists>k. unat (f_size (fs_ram st) f + n) \<le> k \<and> (\<forall>q j. owns h q j \<longleftrightarrow> owns (mm st) q j \<or> q = p \<and> j = k)"
    by (rule kmalloc_kept [OF D(2) np'], rule that, assumption+)
  note run = fs_append_def set_ram_mm(1) fields_put [OF sp(2)] Let_def
  show ?thesis
  proof (cases "p = NULL")
    case True
    with a(1,3) sp(1) data(1) np(2) nle show ?thesis by (simp add: run)
  next
    case pn: False
    then obtain k where k: "?s0 + unat n \<le> k" "\<And>q j. owns h q j \<longleftrightarrow> owns (mm st) q j \<or> q = p \<and> j = k"
      using a(7) new by auto
    have agf: "agree_on (eset f) (fs_ram st) m" if "agree_on (- arena) (fs_ram st) m" for m
      by (rule agree_on_mono [OF that]) (use sp(4) in blast)
    have own0: "\<exists>j. owns (mm st) ?p0 j \<and> ?s0 \<le> j" if "?p0 \<noteq> NULL"
      by (rule file_block [OF rep i that [unfolded f_def]]) (use e in \<open>auto simp: f_def\<close>)
    have pnew: "\<not> owns (mm st) p j" for j using a(6) by blast
    have pk: "owns h p k" using k(2) by blast
    have dis: "range_of (unat data) (unat n) \<inter> range_of (unat p) k = {}"
      using client_region_apart [OF src i a(5) pk] pnew by blast
    define m1 where "m1 = (if ?p0 \<noteq> NULL \<and> 0 < ?s0 then memcpy (ram h) p ?p0 (of_nat ?s0) else ram h)"
    define m2 where "m2 = memcpy m1 (p + of_nat ?s0) data n"
    obtain h3 gs where h3: "(if ?p0 \<noteq> NULL then kfree ?p0 (h\<lparr>ram := m2\<rparr>) else Some (h\<lparr>ram := m2\<rparr>)) = Some h3" "heap_ok h3"
      "agree_on (- arena) (ram h) m1" "agree_on (- arena) (ram h) m2" "agree_on (- arena) (ram h) (ram h3)"
      and own3: "owns h3 p k" and gs: "length gs = ?s0" "?p0 \<noteq> NULL \<longrightarrow> gs = bytes_at (ram h) ?p0 ?s0"
      "bytes_at (ram h3) p (?s0 + unat n) = gs @ bytes_at (ram h) data (unat n)"
      and kept: "\<And>q. q \<noteq> ?p0 \<Longrightarrow> block_kept (mm st) h3 q"
      by (rule append_heap [OF a(2,5) k(2) pnew k(1) np(1) own0 dis data(4), folded m1_def, folded m2_def]) (assumption, rule that, assumption+)
    have out: "agree_on (- arena) (fs_ram st) m1" "agree_on (- arena) (fs_ram st) m2"
      "agree_on (- arena) (fs_ram st) (ram h3)"
      using a(4) h3(3-5) by (auto intro: agree_on_trans)
    note c1 = fields_cong(1-3) [OF sp(2) agf [OF a(4)], symmetric]
      and c2 = fields_cong(1-3) [OF sp(2) agf [OF out(1)], symmetric]
      and c3 = fields_cong(1-3) [OF sp(2) agf [OF out(2)], symmetric]
      and c4 = fields_cong(1-3) [OF sp(2) agf [OF out(3)], symmetric]
    let ?new = "f_size (fs_ram st) f + n"
    let ?m = "put_size (put_data (ram h3) f p) f ?new"
    have m1: "m1 = (if ?p0 \<noteq> NULL \<and> 0 < f_size (fs_ram st) f then memcpy (ram h) p ?p0 (f_size (fs_ram st) f) else ram h)"
      using sz by (auto simp: m1_def word_less_nat_alt)
    have m2: "m2 = memcpy m1 (p + f_size (fs_ram st) f) data n" using sz by (simp add: m2_def)
    have run': "fs_append f data n st = Some (sint n, st\<lparr>mm := h3\<lparr>ram := ?m\<rparr>\<rparr>)"
      using sp(1) data(1) np(2) nle a(1) pn h3(1)
      by (simp only: run c1 m1 [symmetric] c2 m2 [symmetric] c3 split_conv bind.bind_lunit simp_thms if_True if_False)
    have "agree_on (range_of (unat data) (unat n)) (fs_ram st) (ram h)"
      by (rule client_region_kept [OF src D(1) i agree_on_mono [OF a(4)] a(5)]) blast
    from bytes_at_cong [OF this data(4)] gs(3)
    have in3: "bytes_at (ram h3) p (?s0 + unat n) = gs @ bytes_at (fs_ram st) data (unat n)" by simp
    have stored: "gs = bs" if "econt e = Stored bs" for bs
    proof (cases "?p0 = NULL")
      case True
      then show ?thesis using that fc gs(1) by (simp add: content_rep_def)
    next
      case nz: False
      from content_rep_frame [OF fc a(5)] that nz have "bytes_at (ram h) ?p0 (length bs) = bs"
        by (auto simp: content_rep_def)
      with gs(2) nz that show ?thesis by simp
    qed
    have cont: "content_rep h3 (f_data ?m f) (f_size ?m f) (Stored (gs @ bytes_at (fs_ram st) data (unat n)))"
      using in3 own3 k(1) pn gs(1) sz data(3) max
      by (auto simp: content_rep_def fields_put [OF sp(2)])
    have "agree_on (- (eset f \<union> arena)) (fs_ram st) (ram h3)" "agree_on (range_of (unat f) 32) (fs_ram st) (ram h3)"
      by (rule agree_on_mono [OF out(3)], use sp(4) in \<open>force simp: eset_def\<close>)+
    note r = commit [OF rep i e h3(2), folded f_def, OF this c4(3) kept field_updateI(3) cont]
    have "fs_rep (st\<lparr>mm := h3\<lparr>ram := ?m\<rparr>\<rparr>) (set_cont i (Stored (gs @ bytes_at (fs_ram st) data (unat n))) A)"
      "\<And>q. q \<noteq> ?p0 \<Longrightarrow> block_kept (mm st) (h3\<lparr>ram := ?m\<rparr>) q"
      using r(1,3) pnew by (simp_all add: fields_put [OF sp(2)])
    then show ?thesis using run' gs(1) stored by (intro disjI1 exI conjI) auto
  qed
qed

section \<open>fs_read\<close>

text \<open>A write into the caller's own bytes leaves every file alone.\<close>

lemma client_write:
  assumes rep: "fs_rep st A" and S: "client_region st S" and fr: "agree_on (- S) (fs_ram st) m"
  shows "fs_rep (set_ram m st) A" "\<And>q k. owns ((mm st)\<lparr>ram := m\<rparr>) q k \<longleftrightarrow> owns (mm st) q k"
proof -
  note D = fs_repD [OF rep]
  let ?s = "slot (file_table st)" and ?h = "(mm st)\<lparr>ram := m\<rparr>"
  have "heap_ok ?h \<and> (\<forall>q k. owns ?h q k \<longleftrightarrow> owns (mm st) q k)
    \<and> (\<forall>i<FS_MAX_FILES. f_data (fs_ram st) (?s i) \<noteq> NULL \<longrightarrow> block_kept (mm st) ?h (f_data (fs_ram st) (?s i)))"
    using S unfolding client_region_def
  proof (elim conjE disjE exE)
    assume "S \<inter> arena = {}"
    then have a: "agree_on arena (fs_ram st) m" by (intro agree_on_mono [OF fr]) blast
    have "block_kept (mm st) ?h q" for q
      unfolding block_kept_def
      using heap.write_outside_law [OF D(2) a] heap.owns_bounds [of "mm st" q]
      by (auto intro: agree_on_mono [OF a])
    with heap.write_outside_law [OF D(2) a] show ?thesis by blast
  next
    fix q k assume q: "owns (mm st) q k" "S \<subseteq> range_of (unat q) k"
      "\<forall>i<FS_MAX_FILES. f_data (fs_ram st) (?s i) \<noteq> q"
    have fq: "agree_on (- range_of (unat q) k) (fs_ram st) m" by (rule agree_on_mono [OF fr]) (use q(2) in blast)
    note w = heap.write_law [OF D(2) q(1) fq]
    have "block_kept (mm st) ?h p" if "p \<noteq> q" for p
      unfolding block_kept_def
    proof (intro allI impI conjI)
      fix j assume p: "owns (mm st) p j"
      then show "owns ?h p j" using w by blast
      from heap.owns_disjoint [OF p q(1) that]
      show "agree_on (range_of (unat p) j) (fs_ram st) (ram ?h)"
        using agree_on_mono [OF fq, of "range_of (unat p) j"] by (simp add: disjoint_eq_subset_Compl)
    qed
    with w q(3) show ?thesis by blast
  qed
  then have ok: "heap_ok ?h" and own: "\<And>q k. owns ?h q k \<longleftrightarrow> owns (mm st) q k"
    and kept: "\<And>i. i < FS_MAX_FILES \<Longrightarrow> f_data (fs_ram st) (?s i) \<noteq> NULL \<Longrightarrow> block_kept (mm st) ?h (f_data (fs_ram st) (?s i))"
    by blast+
  show "owns ?h q k \<longleftrightarrow> owns (mm st) q k" for q k by (rule own)
  have et: "agree_on (eset (?s i)) (fs_ram st) (ram ?h)" if "i < FS_MAX_FILES" for i
    using slot_props(3) [OF D(1) that] S agree_on_mono [OF fr, of "eset (?s i)"] by (auto simp: client_region_def)
  have "entry_rep ?h (?s i) (slots A ! i)" if "i < FS_MAX_FILES" for i
    by (rule entry_rep_frame [OF slot_props(2) [OF D(1) that] D(4) [OF that] et [OF that] kept [OF that]])
  moreover have "f_data m (?s i) = f_data (fs_ram st) (?s i)" if "i < FS_MAX_FILES" for i
    using fields_cong(1) [OF slot_props(2) [OF D(1) that] et [OF that]] by simp
  then have "distinct_data m (file_table st)" using D(6) by (simp add: distinct_data_def)
  moreover have "agree_on (cspan (Ptr (current_dir st)) (Suc (length (cwd A)))) (fs_ram st) m"
  proof (rule agree_on_mono [OF fr])
    have "range_of (unat (current_dir st)) (Suc (length (cwd A))) \<subseteq> range_of (unat (current_dir st)) 32"
      using D(8) by (intro range_of_subset) (simp_all add: FS_MAX_FILENAME_def)
    with S show "cspan (Ptr (current_dir st)) (Suc (length (cwd A))) \<subseteq> - S" by (auto simp: client_region_def)
  qed
  then have "cstr m (Ptr (current_dir st)) (cwd A)"
    using cstr_cong [of "Ptr (current_dir st)" "cwd A" "fs_ram st" m] D(1,7,8) by (simp add: layout_def FS_MAX_FILENAME_def)
  moreover have "layout (set_ram m st)" using D(1) by (simp add: layout_def set_ram_def)
  ultimately show "fs_rep (set_ram m st) A" using D(3,5,8) ok by (simp add: fs_rep_def set_ram_def)
qed

lemma fs_read_spec:
  assumes rep: "fs_rep st A" and i: "i < FS_MAX_FILES" and e: "slots A ! i = Some e" "econt e = Stored bs"
    and buf: "buffer \<noteq> NULL" "unat buffer + (length bs - unat off) \<le> 2 ^ 32"
    and S: "client_region st (range_of (unat buffer) (min (unat n) (length bs - unat off)))"
  defines "f \<equiv> slot (file_table st) i"
  shows "\<exists>st'. fs_read f buffer n off st = (int (min (unat n) (length bs - unat off)), st') \<and> fs_rep st' A
    \<and> bytes_at (fs_ram st') buffer (min (unat n) (length bs - unat off)) = take (unat n) (drop (unat off) bs)
    \<and> agree_on (- range_of (unat buffer) (min (unat n) (length bs - unat off))) (fs_ram st) (fs_ram st')
    \<and> (\<forall>q k. owns (mm st') q k \<longleftrightarrow> owns (mm st) q k)"
proof -
  note D = fs_repD [OF rep]
  note sp = slot_props [OF D(1) i, folded f_def]
  let ?p = "f_data (fs_ram st) f" and ?len = "min (unat n) (length bs - unat off)"
  have fc: "content_rep (mm st) ?p (f_size (fs_ram st) f) (Stored bs)"
    using D(4) [OF i] e by (simp add: entry_rep_def f_def)
  have sz: "unat (f_size (fs_ram st) f) = length bs" "length bs \<le> unat FS_MAX_FILESIZE"
    using content_size [OF fc] by auto
  show ?thesis
  proof (cases "f_size (fs_ram st) f \<le> off")
    case True
    then have "length bs \<le> unat off" using sz by (simp add: word_le_nat_alt)
    with True rep sp(1) buf(1) show ?thesis by (simp add: fs_read_def)
  next
    case False
    then have off: "unat off < length bs" using sz by (simp add: word_le_nat_alt)
    then have pn: "?p \<noteq> NULL" using fc by (auto simp: content_rep_def)
    then obtain k where k: "owns (mm st) ?p k" "length bs \<le> k" "bytes_at (fs_ram st) ?p (length bs) = bs"
      using fc by (auto simp: content_rep_def)
    note pb = heap.owns_bounds [OF k(1)]
    define w where "w = (if n < f_size (fs_ram st) f - off then n else f_size (fs_ram st) f - off)"
    have "unat (f_size (fs_ram st) f - off) = length bs - unat off"
      using sz off by (subst unat_minus_no_wrap) simp_all
    then have w: "unat w = ?len" unfolding w_def by (auto simp: word_less_nat_alt)
    have "?len \<le> 65536" using sz by (auto simp: FS_MAX_FILESIZE_def min_def)
    then have sw: "sint w = int ?len" using w by (subst sint_small) simp_all
    have uo: "unat (?p + off) = unat ?p + unat off" using pb k(2) off by (subst unat_plus_no_wrap) simp_all
    let ?m = "memcpy (fs_ram st) buffer (?p + off) w"
    have sub: "range_of (unat (?p + off)) ?len \<subseteq> range_of (unat ?p) k" unfolding uo using k(2) off by (intro range_of_subset) (auto simp: min_def)
    have dis: "range_of (unat buffer) ?len \<inter> range_of (unat ?p) k = {}"
      using client_region_apart [OF S i block_kept_refl k(1) [unfolded f_def]] by (simp add: f_def)
    have bb: "unat buffer + ?len \<le> 2 ^ 32" "unat (?p + off) + ?len \<le> 2 ^ 32"
      using buf(2) uo pb k(2) off by (auto simp: min_def)
    have fr: "agree_on (- range_of (unat buffer) ?len) (fs_ram st) ?m" using bb w by (intro agree_on_memcpy) auto
    have got: "bytes_at ?m buffer ?len = bytes_at (fs_ram st) (?p + off) ?len"
    proof (cases "?len = 0")
      case nz: False
      have "range_of (unat buffer) ?len \<inter> range_of (unat (?p + off)) ?len = {}" using dis sub by blast
      then have "unat buffer + ?len \<le> unat (?p + off) \<or> unat (?p + off) + ?len \<le> unat buffer"
        using nz bb by (intro range_overlap) auto
      then show ?thesis using bb unfolding w [symmetric] by (intro bytes_at_memcpy) auto
    qed simp
    have "bytes_at (fs_ram st) (?p + off) (length bs - unat off) = drop (unat off) bs"
      using drop_bytes_at [of "unat off" "length bs" "fs_ram st" ?p] k(3) off by simp
    then have "bytes_at (fs_ram st) (?p + off) ?len = take ?len (drop (unat off) bs)"
      using take_bytes_at [of ?len "length bs - unat off" "fs_ram st" "?p + off"] by simp
    also have "\<dots> = take (unat n) (drop (unat off) bs)" by (auto simp: min_def)
    finally have "bytes_at ?m buffer ?len = take (unat n) (drop (unat off) bs)" using got by simp
    moreover have "fs_read f buffer n off st = (int ?len, set_ram ?m st)"
      using False sp(1) buf(1) pn sw by (simp add: fs_read_def Let_def w_def [symmetric])
    ultimately show ?thesis using client_write [OF rep S fr] fr by (simp add: set_ram_def)
  qed
qed

end
