(* ===== verification/Heap_Props.thy ===== *)
theory Heap_Props
  imports Heap_Own
begin

text \<open>
  The properties of the allocator of \<^verbatim>\<open>src/src/kernel/memory.c\<close>: it implements first fit with
  splitting and full coalescing, it separates its callers, its statistics are exact, and the two
  places where the size arithmetic can wrap around.
\<close>

section \<open>Start-up\<close>

lemma hdr_memory_init:
  "hdr (ram (memory_init st)) (of_nat HEAP_START) = (of_nat HEAP_SIZE, 0, NULL)"
proof -
  have "ram (memory_init st) = set_next (set_used (set_size (ram st) (of_nat HEAP_START)
      (of_nat HEAP_SIZE)) (of_nat HEAP_START) 0) (of_nat HEAP_START) NULL"
    by (simp add: memory_init_def Let_def)
  then show ?thesis by simp
qed

text \<open>After \<^verbatim>\<open>memory_init\<close> the heap is sound and is one free block of 4 MB.\<close>

lemma memory_init_rep: "heap_rep (memory_init st) [(HEAP_SIZE, False)]"
  using hdr_memory_init [of st]
  by (simp add: heap_rep_def nxt_def HEAP_END_def memory_init_def Let_def)
    (simp add: HEAP_SIZE_def)

text \<open>The heap right after start-up, in zeroed memory, and with one block of 100 bytes taken.\<close>

definition boot_mm :: mm where
  "boot_mm = memory_init \<lparr>ram = (\<lambda>_. 0), heap_start = 0, total_memory = 0, used_memory = 0\<rparr>"

lemma boot_rep: "heap_rep boot_mm [(HEAP_SIZE, False)]"
  using memory_init_rep by (simp add: boot_mm_def)

section \<open>Reachable heaps\<close>

text \<open>
  The states a well-behaved program can bring the heap to: it starts with \<^verbatim>\<open>memory_init\<close>, requests
  sizes that do not overflow, frees pointers it owns, and writes into blocks it owns or outside
  the heap.
\<close>

inductive heap_reach :: "mm \<Rightarrow> bool" where
  heap_boot: "heap_reach (memory_init st)"
| heap_malloc: "heap_reach st \<Longrightarrow> unat sz \<le> 0xFFFFFFF0 \<Longrightarrow> kmalloc sz st = Some (p, st') \<Longrightarrow>
    heap_reach st'"
| heap_free: "heap_reach st \<Longrightarrow> owns st p n \<Longrightarrow> kfree p st = Some st' \<Longrightarrow> heap_reach st'"
| heap_write: "heap_reach st \<Longrightarrow> owns st p n \<Longrightarrow> agree_on (- range_of (unat p) n) (ram st) m \<Longrightarrow>
    heap_reach (st\<lparr>ram := m\<rparr>)"
| heap_outside: "heap_reach st \<Longrightarrow> agree_on arena (ram st) m \<Longrightarrow> heap_reach (st\<lparr>ram := m\<rparr>)"

lemma heap_reach_ok: "heap_reach st \<Longrightarrow> heap_ok st"
proof (induction rule: heap_reach.induct)
  case (heap_boot st)
  then show ?case using memory_init_rep by (auto simp: heap_ok_def)
next
  case (heap_malloc st sz p st')
  then show ?case
  proof (cases "unat sz = 0")
    case True
    with heap_malloc show ?thesis by (simp add: kmalloc_def unat_eq_zero)
  qed (use heap_malloc heap.alloc_law [of st sz] in auto)
next
  case (heap_free st p n st')
  then show ?case using heap.free_law [of st p n] by auto
next
  case (heap_write st p n m)
  then show ?case using heap.write_law by blast
next
  case (heap_outside st m)
  then show ?case using heap.write_outside_law by blast
qed

text \<open>
  C3: Every reachable heap is sound: the headers form one ordered list of blocks that tiles the
  4 MB region with no two adjacent free blocks, the usage counter is exact, live blocks do
  not overlap, and the next \<^verbatim>\<open>kmalloc\<close> and \<^verbatim>\<open>kfree\<close> of a live block return.
\<close>
theorem heap_reach_sound:
  assumes "heap_reach st"
  shows "(\<exists>bs. heap_rep st bs \<and> coalesced bs \<and> bsum bs = HEAP_SIZE \<and> used_memory st = of_nat (used_sum bs))
    \<and> (\<forall>p n q k. owns st p n \<longrightarrow> owns st q k \<longrightarrow> p \<noteq> q \<longrightarrow> range_of (unat p) n \<inter> range_of (unat q) k = {})
    \<and> (\<forall>sz. unat sz \<le> 0xFFFFFFF0 \<longrightarrow> kmalloc sz st \<noteq> None)
    \<and> (\<forall>p n. owns st p n \<longrightarrow> kfree p st \<noteq> None)"
proof (intro conjI allI impI)
  note ok = heap_reach_ok [OF assms]
  then show "\<exists>bs. heap_rep st bs \<and> coalesced bs \<and> bsum bs = HEAP_SIZE \<and> used_memory st = of_nat (used_sum bs)"
    by (auto simp: heap_ok_def heap_rep_def)
  show "range_of (unat p) n \<inter> range_of (unat q) k = {}" if "owns st p n" "owns st q k" "p \<noteq> q" for p n q k
    using that by (rule heap.owns_disjoint)
  show "kmalloc sz st \<noteq> None" if "unat sz \<le> 0xFFFFFFF0" for sz
    using heap.alloc_law [OF ok, of sz] that by (cases "unat sz = 0") (auto simp: kmalloc_def unat_eq_zero)
  show "kfree p st \<noteq> None" if "owns st p n" for p n
    using heap.free_law [OF ok that] by auto
qed

theorem heap_reach_sound_witness: "kmalloc 100 boot_mm \<noteq> None"
proof -
  have "heap_reach boot_mm" unfolding boot_mm_def by (rule heap_boot)
  from heap_reach_sound [OF this] show ?thesis by simp
qed

section \<open>Allocation\<close>

lemma kmalloc_rep:
  assumes "heap_rep st bs" "0 < unat sz" "unat sz \<le> 0xFFFFFFF0"
  shows "\<exists>ptr st'. kmalloc sz st = Some (ptr, st') \<and>
    (case alloc_list HEAP_START (malloc_total (unat sz)) bs of
       None \<Rightarrow> ptr = NULL \<and> st' = st
     | Some (p, bs') \<Rightarrow> unat ptr = p + 12 \<and> heap_rep st' bs')"
proof (cases "alloc_list HEAP_START (malloc_total (unat sz)) bs")
  case None
  then show ?thesis by (simp add: kmalloc_eq [OF assms])
next
  case (Some r)
  obtain p bs' where r: "r = (p, bs')" by (cases r)
  with Some obtain xs n ys where d: "bs = xs @ (n, False) # ys" "p = HEAP_START + bsum xs"
    "malloc_total (unat sz) \<le> n" "bs' = xs @ split_block (malloc_total (unat sz)) n @ ys"
    by (auto elim: alloc_list_SomeE)
  note t = unat_malloc_total [OF assms(3)]
  have "20 \<le> unat (request_size sz)" "unat (request_size sz) \<le> n" "4 dvd unat (request_size sz)"
    using malloc_total_bounds [of "unat sz"] assms(2) d(3) t by auto
  note rep = kmalloc_take_rep(1) [OF assms(1) [unfolded d(1)] this]
  have "p + 12 \<le> HEAP_END"
    using assms(1) d(1,2,3) malloc_total_bounds(2) [of "unat sz"]
    by (simp add: heap_rep_def HEAP_END_def)
  then have "unat (of_nat p + 12 :: addr) = p + 12" using of_nat_addr [of "p + 12"] by simp
  with rep show ?thesis using Some r d t by (simp add: kmalloc_eq [OF assms])
qed

text \<open>
  C9: On a sound heap kmalloc returns for every size that does not overflow, takes the first free
  block that fits, splits it as the specification says, and returns NULL with nothing changed
  when no block fits.
\<close>

theorem kmalloc_first_fit:
  assumes "heap_rep st bs" "0 < unat sz" "unat sz \<le> 0xFFFFFFF0"
  shows "\<exists>ptr st'. kmalloc sz st = Some (ptr, st') \<and>
    (case alloc_list HEAP_START (malloc_total (unat sz)) bs of
       None \<Rightarrow> ptr = NULL \<and> st' = st
     | Some (p, bs') \<Rightarrow> unat ptr = p + 12 \<and> heap_rep st' bs')"
  using assms by (rule kmalloc_rep)

lemma boot_alloc: "alloc_list HEAP_START (malloc_total 100) [(HEAP_SIZE, False)] =
    Some (HEAP_START, [(116, True), (HEAP_SIZE - 116, False)])"
  by (simp add: malloc_total_def split_block_def HEAP_SIZE_def)

theorem kmalloc_first_fit_witness:
  "\<exists>ptr st'. kmalloc 100 boot_mm = Some (ptr, st') \<and> unat ptr = HEAP_START + 12
     \<and> heap_rep st' [(116, True), (HEAP_SIZE - 116, False)]"
  using kmalloc_first_fit [OF boot_rep, of 100] by (simp add: boot_alloc del: alloc_list.simps)

text \<open>
  C10: A block kmalloc hands out has the requested size and overlaps no block that was live before;
  the call changes no byte of those blocks and no byte outside the heap. When it returns NULL the
  whole state is as before.
\<close>

theorem kmalloc_separates:
  assumes "heap_ok st" "0 < unat sz" "unat sz \<le> 0xFFFFFFF0"
  shows "\<exists>p st'. kmalloc sz st = Some (p, st') \<and> heap_ok st' \<and>
    (p = NULL \<and> st' = st \<or>
     agree_on (- arena) (ram st) (ram st') \<and>
     (\<exists>n. unat sz \<le> n \<and> owns st' p n \<and> range_of (unat p) n \<subseteq> arena \<and> (\<forall>q k. owns st q k \<longrightarrow>
        owns st' q k \<and> range_of (unat q) k \<inter> range_of (unat p) n = {}
        \<and> bytes_at (ram st') q k = bytes_at (ram st) q k)))"
proof -
  from kmalloc_owns [OF assms] obtain p st' where
    k: "kmalloc sz st = Some (p, st')" "heap_ok st'" and
    r: "p = NULL \<and> st' = st \<or> (\<forall>k. \<not> owns st p k)
       \<and> (\<exists>n. unat sz \<le> n \<and> (\<forall>q k. owns st' q k \<longleftrightarrow> owns st q k \<or> q = p \<and> k = n))
       \<and> agree_on (- arena) (ram st) (ram st')
       \<and> (\<forall>q k. owns st q k \<longrightarrow> agree_on (range_of (unat q) k) (ram st) (ram st'))" by blast
  show ?thesis
  proof (cases "p = NULL \<and> st' = st")
    case True
    with k show ?thesis by blast
  next
    case False
    with r obtain n where n: "unat sz \<le> n" "\<forall>q k. owns st' q k \<longleftrightarrow> owns st q k \<or> q = p \<and> k = n"
      "\<forall>k. \<not> owns st p k" "\<forall>q k. owns st q k \<longrightarrow> agree_on (range_of (unat q) k) (ram st) (ram st')"
      "agree_on (- arena) (ram st) (ram st')" by blast
    then have pn: "owns st' p n" by blast
    have "owns st' q k \<and> range_of (unat q) k \<inter> range_of (unat p) n = {}
        \<and> bytes_at (ram st') q k = bytes_at (ram st) q k" if q: "owns st q k" for q k
    proof -
      have "owns st' q k" "q \<noteq> p" using q n(2,3) by blast+
      moreover have "bytes_at (ram st) q k = bytes_at (ram st') q k"
        using n(4) q owns_arena [OF q] by (intro bytes_at_cong) blast+
      ultimately show ?thesis using owns_separate [OF _ pn] by auto
    qed
    with k n(1,5) pn owns_arena [OF pn] show ?thesis by blast
  qed
qed

lemma boot_ok: "heap_ok boot_mm"
  using boot_rep by (auto simp: heap_ok_def)

theorem kmalloc_separates_witness:
  "\<exists>p st'. kmalloc 100 boot_mm = Some (p, st') \<and> heap_ok st' \<and> agree_on (- arena) (ram boot_mm) (ram st')"
  using kmalloc_separates [OF boot_ok, of 100] by auto

section \<open>Release\<close>

text \<open>
  C11: kfree of a live block returns and leaves the heap that marking the block free and merging
  all neighbouring free blocks gives.
\<close>

theorem kfree_coalesces:
  assumes "heap_rep st bs" "(p, n) \<in> set (placed HEAP_START bs)"
  shows "\<exists>st'. kfree (of_nat p + 12) st = Some st' \<and> heap_rep st' (free_list HEAP_START p bs)"
proof -
  from assms(2) obtain xs ys where bs: "bs = xs @ (n, True) # ys" "p = HEAP_START + bsum xs"
    by (auto simp: placed_iff)
  from kfree_rep [OF assms(1) [unfolded bs(1)]] show ?thesis
    using free_list_dealloc [OF assms(1) [unfolded bs(1)]] by (metis bs)
qed

definition one_block_mm :: mm where
  "one_block_mm = kmalloc_take (of_nat HEAP_START) (request_size 100) boot_mm"

lemma one_block_rep: "heap_rep one_block_mm [(116, True), (HEAP_SIZE - 116, False)]"
proof -
  have "unat (request_size 100) = 116"
    using unat_malloc_total [of 100] by (simp add: malloc_total_def)
  with kmalloc_take_rep(1) [of boot_mm "[]" HEAP_SIZE "[]" "request_size 100"] boot_rep
  show ?thesis by (simp add: one_block_mm_def split_block_def HEAP_SIZE_def)
qed

theorem kfree_coalesces_witness:
  "\<exists>st'. kfree (of_nat HEAP_START + 12) one_block_mm = Some st' \<and> heap_rep st' [(HEAP_SIZE, False)]"
  using kfree_coalesces [OF one_block_rep, of HEAP_START 116]
  by (simp add: free_list_def HEAP_SIZE_def)

text \<open>
  C17: kfree of a live block releases exactly that block: every other live block stays live with
  its bytes unchanged, and a second kfree of the same pointer does nothing.
\<close>

theorem kfree_releases_one:
  assumes "owns st p n"
  shows "\<exists>st'. kfree p st = Some st' \<and> heap_ok st'
    \<and> (\<forall>q k. owns st' q k \<longleftrightarrow> owns st q k \<and> q \<noteq> p)
    \<and> (\<forall>q k. owns st' q k \<longrightarrow> bytes_at (ram st') q k = bytes_at (ram st) q k)
    \<and> kfree p st' = Some st'"
proof -
  from kfree_owns [OF assms] obtain st' where st': "kfree p st = Some st'" "heap_ok st'"
    "\<forall>q k. owns st' q k \<longleftrightarrow> owns st q k \<and> q \<noteq> p"
    "\<forall>q k. owns st q k \<longrightarrow> q \<noteq> p \<longrightarrow> agree_on (range_of (unat q) k) (ram st) (ram st')" by blast
  have "bytes_at (ram st') q k = bytes_at (ram st) q k" if "owns st' q k" for q k
  proof -
    have "agree_on (range_of (unat q) k) (ram st) (ram st')" using st'(3,4) that by blast
    then have "bytes_at (ram st) q k = bytes_at (ram st') q k"
      using owns_arena [OF that] by (intro bytes_at_cong) blast+
    then show ?thesis by simp
  qed
  moreover have "kfree p st' = Some st'"
  proof -
    from assms obtain bs a where "heap_rep st bs" "(a, n + 12) \<in> set (placed HEAP_START bs)"
      and p: "p = of_nat (a + 12)" by (rule ownsE)
    then obtain xs ys where bs: "heap_rep st (xs @ (n + 12, True) # ys)" "a = HEAP_START + bsum xs"
      by (auto simp: placed_iff)
    from kfree_rep [OF bs(1)] st'(1) have "blk_used (ram st') (of_nat a) = 0"
      by (auto simp: p bs(2))
    then show ?thesis by (simp add: kfree_def p)
  qed
  ultimately show ?thesis using st' by blast
qed

lemma one_block_owns: "owns one_block_mm (of_nat (HEAP_START + 12)) 104"
  unfolding owns_rep [OF one_block_rep] by (intro exI [of _ HEAP_START]) simp

theorem kfree_releases_one_witness:
  "\<exists>st'. kfree (of_nat (HEAP_START + 12)) one_block_mm = Some st' \<and> heap_ok st'"
  using kfree_releases_one [OF one_block_owns] by blast

lemma absorb_same: "ys = [] \<or> snd (hd ys) \<Longrightarrow> absorb n ys = (n, ys)"
  by (cases ys; cases "hd ys") (auto simp: absorb_def)

text \<open>
  C18: Freeing what kmalloc has just returned gives back the block list, so the usage counter too.
\<close>

theorem kmalloc_kfree_roundtrip:
  assumes "heap_rep st bs" "0 < unat sz" "unat sz \<le> 0xFFFFFFF0"
    and "kmalloc sz st = Some (ptr, st')" "ptr \<noteq> NULL"
  shows "\<exists>st''. kfree ptr st' = Some st'' \<and> heap_rep st'' bs \<and> used_memory st'' = used_memory st"
proof (cases rule: kmalloc_SomeE [OF assms(1-3), case_names fail taken])
  case fail
  with assms(4,5) show ?thesis by simp
next
  case (taken st1 xs n ys)
  let ?t = "malloc_total (unat sz)"
  have ptr: "ptr = of_nat (HEAP_START + bsum xs) + 12" "st1 = st'" using taken(1) assms(4) by simp_all
  have co: "xs = [] \<or> snd (last xs)" "ys = [] \<or> snd (hd ys)"
    using assms(1) by (auto simp: heap_rep_def taken(2) coalesced_append coalesced_Cons)
  define c where "c = (if ?t + 28 \<le> n then ?t else n)"
  define zs where "zs = (if ?t + 28 \<le> n then (n - ?t, False) # ys else ys)"
  have sp: "xs @ split_block ?t n @ ys = xs @ (c, True) # zs"
    by (simp add: c_def zs_def split_block_def)
  have "absorb c zs = (n, ys)"
    using taken(3) absorb_same [OF co(2)] by (simp add: c_def zs_def) (simp add: absorb_def)
  then have "dealloc xs c zs = bs" using co(1) taken(2) by (auto simp: dealloc_def)
  with kfree_rep [OF taken(5) [unfolded sp]] obtain st'' where
    "kfree ptr st' = Some st''" "heap_rep st'' bs" unfolding ptr by metis
  with assms(1) show ?thesis by (auto simp: heap_rep_def)
qed

theorem kmalloc_kfree_roundtrip_witness:
  "\<exists>ptr st' st''. kmalloc 100 boot_mm = Some (ptr, st') \<and> kfree ptr st' = Some st''
     \<and> heap_rep st'' [(HEAP_SIZE, False)]"
proof -
  have "kmalloc 100 boot_mm = Some (of_nat HEAP_START + 12, one_block_mm)"
    using kmalloc_eq [OF boot_rep, of 100] by (simp add: boot_alloc one_block_mm_def del: alloc_list.simps)
  moreover have "of_nat HEAP_START + 12 \<noteq> NULL" by (simp add: HEAP_START_def)
  ultimately show ?thesis
    using kmalloc_kfree_roundtrip [OF boot_rep, of 100 "of_nat HEAP_START + 12" one_block_mm] by auto
qed

section \<open>Statistics\<close>

text \<open>
  The counters are exact on a sound heap: used memory is the total size of the blocks in use,
  headers included, free memory the total size of the others, and both add up to 4 MB.
\<close>

theorem memory_statistics:
  assumes "heap_rep st bs"
  shows "unat (memory_get_used st) = used_sum bs \<and> unat (memory_get_free st) = free_sum bs
    \<and> unat (memory_get_total st) = HEAP_SIZE \<and> used_sum bs + free_sum bs = HEAP_SIZE"
proof -
  have s: "used_sum bs + free_sum bs = HEAP_SIZE"
    using assms used_free_sum [of bs] by (simp add: heap_rep_def)
  have u: "unat (of_nat (used_sum bs) :: u32) = used_sum bs"
    "unat (of_nat HEAP_SIZE :: u32) = HEAP_SIZE"
    using s by (auto intro!: unat_of_nat_lt simp: HEAP_SIZE_def)
  then have "unat (of_nat HEAP_SIZE - of_nat (used_sum bs) :: u32) = HEAP_SIZE - used_sum bs"
    using s by (subst unat_minus_no_wrap) auto
  with assms s u show ?thesis
    by (simp add: heap_rep_def memory_get_used_def memory_get_free_def memory_get_total_def)
qed

theorem memory_statistics_witness:
  "unat (memory_get_used one_block_mm) = 116 \<and> unat (memory_get_free one_block_mm) = 0x400000 - 116"
  using memory_statistics [OF one_block_rep] by (simp add: used_sum_def free_sum_def HEAP_SIZE_def)

section \<open>kcalloc and krealloc\<close>

text \<open>
  When the product does not overflow, kcalloc returns NULL or a new block of at least
  num * size bytes whose first num * size bytes are zero, and changes no live byte.
\<close>

theorem kcalloc_zeroes:
  assumes "heap_ok st" "0 < unat num * unat sz" "unat num * unat sz \<le> 0xFFFFFFF0"
  shows "\<exists>p st'. kcalloc num sz st = Some (p, st') \<and> heap_ok st' \<and>
    (p = NULL \<and> st' = st \<or>
     bytes_at (ram st') p (unat num * unat sz) = replicate (unat num * unat sz) 0
     \<and> (\<exists>n. unat num * unat sz \<le> n \<and> (\<forall>q k. owns st' q k \<longleftrightarrow> owns st q k \<or> q = p \<and> k = n))
     \<and> (\<forall>q k. owns st q k \<longrightarrow> bytes_at (ram st') q k = bytes_at (ram st) q k))"
proof -
  have tot: "unat (num * sz) = unat num * unat sz"
    using assms(3) by (simp add: unat_word_ariths)
  have l: "0 < unat (num * sz)" "unat (num * sz) \<le> 0xFFFFFFF0" using assms tot by simp_all
  from heap.alloc_law [OF assms(1) l] obtain p st1 where
    k: "kmalloc (num * sz) st = Some (p, st1)" "heap_ok st1" "p = NULL \<longrightarrow> st1 = st"
    by (metis (no_types, lifting))
  show ?thesis
  proof (cases "p = NULL")
    case True
    with k show ?thesis by (simp add: kcalloc_def)
  next
    case False
    let ?m = "memset (ram st1) p 0 (num * sz)"
    have bd: "unat p + unat (num * sz) \<le> 2 ^ 32"
      by (rule heap.alloc_and_fill(3) [OF assms(1) l k(1) False agree_on_refl])
    then have fr: "agree_on (- range_of (unat p) (unat (num * sz))) (ram st1) ?m"
      by (intro agree_on_memset) auto
    note fill = heap.alloc_and_fill [OF assms(1) l k(1) False fr]
    have same: "bytes_at ?m q k = bytes_at (ram st) q k" if "owns st q k" for q k
    proof -
      have "bytes_at (ram st) q k = bytes_at ?m q k"
        using fill(6) that owns_arena [OF that] by (intro bytes_at_cong) blast+
      then show ?thesis by simp
    qed
    have "kcalloc num sz st = Some (p, st1\<lparr>ram := ?m\<rparr>)"
      using k(1) False by (simp add: kcalloc_def)
    moreover have "bytes_at ?m p (unat num * unat sz) = replicate (unat num * unat sz) 0"
      using bytes_at_memset [OF bd, of "ram st1" 0] by (simp add: tot)
    ultimately show ?thesis using fill(1,4) same tot by auto
  qed
qed

theorem kcalloc_zeroes_witness:
  "\<exists>p st'. kcalloc 25 4 boot_mm = Some (p, st') \<and> heap_ok st'"
  using kcalloc_zeroes [OF boot_ok, of 25 4] by auto

lemma owns_header:
  assumes "owns st p n"
  shows "blk_size (ram st) (p - 12) = of_nat (n + 12)" "unat (blk_size (ram st) (p - 12) - 12) = n"
proof -
  from assms obtain bs a where rep: "heap_rep st bs" and a: "(a, n + 12) \<in> set (placed HEAP_START bs)"
    and p: "p = of_nat (a + 12)" and e: "a + 12 + n \<le> HEAP_END" by (rule ownsE)
  from a obtain xs ys where bs: "bs = xs @ (n + 12, True) # ys" "a = HEAP_START + bsum xs"
    by (auto simp: placed_iff)
  with rep have "hdr (ram st) (of_nat a) = (of_nat (n + 12), 1, nxt (a + (n + 12)))"
    by (simp add: heap_rep_def seg_append)
  then show s: "blk_size (ram st) (p - 12) = of_nat (n + 12)" by (simp add: p fields_of_hdr)
  have "unat (of_nat (n + 12) :: u32) = n + 12" using e by (intro unat_of_nat_lt) (simp add: heap_consts)
  moreover have "(of_nat (n + 12) :: u32) - 12 = of_nat n" by simp
  moreover have "unat (of_nat n :: u32) = n" using e by (intro unat_of_nat_lt) (simp add: heap_consts)
  ultimately show "unat (blk_size (ram st) (p - 12) - 12) = n" by (simp only: s)
qed

lemma krealloc_old_size:
  assumes "owns st ptr n"
  obtains old where "old = blk_size (ram st) (ptr - 12) - 12" "unat old = n" "ptr \<noteq> NULL" "heap_ok st"
    "heap.safe st (range_of (unat ptr) (unat old))" "unat ptr + unat old \<le> 2 ^ 32"
proof -
  let ?old = "blk_size (ram st) (ptr - 12) - 12"
  have old: "unat ?old = n" by (rule owns_header(2) [OF assms])
  have "heap_ok st" using assms by (auto simp: owns_def heap_ok_def)
  moreover have "heap.safe st (range_of (unat ptr) (unat ?old))"
    unfolding heap.safe_def old using assms by blast
  moreover have "unat ptr + unat ?old \<le> 2 ^ 32" "ptr \<noteq> NULL"
    using owns_arena [OF assms] unfolding old by simp_all
  ultimately show thesis by (intro that [OF refl old])
qed

text \<open>The case of \<^verbatim>\<open>krealloc\<close> that moves the block.\<close>

lemma krealloc_move:
  assumes own: "owns st ptr n" and sz: "n < unat sz" "unat sz \<le> 0xFFFFFFF0"
    and al: "kmalloc sz st = Some (p, st1)" "p \<noteq> NULL"
  shows "\<exists>st'. krealloc ptr sz st = Some (p, st') \<and> heap_ok st'
     \<and> bytes_at (ram st') p n = bytes_at (ram st) ptr n
     \<and> (\<exists>k'\<ge>unat sz. \<forall>q k. owns st' q k \<longleftrightarrow> owns st q k \<and> q \<noteq> ptr \<or> q = p \<and> k = k')
     \<and> (\<forall>q k. owns st q k \<longrightarrow> q \<noteq> ptr \<longrightarrow> bytes_at (ram st') q k = bytes_at (ram st) q k)"
proof -
  from krealloc_old_size [OF own] obtain old where
    old: "old = blk_size (ram st) (ptr - 12) - 12" "unat old = n" and ptr: "ptr \<noteq> NULL"
    and ok: "heap_ok st" and src: "heap.safe st (range_of (unat ptr) (unat old))"
      "unat ptr + unat old \<le> 2 ^ 32" by metis
  let ?m = "memcpy (ram st1) p ptr old" and ?st2 = "st1\<lparr>ram := memcpy (ram st1) p ptr old\<rparr>"
  have le: "unat old \<le> unat sz" "0 < unat sz" using old sz by simp_all
  note cp = heap.alloc_and_copy [OF ok le(2) sz(2) le(1) src al]
  note fill = heap.alloc_and_fill [OF ok le(2) sz(2) al cp(1)]
  obtain k' where k': "unat sz \<le> k'" "\<forall>q k. owns ?st2 q k \<longleftrightarrow> owns st q k \<or> q = p \<and> k = k'"
    using fill(4) by blast
  then have o2: "owns ?st2 ptr n" "owns ?st2 p k'" "p \<noteq> ptr" using own fill(2) by blast+
  from heap.free_law [OF fill(1) o2(1)] obtain st3 where
    f: "kfree ptr ?st2 = Some st3" "heap_ok st3"
      "\<forall>q k. owns st3 q k \<longleftrightarrow> owns ?st2 q k \<and> q \<noteq> ptr"
      "\<forall>q k. owns ?st2 q k \<longrightarrow> q \<noteq> ptr \<longrightarrow> agree_on (range_of (unat q) k) ?m (ram st3)" by auto
  have "\<not> sz \<le> old" "sz \<noteq> 0" using sz old(2) by (auto simp: word_le_nat_alt)
  then have "krealloc ptr sz st = Some (p, st3)"
    using ptr al f(1) by (simp add: krealloc_def Let_def old(1))
  moreover have "agree_on (range_of (unat p) k') ?m (ram st3)" using f(4) o2(2,3) by blast
  then have "agree_on (range_of (unat p) n) ?m (ram st3)"
    using sz k'(1) by (elim agree_on_mono) auto
  then have "bytes_at ?m p n = bytes_at (ram st3) p n"
    using fill(3) sz by (intro bytes_at_cong) auto
  with cp(2) old(2) have "bytes_at (ram st3) p n = bytes_at (ram st) ptr n" by simp
  moreover have "bytes_at (ram st3) q k = bytes_at (ram st) q k" if q: "owns st q k" "q \<noteq> ptr" for q k
  proof -
    have "owns ?st2 q k" using q(1) k'(2) by blast
    then have "agree_on (range_of (unat q) k) (ram st) (ram st3)"
      using f(4) q fill(6) by (blast intro: agree_on_trans)
    then have "bytes_at (ram st) q k = bytes_at (ram st3) q k"
      using owns_arena [OF q(1)] by (intro bytes_at_cong) blast+
    then show ?thesis by simp
  qed
  moreover have "\<forall>q k. owns st3 q k \<longleftrightarrow> owns st q k \<and> q \<noteq> ptr \<or> q = p \<and> k = k'"
    using f(3) k'(2) o2(3) by blast
  ultimately show ?thesis using f(2) k'(1) by blast
qed

text \<open>
  C19: krealloc of a live block to a nonzero size either keeps the pointer, when the block is large
  enough, or returns NULL with nothing changed, or moves: the new block is large enough, starts
  with the old contents, the old pointer is released, and no other live byte changes.
\<close>

theorem krealloc_preserves:
  assumes "owns st ptr n" "0 < unat sz" "unat sz \<le> 0xFFFFFFF0"
  shows "\<exists>p st'. krealloc ptr sz st = Some (p, st') \<and>
    (unat sz \<le> n \<and> p = ptr \<and> st' = st \<or>
     n < unat sz \<and> p = NULL \<and> st' = st \<or>
     n < unat sz \<and> heap_ok st' \<and> bytes_at (ram st') p n = bytes_at (ram st) ptr n
     \<and> (\<exists>k'\<ge>unat sz. \<forall>q k. owns st' q k \<longleftrightarrow> owns st q k \<and> q \<noteq> ptr \<or> q = p \<and> k = k')
     \<and> (\<forall>q k. owns st q k \<longrightarrow> q \<noteq> ptr \<longrightarrow> bytes_at (ram st') q k = bytes_at (ram st) q k))"
proof -
  from krealloc_old_size [OF assms(1)] obtain old where
    old: "old = blk_size (ram st) (ptr - 12) - 12" "unat old = n" and ptr: "ptr \<noteq> NULL"
    and ok: "heap_ok st" by metis
  have nz: "sz \<noteq> 0" using assms(2) by auto
  show ?thesis
  proof (cases "unat sz \<le> n")
    case True
    then have "sz \<le> old" using old by (simp add: word_le_nat_alt)
    then have "krealloc ptr sz st = Some (ptr, st)"
      using nz ptr by (simp add: krealloc_def Let_def old(1))
    with True show ?thesis by blast
  next
    case False
    then have lt: "n < unat sz" "\<not> sz \<le> old" using old by (simp_all add: word_le_nat_alt)
    from heap.alloc_law [OF ok assms(2,3)] obtain p st1 where
      k: "kmalloc sz st = Some (p, st1)" "p = NULL \<longrightarrow> st1 = st" by (metis (no_types, lifting))
    show ?thesis
    proof (cases "p = NULL")
      case True
      then have "krealloc ptr sz st = Some (NULL, st)"
        using nz ptr k lt by (simp add: krealloc_def Let_def old(1))
      with lt show ?thesis by blast
    next
      case False
      from krealloc_move [OF assms(1) lt(1) assms(3) k(1) False] lt(1) show ?thesis by blast
    qed
  qed
qed

theorem krealloc_preserves_witness:
  "\<exists>p st'. krealloc (of_nat (HEAP_START + 12)) 200 one_block_mm = Some (p, st')"
  using krealloc_preserves [OF one_block_owns, of 200] by auto

section \<open>Where the size computation wraps\<close>

text \<open>
  A request of 0xFFFFFFF8 bytes rounds to a block of four bytes, smaller than a header, so the
  first free block with room for the split accepts it.
\<close>

lemma request_size_wraps: "request_size 0xFFFFFFF8 = 4"
  by (simp add: request_size_def)

lemma small_block_unsound:
  assumes "heap_start st = of_nat HEAP_START" "blk_size (ram st) (of_nat HEAP_START) = 4"
  shows "\<not> heap_ok st"
proof
  assume "heap_ok st"
  then obtain bs where rep: "heap_rep st bs" by (auto simp: heap_ok_def)
  then obtain b bs' where bs: "bs = b # bs'"
    by (cases bs) (auto simp: heap_rep_def HEAP_SIZE_def)
  with rep have b: "20 \<le> fst b" "fst b \<le> HEAP_SIZE"
    "blk_size (ram st) (of_nat HEAP_START) = of_nat (fst b)"
    by (auto simp: heap_rep_def fields_of_hdr)
  with assms(2) have "unat (of_nat (fst b) :: u32) = 4" by simp
  moreover have "unat (of_nat (fst b) :: u32) = fst b"
    using b(2) by (intro unat_of_nat_lt) (simp add: HEAP_SIZE_def)
  ultimately show False using b(1) by simp
qed

text \<open>
  C20: On the fresh heap, a kmalloc of nearly 4 GB does not fail: it returns a non-NULL pointer and
  leaves a heap that is no longer sound.
\<close>

theorem kmalloc_overflow_breaks_heap:
  "\<exists>st'. kmalloc 0xFFFFFFF8 (memory_init st) = Some (0x20000C, st') \<and> \<not> heap_ok st'"
proof -
  let ?st = "memory_init st" and ?b = "of_nat HEAP_START :: addr"
  let ?st' = "kmalloc_take ?b 4 ?st"
  have h: "blk_size (ram ?st) ?b = of_nat HEAP_SIZE" "blk_used (ram ?st) ?b = 0"
    using hdr_memory_init by (simp_all add: fields_of_hdr)
  have hs: "heap_start ?st = ?b" by (simp add: memory_init_def Let_def)
  have n: "?b \<noteq> NULL" "(4 :: u32) \<le> of_nat HEAP_SIZE" "(4 :: u32) + 12 + 16 \<le> of_nat HEAP_SIZE"
    by (simp_all add: HEAP_START_def HEAP_SIZE_def)
  have k: "kmalloc_loop ?b 4 ?st = Some (?b + 12, ?st')"
    using h hs n by (subst kmalloc_loop.simps) simp
  have s: "blk_size (ram ?st') ?b = 4" "heap_start ?st' = ?b"
    using h hs n by (simp_all add: kmalloc_take_def Let_def)
  have "kmalloc 0xFFFFFFF8 ?st = Some (?b + 12, ?st')"
    using k hs by (simp add: kmalloc_def request_size_wraps)
  moreover have "?b + 12 = 0x20000C" by (simp add: HEAP_START_def)
  ultimately show ?thesis using small_block_unsound [OF s(2,1)] by auto
qed

end
