(* ===== verification/Ramfs_Props.thy ===== *)
theory Ramfs_Props
  imports Ramfs_Files Heap_Props
begin

text \<open>
  Initialisation, the current directory and the file count; then the reachable states of the file
  system and its properties.
\<close>

section \<open>Initialisation\<close>

lemma fs_init_loop_props:
  assumes lay: "layout st" and k: "k \<le> FS_MAX_FILES"
  shows "agree_on (- table_set st) m (fs_init_loop m (file_table st) k)
    \<and> (\<forall>i<k. f_flags (fs_init_loop m (file_table st) k) (slot (file_table st) i) = FS_FLAG_FREE
         \<and> f_data (fs_init_loop m (file_table st) k) (slot (file_table st) i) = NULL)"
  using k
proof (induction k)
  case (Suc k)
  then have k: "k < FS_MAX_FILES" by simp
  let ?m = "fs_init_loop m (file_table st) k" and ?s = "slot (file_table st)"
  note sp = slot_props [OF lay k]
  note c = clear_entry_props [OF sp(2), of ?m]
  have IH: "agree_on (- table_set st) m ?m"
    "\<And>i. i < k \<Longrightarrow> f_flags ?m (?s i) = FS_FLAG_FREE \<and> f_data ?m (?s i) = NULL" using Suc by simp_all
  have "agree_on (- table_set st) ?m (clear_entry ?m (?s k))"
    by (rule agree_on_mono [OF c(3)]) (use sp(3) in blast)
  from agree_on_trans [OF IH(1) this] have "agree_on (- table_set st) m (clear_entry ?m (?s k))" .
  moreover have "f_flags (clear_entry ?m (?s k)) (?s i) = FS_FLAG_FREE \<and> f_data (clear_entry ?m (?s k)) (?s i) = NULL"
    if "i < Suc k" for i
  proof (cases "i = k")
    case False
    with that have ik: "i < k" "i < FS_MAX_FILES" using k by simp_all
    have "eset (?s k) \<inter> eset (?s i) = {}" using sp(6) [of i] ik False by simp
    then have "agree_on (eset (?s i)) ?m (clear_entry ?m (?s k))" by (intro agree_on_mono [OF c(3)]) blast
    from fields_cong(1,3) [OF slot_props(2) [OF lay ik(2)] this] IH(2) [OF ik(1)] show ?thesis by simp
  qed (use c in simp)
  ultimately show ?case by simp
qed simp

lemma fs_init_rep:
  assumes "layout st" "heap_ok (mm st)" "cstr (fs_ram st) (Ptr (current_dir st)) d" "length d < FS_MAX_FILENAME"
  shows "fs_rep (fs_init st) \<lparr>slots = replicate FS_MAX_FILES None, cwd = d\<rparr>"
    "owns (mm (fs_init st)) q k \<longleftrightarrow> owns (mm st) q k"
proof -
  let ?m = "fs_init_loop (fs_ram st) (file_table st) FS_MAX_FILES"
  note p = fs_init_loop_props [OF assms(1) order_refl, of "fs_ram st"]
  have out: "agree_on arena (fs_ram st) ?m"
    by (rule agree_on_mono [OF conjunct1 [OF p]]) (use assms(1) in \<open>auto simp: layout_def table_set_def\<close>)
  note w = heap.write_outside_law [OF assms(2) out]
  show "owns (mm (fs_init st)) q k \<longleftrightarrow> owns (mm st) q k" using w by (simp add: fs_init_def set_ram_def)
  have "agree_on (cspan (Ptr (current_dir st)) (Suc (length d))) (fs_ram st) ?m"
  proof (rule agree_on_mono [OF conjunct1 [OF p]])
    have "range_of (unat (current_dir st)) (Suc (length d)) \<subseteq> range_of (unat (current_dir st)) 32"
      using assms(4) by (intro range_of_subset) (simp_all add: FS_MAX_FILENAME_def)
    with assms(1) show "cspan (Ptr (current_dir st)) (Suc (length d)) \<subseteq> - table_set st"
      by (auto simp: layout_def table_set_def)
  qed
  then have "cstr ?m (Ptr (current_dir st)) d"
    using cstr_cong [of "Ptr (current_dir st)" d "fs_ram st" ?m] assms(1,3,4)
    by (simp add: layout_def FS_MAX_FILENAME_def)
  then show "fs_rep (fs_init st) \<lparr>slots = replicate FS_MAX_FILES None, cwd = d\<rparr>"
    using assms(1,4) w p
    by (auto simp: fs_rep_def fs_init_def set_ram_def layout_def entry_rep_def distinct_names_def distinct_data_def)
qed

section \<open>The current directory\<close>

text \<open>A change to the name of the current directory alone.\<close>

lemma fs_rep_cwd:
  assumes rep: "fs_rep st A" and fr: "agree_on (- range_of (unat (current_dir st)) 32) (fs_ram st) m"
    and d: "cstr m (Ptr (current_dir st)) d" "length d < FS_MAX_FILENAME"
  shows "fs_rep (set_ram m st) (A\<lparr>cwd := d\<rparr>)" "owns ((mm st)\<lparr>ram := m\<rparr>) q k \<longleftrightarrow> owns (mm st) q k"
proof -
  note D = fs_repD [OF rep]
  let ?s = "slot (file_table st)" and ?h = "(mm st)\<lparr>ram := m\<rparr>"
  have a: "agree_on arena (fs_ram st) m"
    by (rule agree_on_mono [OF fr]) (use D(1) in \<open>auto simp: layout_def\<close>)
  note w = heap.write_outside_law [OF D(2) a]
  then show "owns ?h q k \<longleftrightarrow> owns (mm st) q k" by blast
  have kept: "block_kept (mm st) ?h p" for p
    unfolding block_kept_def using w heap.owns_bounds [of "mm st" p] by (auto intro: agree_on_mono [OF a])
  have et: "agree_on (eset (?s i)) (fs_ram st) (ram ?h)" if "i < FS_MAX_FILES" for i
    using slot_props(5) [OF D(1) that] agree_on_mono [OF fr, of "eset (?s i)"] by auto
  have "entry_rep ?h (?s i) (slots A ! i)" if "i < FS_MAX_FILES" for i
    by (rule entry_rep_frame [OF slot_props(2) [OF D(1) that] D(4) [OF that] et [OF that] kept])
  moreover have "f_data m (?s i) = f_data (fs_ram st) (?s i)" if "i < FS_MAX_FILES" for i
    using fields_cong(1) [OF slot_props(2) [OF D(1) that] et [OF that]] by simp
  then have "distinct_data m (file_table st)" using D(6) by (simp add: distinct_data_def)
  moreover have "layout (set_ram m st)" using D(1) by (simp add: layout_def set_ram_def)
  ultimately show "fs_rep (set_ram m st) (A\<lparr>cwd := d\<rparr>)" using D(3,5) w d by (simp add: fs_rep_def set_ram_def)
qed

text \<open>Both ways of storing a directory name.\<close>

lemma chdir_store:
  assumes c: "unat c + 32 \<le> 2 ^ 32" and n: "cstr m name n" "length n < 32" "cfits name (Suc (length n))"
    "cspan name (Suc (length n)) \<inter> range_of (unat c) 32 = {}"
  defines "m' \<equiv> (strncpy m c name 31)(c + 31 := 0)"
  shows "cstr m' (Ptr c) n" "agree_on (- range_of (unat c) 32) m m'"
proof -
  have u31: "unat (c + 31) = unat c + 31" using unat_offset [of c 31] c by simp
  have d: "cspan name (Suc (length n)) \<inter> range_of (unat c) (unat (31 :: u32)) = {}" using n(4) by auto
  define bs where "bs = (if length n < 31 then n @ replicate (Suc (31 - length n)) 0 else n)"
  have m1: "strncpy m c name 31 = put_bytes m c bs"
    unfolding bs_def using strncpy_short [OF n(1) _ _ n(3) d] strncpy_long [OF n(1) _ _ n(3) d] c n(2) by simp
  have lb: "length bs \<le> 32" "length n \<le> length bs" "take (length n) bs = n" using n(2) by (auto simp: bs_def)
  have fb: "unat c + length bs \<le> 2 ^ 32" using lb c by simp
  have "agree_on (- range_of (unat c) 32) m (put_bytes m c bs)"
    by (rule agree_on_put_bytes [OF fb]) (use lb in auto)
  then show "agree_on (- range_of (unat c) 32) m m'"
    unfolding m'_def m1 by (rule agree_on_upd [rotated]) (use u31 in simp)
  have "bytes_at (put_bytes m c bs) c (length n) = n"
    using bytes_at_put_bytes [OF fb, of m] take_bytes_at [OF lb(2), of "put_bytes m c bs" c] lb(3) by simp
  moreover have "agree_on (range_of (unat c) (length n)) (put_bytes m c bs) m'"
    unfolding m'_def m1 by (rule agree_on_upd) (use u31 n(2) in simp_all)
  then have "bytes_at (put_bytes m c bs) c (length n) = bytes_at m' c (length n)"
    using c n(2) by (intro bytes_at_cong) simp_all
  moreover have "m' (c + of_nat (length n)) = 0"
  proof (cases "length n = 31")
    case False
    then have "length n < 31" using n(2) by simp
    moreover have "unat (c + of_nat (length n)) = unat c + length n" using c n(2) by (intro unat_offset) simp
    ultimately show ?thesis using fb by (simp add: m'_def m1 put_bytes_apply bs_def nth_append)
  qed (simp add: m'_def)
  ultimately show "cstr m' (Ptr c) n" using cstr_nonzero [OF n(1)] by (simp add: cstr_Ptr)
qed

lemma fs_chdir_refines:
  assumes rep: "fs_rep st A" and n: "name_arg st name n"
  shows "\<exists>st'. fs_chdir name st = Some (fst (a_chdir n A), st') \<and> fs_rep st' (snd (a_chdir n A))
    \<and> (\<forall>q k. owns (mm st') q k \<longleftrightarrow> owns (mm st) q k)"
proof -
  note D = fs_repD [OF rep] and N = name_argD [OF n]
  let ?c = "current_dir st"
  have cb: "unat ?c + 32 \<le> 2 ^ 32" using D(1) by (simp add: layout_def)
  have lit: "cstr (fs_ram st) (Lit s) (bytes s)" if "s = ''/'' \<or> s = ''..''" for s
    using that by (auto intro!: cstr_Lit)
  define r1 r2 where "r1 = cmp_bytes n (bytes ''/'')" and "r2 = cmp_bytes n (bytes ''..'')"
  have cmp: "strcmp (fs_ram st) name (Lit ''/'') = Some r1" "strcmp (fs_ram st) name (Lit ''..'') = Some r2"
    "r1 = 0 \<longleftrightarrow> n = bytes ''/''" "r2 = 0 \<longleftrightarrow> n = bytes ''..''"
    using strcmp_eq [OF N(2) lit] cmp_bytes_0 [OF cstr_nonzero [OF N(2)] cstr_nonzero [OF lit]]
    unfolding r1_def r2_def by blast+
  have root: "strcpy (fs_ram st) ?c (Lit ''/'') = Some (put_bytes (fs_ram st) ?c (bytes ''/'' @ [0]))"
    using cb by (intro strcpy_eq lit) simp_all
  have "agree_on (- range_of (unat ?c) 32) (fs_ram st) (put_bytes (fs_ram st) ?c (bytes ''/'' @ [0]))"
    using cb by (intro agree_on_put_bytes) auto
  moreover have "cstr (put_bytes (fs_ram st) ?c (bytes ''/'' @ [0])) (Ptr ?c) (bytes ''/'')"
    using cb by (intro cstr_put_bytes) simp_all
  ultimately have r: "fs_rep (set_ram (put_bytes (fs_ram st) ?c (bytes ''/'' @ [0])) st) (A\<lparr>cwd := bytes ''/''\<rparr>)"
    "\<And>q k. owns (mm (set_ram (put_bytes (fs_ram st) ?c (bytes ''/'' @ [0])) st)) q k \<longleftrightarrow> owns (mm st) q k"
    using fs_rep_cwd [OF rep, of _ "bytes ''/''"] by (simp_all add: FS_MAX_FILENAME_def set_ram_def)
  consider "n = bytes ''/'' \<or> n = bytes ''..''" | "n \<noteq> bytes ''/''" "n \<noteq> bytes ''..''" by blast
  then show ?thesis
  proof cases
    case 1
    then have "fs_chdir name st = Some (0, set_ram (put_bytes (fs_ram st) ?c (bytes ''/'' @ [0])) st)"
      using N(1) root cmp by (auto simp: fs_chdir_def)
    with r 1 show ?thesis by (auto simp: a_chdir_def)
  next
    case 2
    have "fs_chdir name st = do {
            idx \<leftarrow> fs_find name st;
            if idx < 0 then Some (-1, st)
            else if f_flags (fs_ram st) (slot (file_table st) (nat idx)) AND FS_FLAG_DIRECTORY = 0
            then Some (-2, st)
            else Some (0, set_ram ((strncpy (fs_ram st) ?c name 31)(?c + 31 := 0)) st)}"
      using N(1) cmp 2 by (simp add: fs_chdir_def FS_MAX_FILENAME_def Let_def cong: if_cong)
    note run = this [unfolded fs_find_eq [OF rep N(2)]]
    show ?thesis
    proof (cases "find_slot n (slots A)")
      case None
      with run rep 2 show ?thesis by (simp add: a_chdir_def)
    next
      case (Some i)
      show ?thesis
      proof (cases "is_dir_slot A i")
        case False
        with run rep 2 Some is_dir_slot_flags [OF rep Some] show ?thesis by (simp add: a_chdir_def)
      next
        case True
        from find_slot_Some [OF Some] D(4) [OF find_slot_lt [OF rep Some]] have "length n < 32"
          by (auto simp: entry_rep_def FS_MAX_FILENAME_def)
        from chdir_store [OF cb N(2) this N(4,6)] fs_rep_cwd [OF rep, of _ n] this
        have "fs_rep (set_ram ((strncpy (fs_ram st) ?c name 31)(?c + 31 := 0)) st) (A\<lparr>cwd := n\<rparr>)"
          "\<And>q k. owns (mm (set_ram ((strncpy (fs_ram st) ?c name 31)(?c + 31 := 0)) st)) q k \<longleftrightarrow> owns (mm st) q k"
          by (simp_all add: FS_MAX_FILENAME_def set_ram_def)
        with run 2 Some True is_dir_slot_flags [OF rep Some] show ?thesis by (simp add: a_chdir_def)
      qed
    qed
  qed
qed

section \<open>Counting\<close>

lemma fs_count_loop_eq:
  assumes "\<And>k. k < length es \<Longrightarrow> entry_rep h (slot tab (i + k)) (es ! k)"
  shows "fs_count_loop (ram h) tab i (length es) c = c + int (length (filter (\<lambda>e. e \<noteq> None) es))"
  using assms
proof (induction es arbitrary: i c)
  case (Cons e es)
  have e: "entry_rep h (slot tab i) e" using Cons.prems [of 0] by simp
  have "\<And>c. fs_count_loop (ram h) tab (Suc i) (length es) c = c + int (length (filter (\<lambda>e. e \<noteq> None) es))"
    using Cons.prems [of "Suc _"] by (intro Cons.IH) simp
  with entry_used [OF e] show ?case by simp
qed simp

lemma fs_count_eq:
  assumes "fs_rep st A"
  shows "fs_count st = int (length (filter (\<lambda>e. e \<noteq> None) (slots A)))"
  using fs_count_loop_eq [of "slots A" "mm st" "file_table st" 0 0] fs_repD(3,4) [OF assms]
  by (simp add: fs_count_def)

section \<open>Open files and a start state\<close>

lemma fs_openE:
  assumes "fs_rep st A" "cstr (fs_ram st) name n" "fs_open name st = Some f" "f \<noteq> NULL"
  obtains i e where "i < FS_MAX_FILES" "f = slot (file_table st) i" "slots A ! i = Some e" "ename e = n"
    "find_slot n (slots A) = Some i"
proof (cases "find_slot n (slots A)")
  case None
  with assms(3,4) fs_open_eq [OF assms(1,2)] show thesis by simp
next
  case (Some i)
  from find_slot_Some [OF Some] obtain e where "slots A ! i = Some e" "ename e = n" by blast
  with assms(3) fs_open_eq [OF assms(1,2)] find_slot_lt [OF assms(1) Some] Some
  show thesis by (intro that [of i e]) simp_all
qed

text \<open>A change inside the heap only that keeps the blocks of all files.\<close>

lemma fs_rep_heap:
  assumes rep: "fs_rep st A" and ok: "heap_ok h" and fr: "agree_on (- arena) (fs_ram st) (ram h)"
    and kept: "\<And>i. i < FS_MAX_FILES \<Longrightarrow> f_data (fs_ram st) (slot (file_table st) i) \<noteq> NULL \<Longrightarrow>
      block_kept (mm st) h (f_data (fs_ram st) (slot (file_table st) i))"
  shows "fs_rep (st\<lparr>mm := h\<rparr>) A"
proof -
  note D = fs_repD [OF rep]
  have z: "0 < FS_MAX_FILES" by (simp add: FS_MAX_FILES_def)
  note sp = slot_props [OF D(1) z]
  have e: "agree_on (eset (slot (file_table st) 0)) (fs_ram st) (ram h)"
    by (rule agree_on_mono [OF fr]) (use sp(4) in blast)
  have c: "f_data (ram h) (slot (file_table st) 0) = f_data (fs_ram st) (slot (file_table st) 0)"
    using fields_cong(1) [OF sp(2) e] by simp
  have "fs_rep (st\<lparr>mm := h\<rparr>) (A\<lparr>slots := (slots A)[0 := slots A ! 0]\<rparr>)"
  proof (rule fs_rep_update [OF rep z ok _ kept])
    show "agree_on (- (eset (slot (file_table st) 0) \<union> arena)) (fs_ram st) (ram h)"
      by (rule agree_on_mono [OF fr]) blast
    show "entry_rep h (slot (file_table st) 0) (slots A ! 0)"
      by (rule entry_rep_frame [OF sp(2) D(4) [OF z] e kept [OF z]])
    show "f_data (fs_ram st) (slot (file_table st) j) \<noteq> f_data (ram h) (slot (file_table st) 0)"
      if "j < FS_MAX_FILES" "j \<noteq> 0" "f_data (ram h) (slot (file_table st) 0) \<noteq> NULL" for j
      using other_data [OF rep z that(1,2)] that(3) c by auto
    show "ename y \<noteq> ename x" if "j < FS_MAX_FILES" "j \<noteq> 0" "slots A ! 0 = Some x" "slots A ! j = Some y" for j x y
      using D(5) [unfolded distinct_names_def D(3), rule_format, OF that(1) z that(2,4,3)] .
  qed
  then show ?thesis by simp
qed

text \<open>The state after start-up, with the table at 64 KB and the directory name behind it.\<close>

definition loaded_fs :: ramfs where
  "loaded_fs = \<lparr>mm = boot_mm\<lparr>ram := (ram boot_mm)(0x11000 := 47)\<rparr>, file_table = 0x10000,
     current_dir = 0x11000, fs_initialized = 0\<rparr>"

definition boot_fs :: ramfs where
  "boot_fs = fs_init loaded_fs"

abbreviation empty_fs :: afs where
  "empty_fs \<equiv> \<lparr>slots = replicate FS_MAX_FILES None, cwd = bytes ''/''\<rparr>"

lemma boot_mm_low: "unat a < HEAP_START \<Longrightarrow> ram boot_mm a = 0"
proof -
  assume a: "unat a < HEAP_START"
  have "ram boot_mm = set_next (set_used (set_size (\<lambda>_. 0) (of_nat HEAP_START)
      (of_nat HEAP_SIZE)) (of_nat HEAP_START) 0) (of_nat HEAP_START) NULL"
    by (simp add: boot_mm_def memory_init_def Let_def)
  moreover have "agree_on {a} (\<lambda>_. 0) (set_next (set_used (set_size (\<lambda>_. 0) (of_nat HEAP_START)
      (of_nat HEAP_SIZE)) (of_nat HEAP_START) 0) (of_nat HEAP_START) NULL)"
    unfolding set_next_def set_used_def set_size_def
    using a by (intro agree_on_store32 agree_on_upd agree_on_refl) (auto simp: HEAP_START_def)
  ultimately show ?thesis by (simp add: agree_on_def)
qed

lemma loaded_fs_ok:
  "layout loaded_fs" "heap_ok (mm loaded_fs)" "cstr (fs_ram loaded_fs) (Ptr (current_dir loaded_fs)) (bytes ''/'')"
  "\<not> owns (mm loaded_fs) q k"
proof -
  have "agree_on arena (ram boot_mm) ((ram boot_mm)(0x11000 := 47))"
    by (rule agree_on_upd) (simp_all add: arena_def HEAP_START_def)
  from heap.write_outside_law [OF boot_ok this]
  show "heap_ok (mm loaded_fs)" "\<not> owns (mm loaded_fs) q k" by (simp_all add: loaded_fs_def owns_rep [OF boot_rep])
  show "layout loaded_fs" by (auto simp: loaded_fs_def layout_def arena_def HEAP_START_def HEAP_SIZE_def)
  show "cstr (fs_ram loaded_fs) (Ptr (current_dir loaded_fs)) (bytes ''/'')"
    using boot_mm_low [of "0x11001"] by (simp add: loaded_fs_def HEAP_START_def)
qed

lemma boot_fs_rep: "fs_rep boot_fs empty_fs" "\<not> owns (mm boot_fs) q k"
  using fs_init_rep [OF loaded_fs_ok(1-3)] loaded_fs_ok(4) by (simp_all add: boot_fs_def FS_MAX_FILENAME_def)

lemma boot_fs_sel: "file_table boot_fs = 0x10000" "current_dir boot_fs = 0x11000"
  by (simp_all add: boot_fs_def loaded_fs_def fs_init_def set_ram_def)

section \<open>Reachable states\<close>

text \<open>
  What the kernel does with the file system after \<^verbatim>\<open>fs_init\<close>: calls by name and by file pointer,
  heap calls of other code on its own blocks, and writes to memory that belongs to nobody here.
\<close>

definition open_slot :: "ramfs \<Rightarrow> nat \<Rightarrow> bool" where
  "open_slot st i \<longleftrightarrow> i < FS_MAX_FILES \<and> f_used (fs_ram st) (slot (file_table st) i)"

inductive fs_reach :: "ramfs \<Rightarrow> bool" where
  reach_init: "layout st \<Longrightarrow> heap_ok (mm st) \<Longrightarrow> cstr (fs_ram st) (Ptr (current_dir st)) d \<Longrightarrow>
    length d < FS_MAX_FILENAME \<Longrightarrow> fs_reach (fs_init st)"
| reach_create: "fs_reach st \<Longrightarrow> name_arg st name n \<Longrightarrow> fs_create name st = Some (r, st') \<Longrightarrow> fs_reach st'"
| reach_mkdir: "fs_reach st \<Longrightarrow> name_arg st name n \<Longrightarrow> fs_mkdir name st = Some (r, st') \<Longrightarrow> fs_reach st'"
| reach_delete: "fs_reach st \<Longrightarrow> name_arg st name n \<Longrightarrow> fs_delete name st = Some (r, st') \<Longrightarrow> fs_reach st'"
| reach_rmdir: "fs_reach st \<Longrightarrow> name_arg st name n \<Longrightarrow> fs_rmdir name st = Some (r, st') \<Longrightarrow> fs_reach st'"
| reach_chdir: "fs_reach st \<Longrightarrow> name_arg st name n \<Longrightarrow> fs_chdir name st = Some (r, st') \<Longrightarrow> fs_reach st'"
| reach_write: "fs_reach st \<Longrightarrow> open_slot st i \<Longrightarrow> unat data + unat n \<le> 2 ^ 32 \<Longrightarrow>
    client_region st (range_of (unat data) (unat n)) \<Longrightarrow>
    fs_write (slot (file_table st) i) data n st = Some (r, st') \<Longrightarrow> fs_reach st'"
| reach_append: "fs_reach st \<Longrightarrow> open_slot st i \<Longrightarrow> unat data + unat n \<le> 2 ^ 32 \<Longrightarrow>
    unat (fs_get_size (slot (file_table st) i) st) + unat n < 2 ^ 32 \<Longrightarrow>
    client_region st (range_of (unat data) (unat n)) \<Longrightarrow>
    fs_append (slot (file_table st) i) data n st = Some (r, st') \<Longrightarrow> fs_reach st'"
| reach_truncate: "fs_reach st \<Longrightarrow> open_slot st i \<Longrightarrow> fs_truncate (slot (file_table st) i) st = Some (r, st') \<Longrightarrow>
    fs_reach st'"
| reach_client_write: "fs_reach st \<Longrightarrow> client_region st S \<Longrightarrow> agree_on (- S) (fs_ram st) m \<Longrightarrow>
    fs_reach (set_ram m st)"
| reach_kmalloc: "fs_reach st \<Longrightarrow> unat sz \<le> 0xFFFFFFF0 \<Longrightarrow> kmalloc sz (mm st) = Some (p, h) \<Longrightarrow>
    fs_reach (st\<lparr>mm := h\<rparr>)"
| reach_kfree: "fs_reach st \<Longrightarrow> owns (mm st) q k \<Longrightarrow>
    \<forall>i<FS_MAX_FILES. f_data (fs_ram st) (slot (file_table st) i) \<noteq> q \<Longrightarrow> kfree q (mm st) = Some h \<Longrightarrow>
    fs_reach (st\<lparr>mm := h\<rparr>)"

lemma open_slotE:
  assumes "fs_rep st A" "open_slot st i"
  obtains e where "i < FS_MAX_FILES" "slots A ! i = Some e"
  using assms entry_used [OF fs_repD(4) [OF assms(1)], of i] by (auto simp: open_slot_def)

lemma fs_create_refines:
  "fs_rep st A \<Longrightarrow> name_arg st name n \<Longrightarrow>
    \<exists>st'. fs_create name st = Some (fst (a_add False n A), st') \<and> fs_rep st' (snd (a_add False n A))
    \<and> (\<forall>q k. owns (mm st') q k \<longleftrightarrow> owns (mm st) q k) \<and> agree_on (- table_set st) (fs_ram st) (fs_ram st')"
  using fs_add_refines [of st A name n False] by (simp add: fs_create_def flags_of_def)

lemma fs_mkdir_refines:
  "fs_rep st A \<Longrightarrow> name_arg st name n \<Longrightarrow>
    \<exists>st'. fs_mkdir name st = Some (fst (a_add True n A), st') \<and> fs_rep st' (snd (a_add True n A))
    \<and> (\<forall>q k. owns (mm st') q k \<longleftrightarrow> owns (mm st) q k) \<and> agree_on (- table_set st) (fs_ram st) (fs_ram st')"
  using fs_add_refines [of st A name n True] by (simp add: fs_mkdir_def flags_of_def)

lemma fs_write_keeps:
  assumes rep: "fs_rep st A" and o: "open_slot st i" and d: "unat data + unat n \<le> 2 ^ 32"
    and src: "client_region st (range_of (unat data) (unat n))"
    and w: "fs_write (slot (file_table st) i) data n st = Some (r, st')"
  shows "\<exists>A'. fs_rep st' A'"
proof (cases "data = NULL \<or> FS_MAX_FILESIZE < n")
  case True
  with w rep show ?thesis by (auto simp: fs_write_def split: if_splits)
next
  case False
  from open_slotE [OF rep o] obtain e where e: "i < FS_MAX_FILES" "slots A ! i = Some e" .
  from False have "data \<noteq> NULL" "n \<le> FS_MAX_FILESIZE" by auto
  from fs_write_spec [OF rep e this d src] w show ?thesis by auto
qed

lemma fs_append_keeps:
  assumes rep: "fs_rep st A" and o: "open_slot st i" and d: "unat data + unat n \<le> 2 ^ 32"
    and nw: "unat (fs_get_size (slot (file_table st) i) st) + unat n < 2 ^ 32"
    and src: "client_region st (range_of (unat data) (unat n))"
    and w: "fs_append (slot (file_table st) i) data n st = Some (r, st')"
  shows "\<exists>A'. fs_rep st' A'"
proof -
  let ?f = "slot (file_table st) i"
  from open_slotE [OF rep o] obtain e where e: "i < FS_MAX_FILES" "slots A ! i = Some e" .
  note sp = slot_props [OF fs_repD(1) [OF rep] e(1)]
  from fs_repD(4) [OF rep e(1)] e(2) have "content_rep (mm st) (f_data (fs_ram st) ?f) (f_size (fs_ram st) ?f) (econt e)"
    by (simp add: entry_rep_def)
  from content_size [OF this] nw sp(1) have sz: "unat (f_size (fs_ram st) ?f) = csize (econt e)"
    "unat (f_size (fs_ram st) ?f + n) = csize (econt e) + unat n"
    by (auto simp: fs_get_size_def unat_plus_no_wrap)
  show ?thesis
  proof (cases "data = NULL \<or> n = 0 \<or> FS_MAX_FILESIZE < f_size (fs_ram st) ?f + n")
    case True
    with w rep show ?thesis by (auto simp: fs_append_def Let_def split: if_splits)
  next
    case False
    then have "data \<noteq> NULL" "0 < n" "csize (econt e) + unat n \<le> unat FS_MAX_FILESIZE"
      using sz by (auto simp: word_le_nat_alt not_less word_neq_0_conv)
    from fs_append_spec [OF rep e this d src] w rep show ?thesis by auto
  qed
qed

lemma fs_reach_rep: "fs_reach st \<Longrightarrow> \<exists>A. fs_rep st A"
proof (induction rule: fs_reach.induct)
  case (reach_init st d)
  from fs_init_rep(1) [OF this] show ?case by blast
next
  case (reach_create st name n r st')
  then show ?case using fs_create_refines by fastforce
next
  case (reach_mkdir st name n r st')
  then show ?case using fs_mkdir_refines by fastforce
next
  case (reach_delete st name n r st')
  then show ?case using fs_delete_refines by fastforce
next
  case (reach_rmdir st name n r st')
  then show ?case using fs_rmdir_refines by fastforce
next
  case (reach_chdir st name n r st')
  then show ?case using fs_chdir_refines by fastforce
next
  case (reach_write st i data n r st')
  then show ?case using fs_write_keeps by blast
next
  case (reach_append st i data n r st')
  then show ?case using fs_append_keeps by blast
next
  case (reach_truncate st i r st')
  then obtain A where A: "fs_rep st A" by blast
  from open_slotE [OF A reach_truncate(2)] obtain e where "i < FS_MAX_FILES" "slots A ! i = Some e" .
  from fs_truncate_spec [OF A this] reach_truncate(3) show ?case by auto
next
  case (reach_client_write st S m)
  then show ?case using client_write(1) by blast
next
  case (reach_kmalloc st sz p h)
  then obtain A where A: "fs_rep st A" by blast
  show ?case
  proof (cases "unat sz = 0")
    case True
    with reach_kmalloc(3) A show ?thesis by (auto simp: kmalloc_def unat_eq_zero)
  next
    case False
    then have "0 < unat sz" by simp
    from kmalloc_kept [OF fs_repD(2) [OF A] this reach_kmalloc(2)] reach_kmalloc(3) fs_rep_heap [OF A]
    show ?thesis by (metis Pair_inject option.inject)
  qed
next
  case (reach_kfree st q k h)
  then obtain A where A: "fs_rep st A" by blast
  from kfree_kept [OF fs_repD(2) [OF A] reach_kfree(2)] reach_kfree(4) obtain h' where h: "h' = h" "heap_ok h'"
    "agree_on (- arena) (fs_ram st) (ram h')" "\<And>p. p \<noteq> q \<Longrightarrow> block_kept (mm st) h' p" by (metis option.inject)
  have "fs_rep (st\<lparr>mm := h'\<rparr>) A" using reach_kfree(3) by (intro fs_rep_heap [OF A h(2,3)] h(4)) blast
  with h(1) show ?case by blast
qed

section \<open>Properties\<close>

text \<open>
  C4: Every reachable state of the file system is sound: the table stands for 64 abstract entries
  with distinct names, and the contents of two different files never share a byte.
\<close>
theorem fs_reach_sound:
  assumes "fs_reach st"
  shows "\<exists>A. fs_rep st A \<and> distinct_names (slots A)
    \<and> (\<forall>i j p q. i < FS_MAX_FILES \<longrightarrow> j < FS_MAX_FILES \<longrightarrow> i \<noteq> j \<longrightarrow>
        p = f_data (fs_ram st) (slot (file_table st) i) \<longrightarrow> q = f_data (fs_ram st) (slot (file_table st) j) \<longrightarrow>
        p \<noteq> NULL \<longrightarrow> q \<noteq> NULL \<longrightarrow>
        range_of (unat p) (unat (f_size (fs_ram st) (slot (file_table st) i)))
          \<inter> range_of (unat q) (unat (f_size (fs_ram st) (slot (file_table st) j))) = {})"
proof -
  from fs_reach_rep [OF assms] obtain A where A: "fs_rep st A" by blast
  have block: "\<exists>k. owns (mm st) (f_data (fs_ram st) (slot (file_table st) i)) k
      \<and> unat (f_size (fs_ram st) (slot (file_table st) i)) \<le> k"
    if i: "i < FS_MAX_FILES" and nz: "f_data (fs_ram st) (slot (file_table st) i) \<noteq> NULL" for i
  proof -
    let ?f = "slot (file_table st) i"
    obtain e bs k where e: "slots A ! i = Some e" "econt e = Stored bs" "owns (mm st) (f_data (fs_ram st) ?f) k"
      "length bs \<le> k" "bytes_at (fs_ram st) (f_data (fs_ram st) ?f) (length bs) = bs"
      by (rule file_block [OF A i nz])
    from fs_repD(4) [OF A i] e(1,2) have "content_rep (mm st) (f_data (fs_ram st) ?f) (f_size (fs_ram st) ?f) (Stored bs)"
      by (simp add: entry_rep_def)
    from content_size [OF this] e(3,4) show ?thesis by auto
  qed
  have "range_of (unat p) (unat (f_size (fs_ram st) (slot (file_table st) i)))
          \<inter> range_of (unat q) (unat (f_size (fs_ram st) (slot (file_table st) j))) = {}"
    if ij: "i < FS_MAX_FILES" "j < FS_MAX_FILES" "i \<noteq> j" and p: "p = f_data (fs_ram st) (slot (file_table st) i)"
      and q: "q = f_data (fs_ram st) (slot (file_table st) j)" and nz: "p \<noteq> NULL" "q \<noteq> NULL" for i j p q
  proof -
    from block [OF ij(1)] nz(1) p obtain k where k: "owns (mm st) p k"
      "unat (f_size (fs_ram st) (slot (file_table st) i)) \<le> k" by blast
    from block [OF ij(2)] nz(2) q obtain l where l: "owns (mm st) q l"
      "unat (f_size (fs_ram st) (slot (file_table st) j)) \<le> l" by blast
    have "p \<noteq> q" using other_data [OF A ij(2,1,3)] p q nz by auto
    from heap.owns_disjoint [OF k(1) l(1) this] k(2) l(2)
    have d: "range_of (unat p) k \<inter> range_of (unat q) l = {}" by simp
    show ?thesis using k(2) l(2) by (intro subset_antisym [OF subset_trans [OF _ equalityD1 [OF d]]]) auto
  qed
  with A fs_repD(5) [OF A] show ?thesis by blast
qed

theorem fs_reach_sound_witness: "\<exists>A. fs_rep boot_fs A \<and> distinct_names (slots A)"
proof -
  have "fs_reach boot_fs"
    unfolding boot_fs_def using loaded_fs_ok(1-3) by (rule reach_init) (simp add: FS_MAX_FILENAME_def)
  from fs_reach_sound [OF this] show ?thesis by blast
qed

text \<open>
  C15: \<^verbatim>\<open>fs_create\<close> and \<^verbatim>\<open>fs_mkdir\<close> on a sound state return and do what the specification says:
  -1 for an empty or too long name, -2 for a name that exists, -3 for a full table, and otherwise 0
  with the first free entry taken; no heap block changes hands and nothing outside the table changes.
\<close>
theorem fs_add_spec:
  assumes "fs_rep st A" "name_arg st name n"
  shows "(\<exists>st'. fs_create name st = Some (fst (a_add False n A), st') \<and> fs_rep st' (snd (a_add False n A))
      \<and> (\<forall>q k. owns (mm st') q k \<longleftrightarrow> owns (mm st) q k) \<and> agree_on (- table_set st) (fs_ram st) (fs_ram st'))
    \<and> (\<exists>st'. fs_mkdir name st = Some (fst (a_add True n A), st') \<and> fs_rep st' (snd (a_add True n A))
      \<and> (\<forall>q k. owns (mm st') q k \<longleftrightarrow> owns (mm st) q k) \<and> agree_on (- table_set st) (fs_ram st) (fs_ram st'))"
  using fs_create_refines [OF assms] fs_mkdir_refines [OF assms] by blast

lemma find_slot_empty [simp]: "find_slot n (replicate k None) = None"
  by (induction k) simp_all

lemma free_slot_empty: "0 < k \<Longrightarrow> free_slot (replicate k None) = Some 0"
  by (cases k) simp_all

lemma a_add_empty: "n \<noteq> [] \<Longrightarrow> length n < FS_MAX_FILENAME \<Longrightarrow>
    a_add d n empty_fs = (0, \<lparr>slots = Some (FEntry n d (Stored [])) # replicate (FS_MAX_FILES - 1) None, cwd = bytes ''/''\<rparr>)"
  by (simp add: a_add_def free_slot_empty FS_MAX_FILES_def) (simp add: eval_nat_numeral)

theorem fs_add_spec_witness: "\<exists>st'. fs_mkdir (Lit ''etc'') boot_fs = Some (0, st')"
  using fs_add_spec [OF boot_fs_rep(1) name_arg_Lit [of "''etc''"]] a_add_empty [of "bytes ''etc''" True]
  by (auto simp: FS_MAX_FILENAME_def)

text \<open>A file created on the empty file system, for the examples below.\<close>

lemma one_file:
  fixes d :: bool and s :: string
  assumes s: "s \<noteq> []" "length s < FS_MAX_FILENAME" "0 \<notin> set (bytes s)"
  obtains st where "(if d then fs_mkdir (Lit s) boot_fs else fs_create (Lit s) boot_fs) = Some (0, st)"
    "fs_rep st \<lparr>slots = Some (FEntry (bytes s) d (Stored [])) # replicate (FS_MAX_FILES - 1) None, cwd = bytes ''/''\<rparr>"
    "file_table st = 0x10000" "current_dir st = 0x11000"
proof -
  have n: "name_arg boot_fs (Lit s) (bytes s)" using s by (intro name_arg_Lit) (simp_all add: FS_MAX_FILENAME_def)
  have a: "a_add d (bytes s) empty_fs = (0, \<lparr>slots = Some (FEntry (bytes s) d (Stored [])) #
      replicate (FS_MAX_FILES - 1) None, cwd = bytes ''/''\<rparr>)" using s by (intro a_add_empty) auto
  from fs_create_refines [OF boot_fs_rep(1) n] fs_mkdir_refines [OF boot_fs_rep(1) n] a obtain st where
    st: "(if d then fs_mkdir (Lit s) boot_fs else fs_create (Lit s) boot_fs) = Some (0, st)"
    "fs_rep st \<lparr>slots = Some (FEntry (bytes s) d (Stored [])) # replicate (FS_MAX_FILES - 1) None, cwd = bytes ''/''\<rparr>"
    by (cases d) auto
  from st(1) have "file_table st = file_table boot_fs \<and> current_dir st = current_dir boot_fs"
    by (auto simp: fs_create_def fs_mkdir_def fs_add_def set_ram_def Let_def
        split: if_splits bind_splits)
  with st that show thesis by (simp add: boot_fs_sel)
qed

lemma low_client_region:
  assumes "file_table st = 0x10000" "current_dir st = 0x11000" "0x12000 \<le> a" "a + n \<le> HEAP_START"
  shows "client_region st (range_of a n)"
proof -
  have "range_of a n \<inter> range_of 0x10000 2816 = {}" "range_of a n \<inter> range_of 0x11000 32 = {}"
    "range_of a n \<inter> range_of HEAP_START HEAP_SIZE = {}"
    using assms(3,4) by (auto simp: HEAP_START_def)
  with assms(1,2) show ?thesis by (simp add: client_region_def table_set_def arena_def)
qed

text \<open>
  After a successful \<^verbatim>\<open>fs_create\<close> the name opens an empty file that is not a directory and has
  that name, and every other name opens what it opened before.
\<close>
theorem fs_create_then_open:
  assumes rep: "fs_rep st A" and n: "name_arg st name n" and c: "fs_create name st = Some (0, st')"
  shows "\<exists>f. fs_open name st' = Some f \<and> f \<noteq> NULL \<and> fs_get_size f st' = 0 \<and> \<not> fs_is_dir f st'
      \<and> cstr (fs_ram st') (fs_get_name f) n
      \<and> (\<forall>other k. name_arg st other k \<longrightarrow> k \<noteq> n \<longrightarrow> fs_open other st' = fs_open other st)"
proof -
  from fs_create_refines [OF rep n] c obtain i where A': "find_slot n (slots A) = None" "free_slot (slots A) = Some i"
    "fs_rep st' (A\<lparr>slots := (slots A)[i := Some (FEntry n False (Stored []))]\<rparr>)"
    and fr: "agree_on (- table_set st) (fs_ram st) (fs_ram st')"
    by (auto simp: a_add_def split: if_splits option.splits)
  let ?es = "(slots A)[i := Some (FEntry n False (Stored []))]"
  from free_slot_Some [OF A'(2)] have i: "i < length (slots A)" "slots A ! i = None" by simp_all
  have upd: "find_slot n (es[i := Some (FEntry n False (Stored []))]) = Some i
      \<and> (\<forall>k. k \<noteq> n \<longrightarrow> find_slot k (es[i := Some (FEntry n False (Stored []))]) = find_slot k es)"
    if "find_slot n es = None" "i < length es" "es ! i = None" for es :: "fentry option list" and i
    using that
  proof (induction es arbitrary: i)
    case (Cons e es)
    then show ?case by (cases i) (auto split: option.splits if_splits)
  qed simp
  have tab: "file_table st' = file_table st" "layout st"
    using c fs_repD(1) [OF rep] by (auto simp: fs_create_def fs_add_def set_ram_def Let_def split: if_splits bind_splits)
  have nm: "cstr (fs_ram st') p k" if "name_arg st p k" for p k
    using cstr_cong [of p k "fs_ram st" "fs_ram st'"] name_argD [OF that]
      agree_on_mono [OF fr, of "cspan p (Suc (length k))"] by (simp add: disjoint_eq_subset_Compl)
  have i': "i < FS_MAX_FILES" using i(1) fs_repD(3) [OF rep] by simp
  let ?f = "slot (file_table st') i"
  have o: "fs_open name st' = Some ?f"
    using fs_open_eq [OF A'(3) nm [OF n]] upd [OF A'(1) i] by simp
  have e: "entry_rep (mm st') ?f (Some (FEntry n False (Stored [])))"
    using fs_repD(4) [OF A'(3) i'] i(1) by simp
  have "?f \<noteq> NULL" using slot_props(1) [OF fs_repD(1) [OF A'(3)] i'] .
  moreover have "fs_open other st' = fs_open other st" if "name_arg st other k" "k \<noteq> n" for other k
    using fs_open_eq [OF A'(3) nm [OF that(1)]] fs_open_eq [OF rep name_argD(2) [OF that(1)]]
      upd [OF A'(1) i] that(2) tab by (simp cong: option.case_cong)
  ultimately show ?thesis using o e
    by (auto simp: fs_get_size_def fs_is_dir_def fs_get_name_def entry_rep_def content_rep_def)
qed

theorem fs_create_then_open_witness:
  "\<exists>st' f. fs_create (Lit ''a.txt'') boot_fs = Some (0, st') \<and> fs_open (Lit ''a.txt'') st' = Some f \<and> f \<noteq> NULL"
proof -
  obtain st' where c: "fs_create (Lit ''a.txt'') boot_fs = Some (0, st')"
    by (rule one_file [of "''a.txt''" False]) (simp_all add: FS_MAX_FILENAME_def)
  have "name_arg boot_fs (Lit ''a.txt'') (bytes ''a.txt'')" by (rule name_arg_Lit) simp_all
  from fs_create_then_open [OF boot_fs_rep(1) this c] c show ?thesis by blast
qed

text \<open>
  C14: \<^verbatim>\<open>fs_delete\<close> on a sound state returns -1 and changes nothing for an unknown name; otherwise it
  returns 0, empties exactly that entry, and gives exactly the block of its contents back to the heap.
\<close>
theorem fs_delete_spec:
  assumes "fs_rep st A" "name_arg st name n"
  shows "\<exists>st'. fs_delete name st = Some (fst (a_delete n A), st') \<and> fs_rep st' (snd (a_delete n A))
    \<and> (\<forall>q k. owns (mm st') q k \<longleftrightarrow> owns (mm st) q k
        \<and> \<not> (\<exists>i. find_slot n (slots A) = Some i \<and> q = f_data (fs_ram st) (slot (file_table st) i)))"
  by (rule fs_delete_refines [OF assms])

theorem fs_delete_spec_witness:
  "\<exists>st st' A. fs_create (Lit ''a'') boot_fs = Some (0, st) \<and> fs_delete (Lit ''a'') st = Some (0, st')
    \<and> fs_rep st' A \<and> slots A = replicate FS_MAX_FILES None"
proof -
  obtain st where st: "fs_create (Lit ''a'') boot_fs = Some (0, st)"
    "fs_rep st \<lparr>slots = Some (FEntry (bytes ''a'') False (Stored [])) # replicate (FS_MAX_FILES - 1) None, cwd = bytes ''/''\<rparr>"
    by (rule one_file [of "''a''" False]) (simp_all add: FS_MAX_FILENAME_def)
  have "name_arg st (Lit ''a'') (bytes ''a'')" by (rule name_arg_Lit) simp_all
  from fs_delete_spec [OF st(2) this] obtain st' where "fs_delete (Lit ''a'') st = Some (0, st')"
    "fs_rep st' \<lparr>slots = None # replicate (FS_MAX_FILES - 1) None, cwd = bytes ''/''\<rparr>"
    by (auto simp: a_delete_def)
  moreover have "None # replicate (FS_MAX_FILES - 1) None = (replicate FS_MAX_FILES None :: fentry option list)"
    by (simp add: FS_MAX_FILES_def replicate_Suc [symmetric] del: replicate_Suc)
  ultimately show ?thesis using st(1) by (metis afs.select_convs(1))
qed

text \<open>
  C12: What \<^verbatim>\<open>fs_write\<close> stores is what \<^verbatim>\<open>fs_read\<close> gives back. On an open file and a source of at most
  64 KB in the caller's own memory, \<^verbatim>\<open>fs_write\<close> returns: either -3, for a heap without room, or the
  size; then the file has that size, and reading it into any buffer of the caller yields the bytes
  written. Every block that is not the file's own keeps its owner and its contents.
\<close>
theorem fs_write_read_roundtrip:
  assumes rep: "fs_rep st A" and o: "name_arg st name n" "fs_open name st = Some f" "f \<noteq> NULL"
    and d: "data \<noteq> NULL" "len \<le> FS_MAX_FILESIZE" "unat data + unat len \<le> 2 ^ 32"
      "client_region st (range_of (unat data) (unat len))"
  shows "\<exists>r st'. fs_write f data len st = Some (r, st') \<and> (r = int (unat len) \<or> r = -3 \<and> 0 < len)
    \<and> (\<forall>q. q \<noteq> f_data (fs_ram st) f \<longrightarrow> block_kept (mm st) (mm st') q)
    \<and> (r \<noteq> -3 \<longrightarrow> fs_get_size f st' = len
        \<and> (\<forall>buffer. buffer \<noteq> NULL \<longrightarrow> unat buffer + unat len \<le> 2 ^ 32 \<longrightarrow>
             client_region st' (range_of (unat buffer) (unat len)) \<longrightarrow>
             (\<exists>st''. fs_read f buffer len 0 st' = (r, st'')
                \<and> bytes_at (fs_ram st'') buffer (unat len) = bytes_at (fs_ram st) data (unat len))))"
proof -
  obtain i e where i: "i < FS_MAX_FILES" "f = slot (file_table st) i" "slots A ! i = Some e"
    by (rule fs_openE [OF rep name_argD(2) [OF o(1)] o(2,3)])
  have "unat len < 2 ^ 31" using d(2) by (simp add: word_le_nat_alt FS_MAX_FILESIZE_def)
  then have sl: "sint len = int (unat len)" by (rule sint_small)
  from fs_write_spec [OF rep i(1,3) d(1,2,3,4)] obtain r st' where w: "fs_write f data len st = Some (r, st')"
    "r = int (unat len) \<and> fs_rep st' (set_cont i (Stored (bytes_at (fs_ram st) data (unat len))) A)
      \<or> r = -3 \<and> 0 < len \<and> fs_rep st' (set_cont i (lost (econt e)) A)"
    "\<forall>q. q \<noteq> f_data (fs_ram st) f \<longrightarrow> block_kept (mm st) (mm st') q"
    unfolding i(2) [symmetric] sl by blast
  let ?bs = "bytes_at (fs_ram st) data (unat len)"
  have tab: "file_table st' = file_table st"
    using w(1) by (auto simp: fs_write_def drop_data_def set_ram_def Let_def split: if_splits bind_splits)
  have read: "fs_get_size f st' = len
        \<and> (\<forall>buffer. buffer \<noteq> NULL \<longrightarrow> unat buffer + unat len \<le> 2 ^ 32 \<longrightarrow>
             client_region st' (range_of (unat buffer) (unat len)) \<longrightarrow>
             (\<exists>st''. fs_read f buffer len 0 st' = (r, st'') \<and> bytes_at (fs_ram st'') buffer (unat len) = ?bs))"
    if "r \<noteq> -3"
  proof -
    have r: "r = int (unat len)" and rep': "fs_rep st' (set_cont i (Stored ?bs) A)" using w(2) that by auto
    have e': "slots (set_cont i (Stored ?bs) A) ! i = Some (FEntry (ename e) (edir e) (Stored ?bs))"
      using i fs_repD(3) [OF rep] by (simp add: set_cont_def)
    have "content_rep (mm st') (f_data (fs_ram st') f) (f_size (fs_ram st') f) (Stored ?bs)"
      using fs_repD(4) [OF rep' i(1)] e' tab i(2) by (simp add: entry_rep_def)
    then have "fs_get_size f st' = len" using o(3) by (simp add: fs_get_size_def content_rep_def)
    moreover have "\<exists>st''. fs_read f buffer len 0 st' = (r, st'') \<and> bytes_at (fs_ram st'') buffer (unat len) = ?bs"
      if "buffer \<noteq> NULL" "unat buffer + unat len \<le> 2 ^ 32" "client_region st' (range_of (unat buffer) (unat len))" for buffer
      using fs_read_spec [OF rep' i(1) e' _ that(1), of ?bs 0 len] that tab i(2) r by auto
    ultimately show ?thesis by blast
  qed
  with w show ?thesis by blast
qed

theorem fs_write_read_roundtrip_witness:
  "\<exists>st f r st'. fs_create (Lit ''a'') boot_fs = Some (0, st) \<and> fs_open (Lit ''a'') st = Some f
    \<and> fs_write f 0x20000 100 st = Some (r, st') \<and> (r \<noteq> -3 \<longrightarrow> fs_get_size f st' = 100)"
proof -
  obtain st where st: "fs_create (Lit ''a'') boot_fs = Some (0, st)"
    "fs_rep st \<lparr>slots = Some (FEntry (bytes ''a'') False (Stored [])) # replicate (FS_MAX_FILES - 1) None, cwd = bytes ''/''\<rparr>"
    "file_table st = 0x10000" "current_dir st = 0x11000"
    by (rule one_file [of "''a''" False]) (simp_all add: FS_MAX_FILENAME_def)
  have n: "name_arg st (Lit ''a'') (bytes ''a'')" by (rule name_arg_Lit) simp_all
  have o: "fs_open (Lit ''a'') st = Some 0x10000"
    using fs_open_eq [OF st(2) name_argD(2) [OF n]] st(3) by (simp add: slot_def)
  have "client_region st (range_of (unat (0x20000 :: addr)) (unat (100 :: u32)))"
    using low_client_region [OF st(3,4), of "0x20000" 100] by (simp add: HEAP_START_def)
  from fs_write_read_roundtrip [OF st(2) n o _ _ _ _ this] st(1) o show ?thesis
    by (auto simp: FS_MAX_FILESIZE_def)
qed

text \<open>
  C13: \<^verbatim>\<open>fs_append\<close> appends. When the file's size and the new bytes together stay within 64 KB it
  either returns -3 with the whole state unchanged, or the number of bytes, and then the contents are
  the old ones followed by the new ones; every block that is not the file's own is untouched.
\<close>
theorem fs_append_concatenates:
  assumes rep: "fs_rep st A" and o: "name_arg st name n" "fs_open name st = Some f" "f \<noteq> NULL"
    and e: "find_slot n (slots A) = Some i" "slots A ! i = Some e" "econt e = Stored bs"
    and d: "data \<noteq> NULL" "0 < len" "length bs + unat len \<le> unat FS_MAX_FILESIZE" "unat data + unat len \<le> 2 ^ 32"
      "client_region st (range_of (unat data) (unat len))"
  shows "fs_append f data len st = Some (-3, st)
    \<or> (\<exists>st'. fs_append f data len st = Some (int (unat len), st')
        \<and> fs_rep st' (set_cont i (Stored (bs @ bytes_at (fs_ram st) data (unat len))) A)
        \<and> (\<forall>q. q \<noteq> f_data (fs_ram st) f \<longrightarrow> block_kept (mm st) (mm st') q))"
proof -
  obtain j e' where j: "j < FS_MAX_FILES" "f = slot (file_table st) j" "find_slot n (slots A) = Some j"
    by (rule fs_openE [OF rep name_argD(2) [OF o(1)] o(2,3)])
  with e(1) have i: "i < FS_MAX_FILES" "f = slot (file_table st) i" by simp_all
  have "unat len < 2 ^ 31" using d(3) by (simp add: FS_MAX_FILESIZE_def)
  then have sl: "sint len = int (unat len)" by (rule sint_small)
  from fs_append_spec [OF rep i(1) e(2) d(1,2) _ d(4,5)] d(3) e(3) show ?thesis
    unfolding i(2) [symmetric] sl by auto
qed

theorem fs_append_concatenates_witness:
  "\<exists>st. fs_create (Lit ''a'') boot_fs = Some (0, st) \<and>
    (fs_append 0x10000 0x20000 100 st = Some (-3, st) \<or> (\<exists>st'. fs_append 0x10000 0x20000 100 st = Some (100, st')))"
proof -
  let ?A = "\<lparr>slots = Some (FEntry (bytes ''a'') False (Stored [])) # replicate (FS_MAX_FILES - 1) None, cwd = bytes ''/''\<rparr>"
  obtain st where st: "fs_create (Lit ''a'') boot_fs = Some (0, st)" "fs_rep st ?A"
    "file_table st = 0x10000" "current_dir st = 0x11000"
    by (rule one_file [of "''a''" False]) (simp_all add: FS_MAX_FILENAME_def)
  have n: "name_arg st (Lit ''a'') (bytes ''a'')" by (rule name_arg_Lit) simp_all
  have o: "fs_open (Lit ''a'') st = Some 0x10000"
    using fs_open_eq [OF st(2) name_argD(2) [OF n]] st(3) by (simp add: slot_def)
  have "client_region st (range_of (unat (0x20000 :: addr)) (unat (100 :: u32)))"
    using low_client_region [OF st(3,4), of "0x20000" 100] by (simp add: HEAP_START_def)
  from fs_append_concatenates [OF st(2) n o _ _ _ _ _ _ _ _ this, of 0 "FEntry (bytes ''a'') False (Stored [])" "[]"] st(1)
  show ?thesis by (auto simp: FS_MAX_FILESIZE_def)
qed

text \<open>
  C22: \<^verbatim>\<open>fs_rmdir\<close> removes a directory entry only (-1 for an unknown name, -2 for a file), but it gives
  nothing back to the heap: a directory that holds contents leaves a block that is still allocated
  and that no entry refers to any more.
\<close>
theorem fs_rmdir_leaks:
  assumes rep: "fs_rep st A" and n: "name_arg st name n"
  shows "\<exists>st'. fs_rmdir name st = Some (fst (a_rmdir n A), st') \<and> fs_rep st' (snd (a_rmdir n A))
    \<and> (\<forall>i p. find_slot n (slots A) = Some i \<longrightarrow> is_dir_slot A i \<longrightarrow>
         p = f_data (fs_ram st) (slot (file_table st) i) \<longrightarrow> p \<noteq> NULL \<longrightarrow>
         (\<exists>k. owns (mm st') p k) \<and> (\<forall>j<FS_MAX_FILES. f_data (fs_ram st') (slot (file_table st') j) \<noteq> p))"
proof -
  from fs_rmdir_refines [OF rep n] obtain st' where r: "fs_rmdir name st = Some (fst (a_rmdir n A), st')"
    "fs_rep st' (snd (a_rmdir n A))" "\<And>q k. owns (mm st') q k \<longleftrightarrow> owns (mm st) q k" by blast
  have leak: "(\<exists>k. owns (mm st') p k) \<and> (\<forall>j<FS_MAX_FILES. f_data (fs_ram st') (slot (file_table st') j) \<noteq> p)"
    if i: "find_slot n (slots A) = Some i" "is_dir_slot A i" and p: "p = f_data (fs_ram st) (slot (file_table st) i)" "p \<noteq> NULL"
    for i p
  proof -
    note D = fs_repD [OF rep] and lt = find_slot_lt [OF rep i(1)]
    note sp = slot_props [OF D(1) lt]
    obtain k where k: "owns (mm st) p k" by (rule file_block [OF rep lt]) (use p in auto)
    have st': "st' = set_ram (clear_entry (fs_ram st) (slot (file_table st) i)) st"
      using r(1) fs_find_eq [OF rep name_argD(2) [OF n]] i is_dir_slot_flags [OF rep i(1)]
      by (simp add: fs_rmdir_def Let_def)
    note c = clear_entry_props [OF sp(2), of "fs_ram st"]
    have "f_data (fs_ram st') (slot (file_table st') j) \<noteq> p" if j: "j < FS_MAX_FILES" for j
    proof (cases "j = i")
      case False
      have "eset (slot (file_table st) i) \<inter> eset (slot (file_table st) j) = {}" by (rule sp(6) [OF j]) (use False in simp)
      then have "agree_on (eset (slot (file_table st) j)) (fs_ram st) (fs_ram st')"
        unfolding st' using agree_on_mono [OF c(3), of "eset (slot (file_table st) j)"] by (auto simp: set_ram_def)
      from fields_cong(1) [OF slot_props(2) [OF D(1) j] this] other_data [OF rep lt j False] p st'
      show ?thesis by (auto simp: set_ram_def)
    qed (use c(2) p(2) in \<open>simp add: st' set_ram_def\<close>)
    with k r(3) show ?thesis by blast
  qed
  with r(1,2) show ?thesis by blast
qed

text \<open>A directory with contents: \<^verbatim>\<open>fs_open\<close> finds directories too, and \<^verbatim>\<open>fs_write\<close> does not look at the type.\<close>

lemma written_dir:
  obtains st r st' where "fs_mkdir (Lit ''d'') boot_fs = Some (0, st)" "fs_open (Lit ''d'') st = Some 0x10000"
    "fs_write 0x10000 0x20000 5 st = Some (r, st')"
    "fs_rep st' \<lparr>slots = Some (FEntry (bytes ''d'') True (Stored (bytes_at (fs_ram st) 0x20000 5))) # replicate (FS_MAX_FILES - 1) None, cwd = bytes ''/''\<rparr>"
    "slot (file_table st') 0 = 0x10000" "f_data (fs_ram st') 0x10000 \<noteq> NULL"
proof -
  let ?A = "\<lambda>c. \<lparr>slots = Some (FEntry (bytes ''d'') True c) # replicate (FS_MAX_FILES - 1) None, cwd = bytes ''/''\<rparr>"
  obtain st where st: "fs_mkdir (Lit ''d'') boot_fs = Some (0, st)" "fs_rep st (?A (Stored []))"
    "file_table st = 0x10000" "current_dir st = 0x11000"
    by (rule one_file [of "''d''" True]) (simp_all add: FS_MAX_FILENAME_def)
  have n: "name_arg st (Lit ''d'') (bytes ''d'')" by (rule name_arg_Lit) simp_all
  have o: "fs_open (Lit ''d'') st = Some 0x10000"
    using fs_open_eq [OF st(2) name_argD(2) [OF n]] st(3) by (simp add: slot_def)
  have s: "slot (file_table st) 0 = 0x10000" "0 < FS_MAX_FILES" using st(3) by (simp_all add: slot_def FS_MAX_FILES_def)
  have "name_arg boot_fs (Lit ''d'') (bytes ''d'')" by (rule name_arg_Lit) simp_all
  from fs_mkdir_refines [OF boot_fs_rep(1) this] st(1) have "\<not> owns (mm st) q k" for q k using boot_fs_rep(2) by auto
  then have room: "gap (mm st) (malloc_total (unat (5 :: u32)) + 28)"
    unfolding gap_def by (intro exI [of _ HEAP_START]) (simp add: heap_consts malloc_total_def)
  have src: "client_region st (range_of (unat (0x20000 :: addr)) (unat (5 :: u32)))"
    using low_client_region [OF st(3,4), of "0x20000" 5] by (simp add: HEAP_START_def)
  have e: "slots (?A (Stored [])) ! 0 = Some (FEntry (bytes ''d'') True (Stored []))" by simp
  obtain r h where w: "fs_write 0x10000 0x20000 5 st = Some (r, st\<lparr>mm := h\<rparr>)"
    "fs_rep (st\<lparr>mm := h\<rparr>) (set_cont 0 (Stored (bytes_at (fs_ram st) 0x20000 5)) (?A (Stored [])))"
    using fs_write_full [OF st(2) s(2) e _ _ _ src, unfolded s(1)] room by (auto simp: FS_MAX_FILESIZE_def)
  have rep: "fs_rep (st\<lparr>mm := h\<rparr>) (?A (Stored (bytes_at (fs_ram st) 0x20000 5)))"
    using w(2) by (simp add: set_cont_def)
  have "f_data (ram h) 0x10000 \<noteq> NULL"
    using fs_repD(4) [OF rep s(2)] s(1) by (auto simp: entry_rep_def content_rep_def bytes_at_def)
  with that [OF st(1) o w(1) rep] s(1) show thesis by (simp add: set_ram_def)
qed

theorem fs_rmdir_leaks_witness:
  "\<exists>st r st1 st2 p k. fs_mkdir (Lit ''d'') boot_fs = Some (0, st) \<and> fs_open (Lit ''d'') st = Some 0x10000
     \<and> fs_write 0x10000 0x20000 5 st = Some (r, st1) \<and> fs_rmdir (Lit ''d'') st1 = Some (0, st2)
     \<and> p \<noteq> NULL \<and> owns (mm st2) p k \<and> (\<forall>j<FS_MAX_FILES. f_data (fs_ram st2) (slot (file_table st2) j) \<noteq> p)"
proof -
  obtain st r st1 where w: "fs_mkdir (Lit ''d'') boot_fs = Some (0, st)" "fs_open (Lit ''d'') st = Some 0x10000"
    "fs_write 0x10000 0x20000 5 st = Some (r, st1)"
    "fs_rep st1 \<lparr>slots = Some (FEntry (bytes ''d'') True (Stored (bytes_at (fs_ram st) 0x20000 5))) # replicate (FS_MAX_FILES - 1) None, cwd = bytes ''/''\<rparr>"
    "slot (file_table st1) 0 = 0x10000" "f_data (fs_ram st1) 0x10000 \<noteq> NULL" by (rule written_dir)
  have "name_arg st1 (Lit ''d'') (bytes ''d'')" by (rule name_arg_Lit) simp_all
  from fs_rmdir_leaks [OF w(4) this] w(5,6) obtain st2 k where "fs_rmdir (Lit ''d'') st1 = Some (0, st2)"
    "owns (mm st2) (f_data (fs_ram st1) 0x10000) k"
    "\<forall>j<FS_MAX_FILES. f_data (fs_ram st2) (slot (file_table st2) j) \<noteq> f_data (fs_ram st1) 0x10000"
    by (auto simp: a_rmdir_def is_dir_slot_def)
  with w(1-3,6) show ?thesis by blast
qed

text \<open>
  C21: \<^verbatim>\<open>fs_chdir\<close> on a sound state goes to the root for the names "/" and "..", to a directory that
  exists, and otherwise returns -1 or -2 and stays; the name it stores is what \<^verbatim>\<open>fs_getcwd\<close> returns.
\<close>
theorem fs_chdir_tracks:
  assumes "fs_rep st A" "name_arg st name n"
  shows "\<exists>st'. fs_chdir name st = Some (fst (a_chdir n A), st') \<and> fs_rep st' (snd (a_chdir n A))
    \<and> cstr (fs_ram st') (fs_getcwd st') (cwd (snd (a_chdir n A)))"
  using fs_chdir_refines [OF assms] fs_repD(7) by (fastforce simp: fs_getcwd_def)

theorem fs_chdir_tracks_witness:
  "\<exists>st st'. fs_mkdir (Lit ''d'') boot_fs = Some (0, st) \<and> fs_chdir (Lit ''d'') st = Some (0, st')
    \<and> cstr (fs_ram st') (fs_getcwd st') (bytes ''d'')"
proof -
  obtain st where st: "fs_mkdir (Lit ''d'') boot_fs = Some (0, st)"
    "fs_rep st \<lparr>slots = Some (FEntry (bytes ''d'') True (Stored [])) # replicate (FS_MAX_FILES - 1) None, cwd = bytes ''/''\<rparr>"
    by (rule one_file [of "''d''" True]) (simp_all add: FS_MAX_FILENAME_def)
  have "name_arg st (Lit ''d'') (bytes ''d'')" by (rule name_arg_Lit) simp_all
  from fs_chdir_tracks [OF st(2) this] st(1) show ?thesis by (auto simp: a_chdir_def is_dir_slot_def)
qed

end
