(* ===== verification/Machine.thy ===== *)
theory Machine
  imports Keyboard_Props Idt_Props Ramfs_Props
begin

text \<open>
  The whole machine: the drivers' state, the memory with heap and file system, and the interrupts
  still to come. Here are the parts of the drivers that wait: the interrupt dispatcher of
  \<^verbatim>\<open>idt.c\<close>, the \<^verbatim>\<open>hlt\<close> instruction, the sleeping functions of \<^verbatim>\<open>timer.c\<close> and the blocking reads of
  \<^verbatim>\<open>keyboard.c\<close>.

  \<open>irqs\<close> lists the interrupts in the order they arrive, in batches: each time the program waits, the
  next batch is serviced before the program looks at the drivers' data again. Interrupts that
  arrive while the program computes touch only the tick counter, the keyboard data and the port
  trace, and count to the next batch. A wait that no interrupt ends is \<open>None\<close>.
\<close>

section \<open>State\<close>

record machine = kbd +
  irqs :: "interrupt_frame list list"
  fsys :: ramfs
  command_buffer :: addr
  list_buffer :: addr

text \<open>\<open>command_buffer\<close> is the static array of the shell, \<open>list_buffer\<close> the local array of \<^verbatim>\<open>cmd_ls\<close>.\<close>

abbreviation mem_of :: "'a machine_scheme \<Rightarrow> mem" where
  "mem_of st \<equiv> fs_ram (fsys st)"

definition put_mem :: "mem \<Rightarrow> 'a machine_scheme \<Rightarrow> 'a machine_scheme" where
  "put_mem m st = st\<lparr>fsys := set_ram m (fsys st)\<rparr>"

section \<open>Interrupts\<close>

text \<open>An interrupt number outside 32 to 47 would read beyond the handler table.\<close>

definition irq_handler :: "interrupt_frame \<Rightarrow> 'a kbd_scheme \<Rightarrow> 'a kbd_scheme option" where
  "irq_handler frame st =
     (let irq = ucast (int_no frame - 32) :: u8
      in if 16 \<le> irq then None
         else (let st1 = (case irq_handlers st ! unat irq of
                            Some Timer_handler \<Rightarrow> timer_handler st
                          | Some Keyboard_handler \<Rightarrow> keyboard_handler st
                          | None \<Rightarrow> st);
                   st2 = (if 8 \<le> irq then outb PIC2_COMMAND PIC_EOI st1 else st1)
               in Some (outb PIC1_COMMAND PIC_EOI st2)))"

primrec deliver :: "interrupt_frame list \<Rightarrow> 'a kbd_scheme \<Rightarrow> 'a kbd_scheme option" where
  "deliver [] st = Some st"
| "deliver (f # fs) st = do { st1 \<leftarrow> irq_handler f st; deliver fs st1 }"

text \<open>\<^verbatim>\<open>hlt\<close> with interrupts off, or with none to come, never returns.\<close>

definition halt :: "'a machine_scheme \<Rightarrow> 'a machine_scheme option" where
  "halt st =
     (if int_flag st then
        (case irqs st of [] \<Rightarrow> None | b # bs \<Rightarrow> deliver b (st\<lparr>irqs := bs\<rparr>))
      else None)"

section \<open>Sleeping\<close>

partial_function (option) sleep_loop :: "u32 \<Rightarrow> 'a machine_scheme \<Rightarrow> 'a machine_scheme option" where
  "sleep_loop end_tick st =
     (if timer_ticks st < end_tick then do { st1 \<leftarrow> halt st; sleep_loop end_tick st1 } else Some st)"

definition timer_sleep_ticks :: "u32 \<Rightarrow> 'a machine_scheme \<Rightarrow> 'a machine_scheme option" where
  "timer_sleep_ticks ticks st = sleep_loop (timer_ticks st + ticks) st"

definition timer_sleep_ms :: "u32 \<Rightarrow> 'a machine_scheme \<Rightarrow> 'a machine_scheme option" where
  "timer_sleep_ms ms st =
     (let ticks = ms * timer_frequency st div 1000
      in timer_sleep_ticks (if ticks = 0 then 1 else ticks) st)"

definition timer_sleep :: "u32 \<Rightarrow> 'a machine_scheme \<Rightarrow> 'a machine_scheme option" where
  "timer_sleep seconds st = timer_sleep_ticks (seconds * timer_frequency st) st"

section \<open>Blocking reads\<close>

partial_function (option) key_wait :: "'a machine_scheme \<Rightarrow> 'a machine_scheme option" where
  "key_wait st = (if \<not> keyboard_has_key st then do { st1 \<leftarrow> halt st; key_wait st1 } else Some st)"

definition keyboard_getchar :: "'a machine_scheme \<Rightarrow> (u8 \<times> 'a machine_scheme) option" where
  "keyboard_getchar st = do { st1 \<leftarrow> key_wait st; Some (buffer_take st1) }"

partial_function (option) readline_loop ::
  "addr \<Rightarrow> u32 \<Rightarrow> u32 \<Rightarrow> 'a machine_scheme \<Rightarrow> (u32 \<times> 'a machine_scheme) option" where
  "readline_loop buffer max_length i st =
     (if i < max_length - 1 then do {
        (c, st1) \<leftarrow> keyboard_getchar st;
        if c = 10 then Some (i, vga_putchar 10 st1)
        else if c = 8 then
          (if 0 < i then readline_loop buffer max_length (i - 1) (vga_putchar 8 st1)
           else readline_loop buffer max_length i st1)
        else readline_loop buffer max_length (i + 1)
               (vga_putchar c (put_mem ((mem_of st1)(buffer + i := c)) st1))
      }
      else Some (i, st))"

definition keyboard_readline :: "addr \<Rightarrow> u32 \<Rightarrow> 'a machine_scheme \<Rightarrow> (u32 \<times> 'a machine_scheme) option" where
  "keyboard_readline buffer max_length st = do {
     (i, st1) \<leftarrow> readline_loop buffer max_length 0 st;
     Some (i, put_mem ((mem_of st1)(buffer + i := 0)) st1)
   }"

section \<open>Calls from the shell\<close>

text \<open>\<^verbatim>\<open>vga_print\<close> of a literal and of a string in memory, and heap calls on the machine.\<close>

definition say :: "string \<Rightarrow> 'a machine_scheme \<Rightarrow> 'a machine_scheme option" where
  "say s st = vga_print (mem_of st) (Lit s) st"

definition say_at :: "addr \<Rightarrow> 'a machine_scheme \<Rightarrow> 'a machine_scheme option" where
  "say_at a st = vga_print (mem_of st) (Ptr a) st"

definition mach_malloc :: "u32 \<Rightarrow> 'a machine_scheme \<Rightarrow> (addr \<times> 'a machine_scheme) option" where
  "mach_malloc sz st = do {
     (p, h) \<leftarrow> kmalloc sz (mm (fsys st));
     Some (p, st\<lparr>fsys := (fsys st)\<lparr>mm := h\<rparr>\<rparr>)
   }"

definition mach_free :: "addr \<Rightarrow> 'a machine_scheme \<Rightarrow> 'a machine_scheme option" where
  "mach_free p st = do {
     h \<leftarrow> kfree p (mm (fsys st));
     Some (st\<lparr>fsys := (fsys st)\<lparr>mm := h\<rparr>\<rparr>)
   }"

text \<open>A file system call.\<close>

definition mach_fs ::
  "(ramfs \<Rightarrow> ('r \<times> ramfs) option) \<Rightarrow> 'a machine_scheme \<Rightarrow> ('r \<times> 'a machine_scheme) option" where
  "mach_fs f st = do { (r, fs) \<leftarrow> f (fsys st); Some (r, st\<lparr>fsys := fs\<rparr>) }"

end
