(* ===== verification/Nano.thy ===== *)
theory Nano
  imports Machine
begin

text \<open>
  The editor: \<^verbatim>\<open>cmd_nano\<close> of \<^verbatim>\<open>src/src/kernel/shell.c\<close>, part by part. The text is an array of 100
  pointers to heap blocks of 80 bytes, all in memory; the pointers are read from memory at every
  use, as the code does, so that a write past the end of a line has the effect it has.
\<close>

section \<open>State\<close>

definition NANO_MAX_LINES :: nat where "NANO_MAX_LINES = 100"
definition NANO_LINE_LEN :: u32 where "NANO_LINE_LEN = 80"

text \<open>The local variables of the editor.\<close>

record nano =
  nlines :: addr
  num_lines :: int
  cur_line :: int
  cur_col :: int
  modified :: bool

definition line_at :: "mem \<Rightarrow> addr \<Rightarrow> int \<Rightarrow> addr" where
  "line_at m ls i = load32 m (ls + of_int (4 * i))"

section \<open>Buffers and loading\<close>

primrec nano_alloc :: "addr \<Rightarrow> nat \<Rightarrow> nat \<Rightarrow> 'a machine_scheme \<Rightarrow> 'a machine_scheme option" where
  "nano_alloc ls i 0 st = Some st"
| "nano_alloc ls i (Suc n) st = do {
     (p, st1) \<leftarrow> mach_malloc NANO_LINE_LEN st;
     let m1 = store32 (mem_of st1) (ls + of_nat (4 * i)) p;
     let m2 = (if line_at m1 ls (int i) \<noteq> NULL then m1(line_at m1 ls (int i) := 0) else m1);
     nano_alloc ls (Suc i) n (put_mem m2 st1)
   }"

partial_function (option) line_end :: "mem \<Rightarrow> addr \<Rightarrow> addr option" where
  "line_end m p = (if m p \<noteq> 0 \<and> m p \<noteq> 10 then line_end m (p + 1) else Some p)"

partial_function (option) nano_split :: "addr \<Rightarrow> mem \<Rightarrow> addr \<Rightarrow> int \<Rightarrow> (mem \<times> int) option" where
  "nano_split ls m p n =
     (if m p \<noteq> 0 \<and> n < int NANO_MAX_LINES then do {
        q \<leftarrow> line_end m p;
        let len = (if NANO_LINE_LEN \<le> q - p then NANO_LINE_LEN - 1 else q - p);
        let m1 = strncpy m (line_at m ls n) (Ptr p) len;
        let m2 = m1(line_at m1 ls n + len := 0);
        nano_split ls m2 (if m2 q = 10 then q + 1 else q) (n + 1)
      }
      else Some (m, n))"

text \<open>The number of lines after loading the file, and the machine.\<close>

definition nano_load :: "addr \<Rightarrow> addr \<Rightarrow> 'a machine_scheme \<Rightarrow> (int \<times> 'a machine_scheme) option" where
  "nano_load filename ls st = do {
     file \<leftarrow> fs_open (Ptr filename) (fsys st);
     if file \<noteq> NULL \<and> 0 < fs_get_size file (fsys st) then do {
       let sz = fs_get_size file (fsys st);
       (content, st1) \<leftarrow> mach_malloc (sz + 1) st;
       if content \<noteq> NULL then do {
         let st2 = st1\<lparr>fsys := snd (fs_read file content sz 0 (fsys st1))\<rparr>;
         (m, n) \<leftarrow> nano_split ls ((mem_of st2)(content + sz := 0)) content 0;
         st3 \<leftarrow> mach_free content (put_mem m st2);
         Some (if n = 0 then 1 else n, st3)
       }
       else Some (1, st1)
     }
     else Some (1, st)
   }"

section \<open>Drawing\<close>

primrec nano_rows :: "addr \<Rightarrow> int \<Rightarrow> nat \<Rightarrow> nat \<Rightarrow> 'a machine_scheme \<Rightarrow> 'a machine_scheme option" where
  "nano_rows ls num i 0 st = Some st"
| "nano_rows ls num i (Suc n) st =
     (if int i < num then do {
        let st1 = vga_set_cursor (of_nat (i + 1)) 0 st;
        st2 \<leftarrow> (if line_at (mem_of st1) ls (int i) \<noteq> NULL
                 then say_at (line_at (mem_of st1) ls (int i)) st1 else Some st1);
        nano_rows ls num (Suc i) n st2
      }
      else Some st)"

definition nano_draw :: "addr \<Rightarrow> nano \<Rightarrow> 'a machine_scheme \<Rightarrow> 'a machine_scheme option" where
  "nano_draw filename e st = do {
     let st1 = vga_set_color BLACK WHITE (vga_hide_cursor (vga_clear st));
     st2 \<leftarrow> say ''  KontolOS nano - '' st1;
     st3 \<leftarrow> say_at filename st2;
     st4 \<leftarrow> (if modified e then say '' [modified]'' st3 else Some st3);
     len \<leftarrow> strlen (mem_of st4) (Ptr filename);
     let st5 = (vga_putchar 32 ^^ nat (80 - sint (40 + len))) st4;
     st6 \<leftarrow> nano_rows (nlines e) (num_lines e) 0 22 (vga_set_color WHITE BLACK st5);
     let st7 = vga_set_color BLACK LIGHT_GREY (vga_set_cursor 23 0 st6);
     st8 \<leftarrow> say ''  ^S Save  ^X Exit                                Line:'' st7;
     st9 \<leftarrow> say '' Col:'' (vga_print_dec (of_int (cur_line e + 1)) st8);
     st10 \<leftarrow> say ''          '' (vga_print_dec (of_int (cur_col e + 1)) st9);
     let st11 = vga_set_color WHITE BLACK st10;
     Some (vga_show_cursor (vga_set_cursor (of_int (cur_line e + 1)) (of_int (cur_col e)) st11))
   }"

section \<open>Keys\<close>

text \<open>Saving: the size, the concatenation, the write.\<close>

primrec nano_total :: "addr \<Rightarrow> mem \<Rightarrow> int \<Rightarrow> nat \<Rightarrow> u32 \<Rightarrow> u32 option" where
  "nano_total ls m i 0 tot = Some tot"
| "nano_total ls m i (Suc n) tot = do {
     len \<leftarrow> strlen m (Ptr (line_at m ls i));
     nano_total ls m (i + 1) n (tot + (len + 1))
   }"

primrec nano_concat :: "addr \<Rightarrow> addr \<Rightarrow> mem \<Rightarrow> int \<Rightarrow> nat \<Rightarrow> mem option" where
  "nano_concat content ls m i 0 = Some m"
| "nano_concat content ls m i (Suc n) = do {
     m1 \<leftarrow> strcat m content (Ptr (line_at m ls i));
     m2 \<leftarrow> strcat m1 content (Lit ''\<newline>'');
     nano_concat content ls m2 (i + 1) n
   }"

definition nano_save :: "addr \<Rightarrow> nano \<Rightarrow> 'a machine_scheme \<Rightarrow> (nano \<times> 'a machine_scheme) option" where
  "nano_save filename e st = do {
     tot \<leftarrow> nano_total (nlines e) (mem_of st) 0 (nat (num_lines e)) 0;
     (content, st1) \<leftarrow> mach_malloc (tot + 1) st;
     if content \<noteq> NULL then do {
       m \<leftarrow> nano_concat content (nlines e) ((mem_of st1)(content := 0)) 0 (nat (num_lines e));
       let st2 = put_mem m st1;
       f \<leftarrow> fs_open (Ptr filename) (fsys st2);
       (e1, st3) \<leftarrow> (if f \<noteq> NULL then do {
           len \<leftarrow> strlen (mem_of st2) (Ptr content);
           (r, st') \<leftarrow> mach_fs (fs_write f content len) st2;
           Some (e\<lparr>modified := False\<rparr>, st')
         }
         else Some (e, st2));
       st4 \<leftarrow> mach_free content st3;
       Some (e1, st4)
     }
     else Some (e, st1)
   }"

text \<open>\<^verbatim>\<open>lines[l][i] = lines[l][i + 1]\<close> for \<open>n\<close> indices from \<open>i\<close> up.\<close>

primrec shift_left :: "addr \<Rightarrow> int \<Rightarrow> mem \<Rightarrow> u32 \<Rightarrow> nat \<Rightarrow> mem" where
  "shift_left ls l m i 0 = m"
| "shift_left ls l m i (Suc n) =
     shift_left ls l (m(line_at m ls l + i := m (line_at m ls l + (i + 1)))) (i + 1) n"

text \<open>\<^verbatim>\<open>lines[l][i] = lines[l][i - 1]\<close> for \<open>n\<close> indices from \<open>i\<close> down.\<close>

primrec shift_right :: "addr \<Rightarrow> int \<Rightarrow> mem \<Rightarrow> u32 \<Rightarrow> nat \<Rightarrow> mem" where
  "shift_right ls l m i 0 = m"
| "shift_right ls l m i (Suc n) =
     shift_right ls l (m(line_at m ls l + i := m (line_at m ls l + (i - 1)))) (i - 1) n"

text \<open>\<^verbatim>\<open>strcpy(lines[i], lines[i + 1])\<close> for \<open>n\<close> lines up, \<^verbatim>\<open>strcpy(lines[i], lines[i - 1])\<close> for \<open>n\<close> lines down.\<close>

primrec lines_up :: "addr \<Rightarrow> mem \<Rightarrow> int \<Rightarrow> nat \<Rightarrow> mem option" where
  "lines_up ls m i 0 = Some m"
| "lines_up ls m i (Suc n) = do {
     m1 \<leftarrow> strcpy m (line_at m ls i) (Ptr (line_at m ls (i + 1)));
     lines_up ls m1 (i + 1) n
   }"

primrec lines_down :: "addr \<Rightarrow> mem \<Rightarrow> int \<Rightarrow> nat \<Rightarrow> mem option" where
  "lines_down ls m i 0 = Some m"
| "lines_down ls m i (Suc n) = do {
     m1 \<leftarrow> strcpy m (line_at m ls i) (Ptr (line_at m ls (i - 1)));
     lines_down ls m1 (i - 1) n
   }"

definition nano_backspace :: "nano \<Rightarrow> mem \<Rightarrow> (nano \<times> mem) option" where
  "nano_backspace e m =
     (if 0 < cur_col e then do {
        let col = cur_col e - 1;
        len \<leftarrow> strlen m (Ptr (line_at m (nlines e) (cur_line e)));
        Some (e\<lparr>cur_col := col, modified := True\<rparr>,
              shift_left (nlines e) (cur_line e) m (of_int col) (unat len - unat (of_int col :: u32)))
      }
      else if 0 < cur_line e then do {
        let l = cur_line e - 1;
        col \<leftarrow> strlen m (Ptr (line_at m (nlines e) l));
        m1 \<leftarrow> strcat m (line_at m (nlines e) l) (Ptr (line_at m (nlines e) (l + 1)));
        m2 \<leftarrow> lines_up (nlines e) m1 (l + 1) (nat (num_lines e - 1 - (l + 1)));
        Some (e\<lparr>cur_line := l, cur_col := sint col, num_lines := num_lines e - 1, modified := True\<rparr>,
              m2(line_at m2 (nlines e) (num_lines e - 1) := 0))
      }
      else Some (e, m))"

definition nano_enter :: "nano \<Rightarrow> mem \<Rightarrow> (nano \<times> mem) option" where
  "nano_enter e m =
     (if num_lines e < int NANO_MAX_LINES then do {
        m1 \<leftarrow> lines_down (nlines e) m (num_lines e) (nat (num_lines e - (cur_line e + 1)));
        m2 \<leftarrow> strcpy m1 (line_at m1 (nlines e) (cur_line e + 1))
                (Ptr (line_at m1 (nlines e) (cur_line e) + of_int (cur_col e)));
        Some (e\<lparr>num_lines := num_lines e + 1, cur_line := cur_line e + 1, cur_col := 0, modified := True\<rparr>,
              m2(line_at m2 (nlines e) (cur_line e) + of_int (cur_col e) := 0))
      }
      else Some (e, m))"

definition nano_insert :: "u8 \<Rightarrow> nano \<Rightarrow> mem \<Rightarrow> (nano \<times> mem) option" where
  "nano_insert c e m = do {
     len \<leftarrow> strlen m (Ptr (line_at m (nlines e) (cur_line e)));
     if len < NANO_LINE_LEN - 1 then do {
       let m1 = shift_right (nlines e) (cur_line e) m (len + 1) (unat (len + 1) - unat (of_int (cur_col e) :: u32));
       Some (e\<lparr>cur_col := cur_col e + 1, modified := True\<rparr>,
             m1(line_at m1 (nlines e) (cur_line e) + of_int (cur_col e) := c))
     }
     else Some (e, m)
   }"

text \<open>An edit of the text in memory, on the machine.\<close>

definition nano_edit ::
  "(nano \<Rightarrow> mem \<Rightarrow> (nano \<times> mem) option) \<Rightarrow> nano \<Rightarrow> 'a machine_scheme \<Rightarrow> (nano \<times> 'a machine_scheme) option" where
  "nano_edit f e st = do { (e1, m) \<leftarrow> f e (mem_of st); Some (e1, put_mem m st) }"

text \<open>One key: the new variables, whether the editor goes on, the machine.\<close>

definition nano_key :: "addr \<Rightarrow> u8 \<Rightarrow> nano \<Rightarrow> 'a machine_scheme \<Rightarrow> (nano \<times> bool \<times> 'a machine_scheme) option" where
  "nano_key filename c e st =
     (if c = 24 then Some (e, False, st)
      else do {
        (e1, st1) \<leftarrow>
          (if c = 19 then nano_save filename e st
           else if c = 8 then nano_edit nano_backspace e st
           else if c = 10 \<or> c = 13 then nano_edit nano_enter e st
           else if 32 \<le> c \<and> c < 127 then nano_edit (nano_insert c) e st
           else Some (e, st));
        Some (e1, True, st1)
      })"

definition nano_bounds :: "mem \<Rightarrow> nano \<Rightarrow> nano option" where
  "nano_bounds m e = do {
     let l0 = (if cur_line e < 0 then 0 else cur_line e);
     let l = (if num_lines e \<le> l0 then num_lines e - 1 else l0);
     let k = (if cur_col e < 0 then 0 else cur_col e);
     len \<leftarrow> strlen m (Ptr (line_at m (nlines e) l));
     Some (e\<lparr>cur_line := l, cur_col := (if sint len < k then sint len else k)\<rparr>)
   }"

section \<open>The command\<close>

partial_function (option) nano_loop :: "addr \<Rightarrow> nano \<Rightarrow> 'a machine_scheme \<Rightarrow> (nano \<times> 'a machine_scheme) option" where
  "nano_loop filename e st = do {
     st1 \<leftarrow> nano_draw filename e st;
     (c, st2) \<leftarrow> keyboard_getchar st1;
     (e1, running, st3) \<leftarrow> nano_key filename c e st2;
     e2 \<leftarrow> nano_bounds (mem_of st3) e1;
     if running then nano_loop filename e2 st3 else Some (e2, st3)
   }"

primrec nano_free :: "addr \<Rightarrow> nat \<Rightarrow> nat \<Rightarrow> 'a machine_scheme \<Rightarrow> 'a machine_scheme option" where
  "nano_free ls i 0 st = Some st"
| "nano_free ls i (Suc n) st = do {
     st1 \<leftarrow> (if line_at (mem_of st) ls (int i) \<noteq> NULL
              then mach_free (line_at (mem_of st) ls (int i)) st else Some st);
     nano_free ls (Suc i) n st1
   }"

definition cmd_nano :: "addr list \<Rightarrow> 'a machine_scheme \<Rightarrow> 'a machine_scheme option" where
  "cmd_nano argv st =
     (if length argv < 2 then say ''Usage: nano <filename>\<newline>'' st
      else do {
        let filename = argv ! 1;
        exists \<leftarrow> fs_exists (Ptr filename) (fsys st);
        st1 \<leftarrow> (if \<not> exists then do { (r, st') \<leftarrow> mach_fs (fs_create (Ptr filename)) st; Some st' } else Some st);
        (ls, st2) \<leftarrow> mach_malloc (of_nat NANO_MAX_LINES * 4) st1;
        if ls = NULL then say ''Error: Out of memory\<newline>'' st2
        else do {
          st3 \<leftarrow> nano_alloc ls 0 NANO_MAX_LINES st2;
          (n, st4) \<leftarrow> nano_load filename ls st3;
          (e, st5) \<leftarrow> nano_loop filename \<lparr>nlines = ls, num_lines = n, cur_line = 0, cur_col = 0, modified = False\<rparr> st4;
          st6 \<leftarrow> nano_free ls 0 NANO_MAX_LINES st5;
          st7 \<leftarrow> mach_free ls st6;
          Some (vga_set_color WHITE BLACK (vga_clear st7))
        }
      })"

end
