(* ===== verification/Shell.thy ===== *)
theory Shell
  imports Nano
begin

text \<open>
  The shell \<^verbatim>\<open>src/src/kernel/shell.c\<close>: the parser of the command line, the command table, the
  commands and the main loop. The editor \<^verbatim>\<open>cmd_nano\<close> has its own theory. A command gets its
  arguments as the list of the addresses in \<^verbatim>\<open>argv\<close>, whose length is \<^verbatim>\<open>argc\<close>. Commands that stop
  the processor end in \<open>Halted\<close>; \<open>None\<close> is a loop or a wait without end, or a trap.
\<close>

definition SHELL_BUFFER_SIZE :: u32 where "SHELL_BUFFER_SIZE = 256"
definition MAX_ARGS :: nat where "MAX_ARGS = 16"

section \<open>Parsing\<close>

partial_function (option) skip_blanks :: "mem \<Rightarrow> addr \<Rightarrow> addr option" where
  "skip_blanks m p = (if m p = 32 \<or> m p = 9 then skip_blanks m (p + 1) else Some p)"

partial_function (option) skip_word :: "mem \<Rightarrow> addr \<Rightarrow> addr option" where
  "skip_word m p = (if m p \<noteq> 0 \<and> m p \<noteq> 32 \<and> m p \<noteq> 9 then skip_word m (p + 1) else Some p)"

partial_function (option) parse_loop :: "mem \<Rightarrow> addr \<Rightarrow> addr list \<Rightarrow> nat \<Rightarrow> (addr list \<times> mem) option" where
  "parse_loop m p argv max_args =
     (if m p \<noteq> 0 \<and> length argv < max_args then do {
        p1 \<leftarrow> skip_blanks m p;
        if m p1 = 0 then Some (argv, m)
        else do {
          p2 \<leftarrow> skip_word m p1;
          if m p2 \<noteq> 0 then parse_loop (m(p2 := 0)) (p2 + 1) (argv @ [p1]) max_args
          else parse_loop m p2 (argv @ [p1]) max_args
        }
      }
      else Some (argv, m))"

definition parse_args :: "mem \<Rightarrow> addr \<Rightarrow> nat \<Rightarrow> (addr list \<times> mem) option" where
  "parse_args m line max_args = parse_loop m line [] max_args"

section \<open>The command table\<close>

text \<open>The function pointers of the table.\<close>

datatype cmd =
    Cmd_help | Cmd_clear | Cmd_echo | Cmd_info | Cmd_uptime | Cmd_memory | Cmd_reboot | Cmd_halt
  | Cmd_shutdown | Cmd_version | Cmd_color | Cmd_ls | Cmd_cat | Cmd_touch | Cmd_rm | Cmd_nano
  | Cmd_mkdir | Cmd_rmdir | Cmd_cd | Cmd_pwd

definition commands :: "(string \<times> string \<times> cmd) list" where
  "commands = [
     (''help'', ''Display available commands'', Cmd_help),
     (''clear'', ''Clear the screen'', Cmd_clear),
     (''echo'', ''Echo text to the screen'', Cmd_echo),
     (''info'', ''Display system information'', Cmd_info),
     (''uptime'', ''Show system uptime'', Cmd_uptime),
     (''memory'', ''Display memory statistics'', Cmd_memory),
     (''reboot'', ''Reboot the system'', Cmd_reboot),
     (''halt'', ''Halt the system'', Cmd_halt),
     (''shutdown'', ''Power off the system'', Cmd_shutdown),
     (''version'', ''Display OS version'', Cmd_version),
     (''color'', ''Change text color (0-15)'', Cmd_color),
     (''ls'', ''List files'', Cmd_ls),
     (''cat'', ''Display file contents'', Cmd_cat),
     (''touch'', ''Create empty file'', Cmd_touch),
     (''rm'', ''Remove file'', Cmd_rm),
     (''nano'', ''Edit file'', Cmd_nano),
     (''mkdir'', ''Create directory'', Cmd_mkdir),
     (''rmdir'', ''Remove directory'', Cmd_rmdir),
     (''cd'', ''Change directory'', Cmd_cd),
     (''pwd'', ''Print working directory'', Cmd_pwd)]"

section \<open>Commands on the console\<close>

primrec help_rows :: "(string \<times> string \<times> cmd) list \<Rightarrow> 'a machine_scheme \<Rightarrow> 'a machine_scheme option" where
  "help_rows [] st = Some st"
| "help_rows (row # rows) st = do {
     st1 \<leftarrow> say ''  '' (vga_set_color LIGHT_GREEN BLACK st);
     st2 \<leftarrow> say (fst row) st1;
     let st3 = vga_set_color DARK_GREY BLACK st2;
     len \<leftarrow> strlen (mem_of st3) (Lit (fst row));
     let st4 = (vga_putchar 32 ^^ nat (10 - sint len)) st3;
     st5 \<leftarrow> say '' - '' st4;
     st6 \<leftarrow> say (fst (snd row)) (vga_set_color LIGHT_GREY BLACK st5);
     help_rows rows (vga_putchar 10 st6)
   }"

definition cmd_help :: "'a machine_scheme \<Rightarrow> 'a machine_scheme option" where
  "cmd_help st = do {
     st1 \<leftarrow> say ''\<newline>Available commands:\<newline>'' (vga_set_color LIGHT_CYAN BLACK st);
     st2 \<leftarrow> say ''-------------------\<newline>'' st1;
     st3 \<leftarrow> help_rows commands (vga_set_color WHITE BLACK st2);
     Some (vga_putchar 10 (vga_set_color WHITE BLACK st3))
   }"

definition cmd_clear :: "'a machine_scheme \<Rightarrow> 'a machine_scheme" where
  "cmd_clear st = vga_clear st"

text \<open>The loop of \<^verbatim>\<open>cmd_echo\<close> over the arguments after the first.\<close>

primrec echo_args :: "bool \<Rightarrow> addr list \<Rightarrow> 'a machine_scheme \<Rightarrow> 'a machine_scheme option" where
  "echo_args first [] st = Some st"
| "echo_args first (a # as) st = do {
     st1 \<leftarrow> say_at a (if \<not> first then vga_putchar 32 st else st);
     echo_args False as st1
   }"

definition cmd_echo :: "addr list \<Rightarrow> 'a machine_scheme \<Rightarrow> 'a machine_scheme option" where
  "cmd_echo argv st = do { st1 \<leftarrow> echo_args True (tl argv) st; Some (vga_putchar 10 st1) }"

definition cmd_info :: "'a machine_scheme \<Rightarrow> 'a machine_scheme option" where
  "cmd_info st = do {
     st1 \<leftarrow> say ''\<newline>=== System Information ===\<newline>\<newline>'' (vga_set_color LIGHT_CYAN BLACK st);
     st2 \<leftarrow> say ''  OS Name:        KontolOS\<newline>'' (vga_set_color WHITE BLACK st1);
     st3 \<leftarrow> say ''  Version:        0.1.0\<newline>'' st2;
     st4 \<leftarrow> say ''  Architecture:   x86 (32-bit)\<newline>'' st3;
     st5 \<leftarrow> say ''  Author:         Built from scratch!\<newline>'' st4;
     st6 \<leftarrow> say ''\<newline>  Memory Total:   '' st5;
     st7 \<leftarrow> say '' KB\<newline>'' (vga_print_dec (memory_get_total (mm (fsys st6)) div 1024) st6);
     st8 \<leftarrow> say ''  Memory Free:    '' st7;
     st9 \<leftarrow> say '' KB\<newline>'' (vga_print_dec (memory_get_free (mm (fsys st8)) div 1024) st8);
     st10 \<leftarrow> say ''  Uptime:         '' st9;
     up \<leftarrow> timer_get_uptime st10;
     say '' seconds\<newline>\<newline>'' (vga_print_dec up st10)
   }"

definition cmd_uptime :: "'a machine_scheme \<Rightarrow> 'a machine_scheme option" where
  "cmd_uptime st = do {
     seconds \<leftarrow> timer_get_uptime st;
     let minutes = seconds div 60;
     let hours = minutes div 60;
     st1 \<leftarrow> say ''Uptime: '' st;
     st2 \<leftarrow> (if 0 < hours then say '' hours, '' (vga_print_dec hours st1) else Some st1);
     st3 \<leftarrow> (if 0 < minutes \<or> 0 < hours then say '' minutes, '' (vga_print_dec (minutes mod 60) st2) else Some st2);
     say '' seconds\<newline>'' (vga_print_dec (seconds mod 60) st3)
   }"

definition cmd_memory :: "'a machine_scheme \<Rightarrow> 'a machine_scheme option" where
  "cmd_memory st = do {
     let tot = memory_get_total (mm (fsys st));
     let used = memory_get_used (mm (fsys st));
     let free = memory_get_free (mm (fsys st));
     st1 \<leftarrow> say ''\<newline>=== Memory Statistics ===\<newline>\<newline>'' (vga_set_color LIGHT_CYAN BLACK st);
     st2 \<leftarrow> say ''  Total:  '' (vga_set_color WHITE BLACK st1);
     st3 \<leftarrow> say '' KB ('' (vga_print_dec (tot div 1024) st2);
     st4 \<leftarrow> say '' bytes)\<newline>'' (vga_print_dec tot st3);
     st5 \<leftarrow> say ''  Used:   '' st4;
     st6 \<leftarrow> say '' KB ('' (vga_print_dec (used div 1024) st5);
     st7 \<leftarrow> say '' bytes)\<newline>'' (vga_print_dec used st6);
     st8 \<leftarrow> say ''  Free:   '' st7;
     st9 \<leftarrow> say '' KB ('' (vga_print_dec (free div 1024) st8);
     st10 \<leftarrow> say '' bytes)\<newline>\<newline>'' (vga_print_dec free st9);
     percent \<leftarrow> (if tot = 0 then None else Some (used * 100 div tot));
     let bar_width = (40 :: int);
     let filled = (sint percent * bar_width) sdiv 100;
     st11 \<leftarrow> say ''  ['' st10;
     let st12 = (vga_putchar 35 ^^ nat filled) (vga_set_color LIGHT_GREEN BLACK st11);
     let st13 = (vga_putchar 45 ^^ nat (bar_width - filled)) (vga_set_color DARK_GREY BLACK st12);
     st14 \<leftarrow> say ''] '' (vga_set_color WHITE BLACK st13);
     say ''%\<newline>\<newline>'' (vga_print_dec percent st14)
   }"

definition cmd_version :: "'a machine_scheme \<Rightarrow> 'a machine_scheme option" where
  "cmd_version st = do {
     st1 \<leftarrow> say ''KontolOS '' (vga_set_color LIGHT_CYAN BLACK st);
     st2 \<leftarrow> say ''v0.1.0\<newline>'' (vga_set_color WHITE BLACK st1);
     say ''Built from scratch with love!\<newline>'' st2
   }"

text \<open>The colour number: decimal digits, accumulated in an \<^verbatim>\<open>int\<close> of 32 bits.\<close>

partial_function (option) color_digits :: "mem \<Rightarrow> addr \<Rightarrow> u32 \<Rightarrow> u32 option" where
  "color_digits m p acc =
     (if 48 \<le> m p \<and> m p \<le> 57 then color_digits m (p + 1) (acc * 10 + (ucast (m p) - 48)) else Some acc)"

definition cmd_color :: "addr list \<Rightarrow> 'a machine_scheme \<Rightarrow> 'a machine_scheme option" where
  "cmd_color argv st =
     (if length argv < 2 then do {
        st1 \<leftarrow> say ''Usage: color <0-15>\<newline>'' st;
        st2 \<leftarrow> say ''Colors: 0=Black, 1=Blue, 2=Green, 3=Cyan, 4=Red, 5=Magenta\<newline>'' st1;
        st3 \<leftarrow> say ''        6=Brown, 7=LightGrey, 8=DarkGrey, 9=LightBlue\<newline>'' st2;
        st4 \<leftarrow> say ''        10=LightGreen, 11=LightCyan, 12=LightRed\<newline>'' st3;
        say ''        13=LightMagenta, 14=Yellow, 15=White\<newline>'' st4
      }
      else do {
        number \<leftarrow> color_digits (mem_of st) (argv ! 1) 0;
        if 0 \<le> sint number \<and> sint number \<le> 15
        then say ''Text color changed!\<newline>'' (vga_set_color (colors ! unat number) BLACK st)
        else say ''Invalid color. Use 0-15.\<newline>'' st
      })"

section \<open>Commands that stop the machine\<close>

partial_function (option) reboot_wait :: "u8 \<Rightarrow> 'a ports_scheme \<Rightarrow> 'a ports_scheme option" where
  "reboot_wait good st =
     (if good AND 0x02 \<noteq> 0 then (let (g, st1) = inb 0x64 st in reboot_wait g st1) else Some st)"

text \<open>If the reset pulse has no effect, \<^verbatim>\<open>hlt\<close> waits for one interrupt and the shell goes on.\<close>

definition cmd_reboot :: "'a machine_scheme \<Rightarrow> 'a machine_scheme option" where
  "cmd_reboot st = do {
     st1 \<leftarrow> say ''Rebooting system...\<newline>'' st;
     st2 \<leftarrow> reboot_wait 0x02 st1;
     halt (outb 0x64 0xFE st2)
   }"

definition cmd_halt :: "'a machine_scheme \<Rightarrow> 'a machine_scheme outcome option" where
  "cmd_halt st = do {
     st1 \<leftarrow> say ''\<newline>System halted. You may now turn off your computer.\<newline>'' (vga_set_color LIGHT_BROWN BLACK st);
     Some (Halted (disable_interrupts st1))
   }"

text \<open>The counting loop before the power-off only takes time.\<close>

definition cmd_shutdown :: "'a machine_scheme \<Rightarrow> 'a machine_scheme outcome option" where
  "cmd_shutdown st = do {
     st1 \<leftarrow> say ''\<newline>Shutting down KontolOS...\<newline>'' (vga_set_color LIGHT_CYAN BLACK st);
     st2 \<leftarrow> say ''Goodbye!\<newline>\<newline>'' (vga_set_color LIGHT_GREY BLACK st1);
     let st3 = outw 0x4004 0x3400 (outw 0xB004 0x2000 (outw 0x604 0x2000 (disable_interrupts st2)));
     st4 \<leftarrow> say ''ACPI power off not supported. System halted.\<newline>'' (vga_set_color LIGHT_BROWN BLACK st3);
     st5 \<leftarrow> say ''You may now turn off your computer manually.\<newline>'' st4;
     Some (Halted st5)
   }"

section \<open>File commands\<close>

text \<open>The text printed for the entry \<open>f\<close> whose name is at \<open>line\<close>.\<close>

definition ls_entry :: "addr \<Rightarrow> addr \<Rightarrow> 'a machine_scheme \<Rightarrow> 'a machine_scheme option" where
  "ls_entry f line st = do {
     st1 \<leftarrow> say ''  '' (vga_set_color LIGHT_GREEN BLACK st);
     st2 \<leftarrow> say_at line st1;
     st3 \<leftarrow> (if f \<noteq> NULL then do {
         st' \<leftarrow> say ''  ('' (vga_set_color DARK_GREY BLACK st2);
         say '' bytes)'' (vga_print_dec (fs_get_size f (fsys st')) st')
       }
       else Some st2);
     say ''\<newline>'' st3
   }"

text \<open>One line of the listing at a time: cut it at its newline, print it, put the newline back.\<close>

partial_function (option) ls_loop :: "addr \<Rightarrow> 'a machine_scheme \<Rightarrow> 'a machine_scheme option" where
  "ls_loop line st =
     (if mem_of st line \<noteq> 0 then do {
        e \<leftarrow> line_end (mem_of st) line;
        let saved = mem_of st e;
        let st1 = put_mem ((mem_of st)(e := 0)) st;
        f \<leftarrow> fs_open (Ptr line) (fsys st1);
        st2 \<leftarrow> ls_entry f line st1;
        let st3 = put_mem ((mem_of st2)(e := saved)) st2;
        ls_loop (if mem_of st3 e \<noteq> 0 then e + 1 else e) st3
      }
      else Some st)"

definition cmd_ls :: "'a machine_scheme \<Rightarrow> 'a machine_scheme option" where
  "cmd_ls st = do {
     let count = fs_count (fsys st);
     st1 \<leftarrow> say ''\<newline>Files in filesystem:\<newline>'' (vga_set_color LIGHT_CYAN BLACK st);
     st2 \<leftarrow> say ''--------------------\<newline>'' st1;
     let st3 = vga_set_color WHITE BLACK st2;
     st4 \<leftarrow> (if count = 0 then do {
         st' \<leftarrow> say ''  (no files)\<newline>'' (vga_set_color DARK_GREY BLACK st3);
         Some (vga_set_color WHITE BLACK st')
       }
       else do {
         (n, st') \<leftarrow> mach_fs (fs_list (list_buffer st3) 1024) st3;
         ls_loop (list_buffer st3) st'
       });
     st5 \<leftarrow> say ''\<newline>Total: '' (vga_set_color DARK_GREY BLACK st4);
     st6 \<leftarrow> say '' file(s)\<newline>\<newline>'' (vga_print_dec (of_int count) st5);
     Some (vga_set_color WHITE BLACK st6)
   }"

text \<open>A message with the argument between two texts.\<close>

definition say_about :: "string \<Rightarrow> cptr \<Rightarrow> string \<Rightarrow> 'a machine_scheme \<Rightarrow> 'a machine_scheme option" where
  "say_about before name after st = do {
     st1 \<leftarrow> say before st;
     st2 \<leftarrow> vga_print (mem_of st1) name st1;
     say after st2
   }"

text \<open>The same in a colour, going back to white.\<close>

definition colored :: "color \<Rightarrow> ('a machine_scheme \<Rightarrow> 'a machine_scheme option) \<Rightarrow> 'a machine_scheme \<Rightarrow> 'a machine_scheme option" where
  "colored fg body st = do {
     st1 \<leftarrow> body (vga_set_color fg BLACK st);
     Some (vga_set_color WHITE BLACK st1)
   }"

abbreviation apos :: string where
  "apos \<equiv> [CHR 0x27]"

definition cmd_cat :: "addr list \<Rightarrow> 'a machine_scheme \<Rightarrow> 'a machine_scheme option" where
  "cmd_cat argv st =
     (if length argv < 2 then say ''Usage: cat <filename>\<newline>'' st
      else do {
        f \<leftarrow> fs_open (Ptr (argv ! 1)) (fsys st);
        if f = NULL then colored LIGHT_RED (say_about (''Error: File '' @ apos) (Ptr (argv ! 1)) (apos @ '' not found\<newline>'')) st
        else if fs_get_size f (fsys st) = 0 then colored DARK_GREY (say ''(empty file)\<newline>'') st
        else do {
          let sz = fs_get_size f (fsys st);
          (buffer, st1) \<leftarrow> mach_malloc (sz + 1) st;
          if buffer \<noteq> NULL then do {
            let st2 = st1\<lparr>fsys := snd (fs_read f buffer sz 0 (fsys st1))\<rparr>;
            let st3 = put_mem ((mem_of st2)(buffer + sz := 0)) st2;
            st4 \<leftarrow> say_at buffer st3;
            st5 \<leftarrow> (if mem_of st4 (buffer + (sz - 1)) \<noteq> 10 then say ''\<newline>'' st4 else Some st4);
            mach_free buffer st5
          }
          else Some st1
        }
      })"

definition cmd_touch :: "addr list \<Rightarrow> 'a machine_scheme \<Rightarrow> 'a machine_scheme option" where
  "cmd_touch argv st =
     (if length argv < 2 then say ''Usage: touch <filename>\<newline>'' st
      else do {
        (result, st1) \<leftarrow> mach_fs (fs_create (Ptr (argv ! 1))) st;
        if result = 0 then colored LIGHT_GREEN (say_about (''Created file '' @ apos) (Ptr (argv ! 1)) (apos @ ''\<newline>'')) st1
        else if result = -2 then say_about (''File '' @ apos) (Ptr (argv ! 1)) (apos @ '' already exists\<newline>'') st1
        else colored LIGHT_RED (say ''Error: Could not create file\<newline>'') st1
      })"

definition cmd_rm :: "addr list \<Rightarrow> 'a machine_scheme \<Rightarrow> 'a machine_scheme option" where
  "cmd_rm argv st =
     (if length argv < 2 then say ''Usage: rm <filename>\<newline>'' st
      else do {
        (result, st1) \<leftarrow> mach_fs (fs_delete (Ptr (argv ! 1))) st;
        if result = 0 then colored LIGHT_GREEN (say_about (''Deleted file '' @ apos) (Ptr (argv ! 1)) (apos @ ''\<newline>'')) st1
        else colored LIGHT_RED (say_about (''Error: File '' @ apos) (Ptr (argv ! 1)) (apos @ '' not found\<newline>'')) st1
      })"

definition cmd_mkdir :: "addr list \<Rightarrow> 'a machine_scheme \<Rightarrow> 'a machine_scheme option" where
  "cmd_mkdir argv st =
     (if length argv < 2 then say ''Usage: mkdir <dirname>\<newline>'' st
      else do {
        (result, st1) \<leftarrow> mach_fs (fs_mkdir (Ptr (argv ! 1))) st;
        if result = 0 then colored LIGHT_GREEN (say_about (''Created directory '' @ apos) (Ptr (argv ! 1)) (apos @ ''\<newline>'')) st1
        else if result = -2 then say_about (''Directory '' @ apos) (Ptr (argv ! 1)) (apos @ '' already exists\<newline>'') st1
        else colored LIGHT_RED (say ''Error: Could not create directory\<newline>'') st1
      })"

definition cmd_rmdir :: "addr list \<Rightarrow> 'a machine_scheme \<Rightarrow> 'a machine_scheme option" where
  "cmd_rmdir argv st =
     (if length argv < 2 then say ''Usage: rmdir <dirname>\<newline>'' st
      else do {
        (result, st1) \<leftarrow> mach_fs (fs_rmdir (Ptr (argv ! 1))) st;
        if result = 0 then colored LIGHT_GREEN (say_about (''Removed directory '' @ apos) (Ptr (argv ! 1)) (apos @ ''\<newline>'')) st1
        else if result = -2 then colored LIGHT_RED (say_about (''Error: '' @ apos) (Ptr (argv ! 1)) (apos @ '' is not a directory\<newline>'')) st1
        else colored LIGHT_RED (say_about (''Error: Directory '' @ apos) (Ptr (argv ! 1)) (apos @ '' not found\<newline>'')) st1
      })"

definition cmd_cd :: "addr list \<Rightarrow> 'a machine_scheme \<Rightarrow> 'a machine_scheme option" where
  "cmd_cd argv st =
     (let target = (if length argv < 2 then Lit ''/'' else Ptr (argv ! 1)) in do {
        (result, st1) \<leftarrow> mach_fs (fs_chdir target) st;
        if result = 0 then Some st1
        else if result = -2 then colored LIGHT_RED (say_about (''Error: '' @ apos) target (apos @ '' is not a directory\<newline>'')) st1
        else colored LIGHT_RED (say_about (''Error: Directory '' @ apos) target (apos @ '' not found\<newline>'')) st1
      })"

definition cmd_pwd :: "'a machine_scheme \<Rightarrow> 'a machine_scheme option" where
  "cmd_pwd st = do {
     st1 \<leftarrow> vga_print (mem_of st) (fs_getcwd (fsys st)) st;
     say ''\<newline>'' st1
   }"

section \<open>The main loop\<close>

text \<open>Calling a function pointer of the table.\<close>

fun run_cmd :: "cmd \<Rightarrow> addr list \<Rightarrow> 'a machine_scheme \<Rightarrow> 'a machine_scheme outcome option" where
  "run_cmd Cmd_help argv st = map_option Running (cmd_help st)"
| "run_cmd Cmd_clear argv st = Some (Running (cmd_clear st))"
| "run_cmd Cmd_echo argv st = map_option Running (cmd_echo argv st)"
| "run_cmd Cmd_info argv st = map_option Running (cmd_info st)"
| "run_cmd Cmd_uptime argv st = map_option Running (cmd_uptime st)"
| "run_cmd Cmd_memory argv st = map_option Running (cmd_memory st)"
| "run_cmd Cmd_reboot argv st = map_option Running (cmd_reboot st)"
| "run_cmd Cmd_halt argv st = cmd_halt st"
| "run_cmd Cmd_shutdown argv st = cmd_shutdown st"
| "run_cmd Cmd_version argv st = map_option Running (cmd_version st)"
| "run_cmd Cmd_color argv st = map_option Running (cmd_color argv st)"
| "run_cmd Cmd_ls argv st = map_option Running (cmd_ls st)"
| "run_cmd Cmd_cat argv st = map_option Running (cmd_cat argv st)"
| "run_cmd Cmd_touch argv st = map_option Running (cmd_touch argv st)"
| "run_cmd Cmd_rm argv st = map_option Running (cmd_rm argv st)"
| "run_cmd Cmd_nano argv st = map_option Running (cmd_nano argv st)"
| "run_cmd Cmd_mkdir argv st = map_option Running (cmd_mkdir argv st)"
| "run_cmd Cmd_rmdir argv st = map_option Running (cmd_rmdir argv st)"
| "run_cmd Cmd_cd argv st = map_option Running (cmd_cd argv st)"
| "run_cmd Cmd_pwd argv st = map_option Running (cmd_pwd st)"

primrec find_command :: "mem \<Rightarrow> addr \<Rightarrow> (string \<times> string \<times> cmd) list \<Rightarrow> cmd option option" where
  "find_command m a [] = Some None"
| "find_command m a (row # rows) = do {
     r \<leftarrow> strcmp m (Ptr a) (Lit (fst row));
     if r = 0 then Some (Some (snd (snd row))) else find_command m a rows
   }"

definition execute_command :: "addr \<Rightarrow> 'a machine_scheme \<Rightarrow> 'a machine_scheme outcome option" where
  "execute_command line st = do {
     (argv, m) \<leftarrow> parse_args (mem_of st) line MAX_ARGS;
     let st1 = put_mem m st;
     if argv = [] then Some (Running st1)
     else do {
       handler \<leftarrow> find_command (mem_of st1) (argv ! 0) commands;
       (case handler of
          Some c \<Rightarrow> run_cmd c argv st1
        | None \<Rightarrow> map_option Running
            (colored LIGHT_RED (say_about ''Unknown command: '' (Ptr (argv ! 0)) ''\<newline>Type 'help' for available commands.\<newline>'') st1))
     }
   }"

text \<open>One round of the endless loop of \<^verbatim>\<open>shell_run\<close>, and \<open>n\<close> rounds.\<close>

definition shell_round :: "'a machine_scheme \<Rightarrow> 'a machine_scheme outcome option" where
  "shell_round st = do {
     st1 \<leftarrow> say ''kontol> '' (vga_set_color LIGHT_GREEN BLACK st);
     (n, st2) \<leftarrow> keyboard_readline (command_buffer st1) SHELL_BUFFER_SIZE (vga_set_color WHITE BLACK st1);
     execute_command (command_buffer st2) st2
   }"

primrec shell_run :: "nat \<Rightarrow> 'a machine_scheme \<Rightarrow> 'a machine_scheme outcome option" where
  "shell_run 0 st = Some (Running st)"
| "shell_run (Suc n) st = do {
     r \<leftarrow> shell_round st;
     (case r of Running st1 \<Rightarrow> shell_run n st1 | Halted st1 \<Rightarrow> Some (Halted st1))
   }"

end
