(* ===== verification/Kernel.thy ===== *)
theory Kernel
  imports Shell
begin

text \<open>
  The start of the system: \<^verbatim>\<open>src/src/kernel/kernel.c\<close>. The endless shell is run for a number of
  rounds; the code behind it is never reached.
\<close>

section \<open>Splash screen\<close>

text \<open>The local array \<^verbatim>\<open>percent_str\<close>.\<close>

definition percent_str :: "nat \<Rightarrow> string" where
  "percent_str percent =
     (if percent = 100 then ''100%''
      else if 10 \<le> percent then [char_of (48 + percent div 10), char_of (48 + percent mod 10), CHR ''%'']
      else [char_of (48 + percent), CHR ''%''])"

definition centered :: "u32 \<Rightarrow> string \<Rightarrow> 'a machine_scheme \<Rightarrow> 'a machine_scheme option" where
  "centered row s st = vga_print_centered (mem_of st) row (Lit s) st"

definition bar_row :: u32 where "bar_row = 20"
definition bar_width :: nat where "bar_width = 40"
definition bar_start :: u32 where "bar_start = (80 - of_nat bar_width - 2) div 2"
definition step_time_ms :: u32 where "step_time_ms = 3000 div of_nat bar_width"

primrec splash_bar :: "nat \<Rightarrow> nat \<Rightarrow> 'a machine_scheme \<Rightarrow> 'a machine_scheme option" where
  "splash_bar i 0 st = Some st"
| "splash_bar i (Suc n) st = do {
     let st1 = vga_put_at bar_row (bar_start + 1 + of_nat i) 35 st;
     let percent = (i + 1) * 100 div bar_width;
     st2 \<leftarrow> centered 22 (replicate 12 CHR '' '') (vga_set_color WHITE BLACK st1);
     st3 \<leftarrow> centered 22 (percent_str percent) st2;
     st4 \<leftarrow> timer_sleep_ms step_time_ms (vga_set_color LIGHT_GREEN BLACK st3);
     splash_bar (Suc i) n st4
   }"

definition show_splash_screen :: "'a machine_scheme \<Rightarrow> 'a machine_scheme option" where
  \<open>show_splash_screen st = do {
     let st1 = vga_clear (vga_set_color WHITE BLACK (vga_hide_cursor st));
     st2 \<leftarrow> centered 6 (''  _  __            _        _  ___  ____  '') (vga_set_color LIGHT_CYAN BLACK st1);
     st3 \<leftarrow> centered 7 ('' | |/ /___  _ __ | |_ ___ | |/ _ '' @ [CHR 0x5C] @ ''/ ___| '') st2;
     st4 \<leftarrow> centered 8 ('' | ' // _ '' @ [CHR 0x5C] @ ''| '_ '' @ [CHR 0x5C] @ ''| __/ _ '' @ [CHR 0x5C] @ ''| | | | '' @ [CHR 0x5C] @ ''___ '' @ [CHR 0x5C] @ '' '') st3;
     st5 \<leftarrow> centered 9 ('' | . '' @ [CHR 0x5C] @ '' (_) | | | | || (_) | | |_| |___) |'') st4;
     st6 \<leftarrow> centered 10 ('' |_|'' @ [CHR 0x5C] @ ''_'' @ [CHR 0x5C] @ ''___/|_| |_|'' @ [CHR 0x5C] @ ''__'' @ [CHR 0x5C] @ ''___/|_|'' @ [CHR 0x5C] @ ''___/|____/ '') st5;
     st7 \<leftarrow> centered 12 ''Version 0.1.0'' (vga_set_color LIGHT_GREY BLACK st6);
     st8 \<leftarrow> centered 14 ''An operating system based on sistem reproduksi'' (vga_set_color DARK_GREY BLACK st7);
     let st9 = vga_put_at bar_row bar_start 91 (vga_set_color DARK_GREY BLACK st8);
     let st10 = vga_put_at bar_row (bar_start + of_nat bar_width + 1) 93 st9;
     st11 \<leftarrow> centered 22 ''Loading...'' (vga_set_color WHITE BLACK st10);
     st12 \<leftarrow> splash_bar 0 bar_width (vga_set_color LIGHT_GREEN BLACK st11);
     st13 \<leftarrow> timer_sleep_ms 200 st12;
     Some (vga_show_cursor (vga_clear st13))
   }\<close>

section \<open>Initialisation\<close>

text \<open>The lines that print OK in green and go back to grey, after each step.\<close>

definition say_ok :: "'a machine_scheme \<Rightarrow> 'a machine_scheme option" where
  "say_ok st = do {
     st1 \<leftarrow> say ''OK\<newline>'' (vga_set_color LIGHT_GREEN BLACK st);
     Some (vga_set_color LIGHT_GREY BLACK st1)
   }"

definition init_system :: "'a machine_scheme \<Rightarrow> 'a machine_scheme option" where
  "init_system st = do {
     st1 \<leftarrow> say ''[*] Initializing memory manager... '' (vga_set_color LIGHT_GREY BLACK st);
     st2 \<leftarrow> say_ok (st1\<lparr>fsys := (fsys st1)\<lparr>mm := memory_init (mm (fsys st1))\<rparr>\<rparr>);
     st3 \<leftarrow> say ''[*] Setting up IDT... '' st2;
     st4 \<leftarrow> say_ok (idt_init st3);
     st5 \<leftarrow> say ''[*] Initializing timer... '' st4;
     st6 \<leftarrow> timer_init 100 st5;
     st7 \<leftarrow> say_ok st6;
     st8 \<leftarrow> say ''[*] Initializing keyboard... '' st7;
     st9 \<leftarrow> say_ok (keyboard_init st8);
     st10 \<leftarrow> say ''[*] Initializing filesystem... '' st9;
     say_ok (st10\<lparr>fsys := fs_init (fsys st10)\<rparr>)
   }"

definition kernel_start :: "'a machine_scheme \<Rightarrow> 'a machine_scheme option" where
  "kernel_start st = do {
     let st1 = idt_init (vga_clear (vga_init st));
     st2 \<leftarrow> timer_init 100 st1;
     st3 \<leftarrow> show_splash_screen st2;
     st4 \<leftarrow> init_system st3;
     st5 \<leftarrow> say ''\<newline>[+] System initialization complete!\<newline>'' (vga_set_color LIGHT_GREEN BLACK st4);
     say ''[*] Starting shell...\<newline>\<newline>'' (vga_set_color WHITE BLACK st5)
   }"

definition kernel_main :: "nat \<Rightarrow> 'a machine_scheme \<Rightarrow> 'a machine_scheme outcome option" where
  "kernel_main rounds st = do { st1 \<leftarrow> kernel_start st; shell_run rounds st1 }"

end
