(* ===== verification/Ramfs_Frame.thy ===== *)
theory Ramfs_Frame
  imports Ramfs_Props
begin

text \<open>
  What the calls by name leave alone: everything but the table, the directory name and the heap; and
  the listing, which writes into its buffer only.
\<close>

section \<open>Frames of the calls by name\<close>

definition cwd_set :: "ramfs \<Rightarrow> addr set" where
  "cwd_set st = range_of (unat (current_dir st)) 32"

definition fs_frame :: "ramfs \<Rightarrow> ramfs \<Rightarrow> bool" where
  "fs_frame st st' \<longleftrightarrow> file_table st' = file_table st \<and> current_dir st' = current_dir st
     \<and> agree_on (- (table_set st \<union> cwd_set st \<union> arena)) (fs_ram st) (fs_ram st')"

lemma fs_frame_refl [simp]: "fs_frame st st"
  by (simp add: fs_frame_def agree_on_refl)

lemma fs_frame_trans: "fs_frame st st1 \<Longrightarrow> fs_frame st1 st2 \<Longrightarrow> fs_frame st st2"
  by (auto simp: fs_frame_def table_set_def cwd_set_def intro: agree_on_trans)

lemma fs_frame_set_ram:
  "agree_on (- (table_set st \<union> cwd_set st \<union> arena)) (ram h) m \<Longrightarrow>
    agree_on (- arena) (fs_ram st) (ram h) \<Longrightarrow> fs_frame st (set_ram m (st\<lparr>mm := h\<rparr>))"
  unfolding fs_frame_def set_ram_def
  by (auto intro: agree_on_trans [of _ "fs_ram st" "ram h" m] agree_on_mono)

lemma clear_entry_frame:
  assumes "layout st" "i < FS_MAX_FILES"
  shows "agree_on (- (table_set st \<union> cwd_set st \<union> arena)) m (clear_entry m (slot (file_table st) i))"
  by (rule agree_on_mono [OF clear_entry_props(3) [OF slot_props(2) [OF assms]]])
    (use slot_props(3) [OF assms] in auto)

lemma fs_delete_frame:
  assumes rep: "fs_rep st A" and n: "name_arg st name n" and run: "fs_delete name st = Some (r, st')"
  shows "fs_frame st st'"
proof (cases "find_slot n (slots A)")
  case None
  with run fs_find_eq [OF rep name_argD(2) [OF n]] show ?thesis by (simp add: fs_delete_def)
next
  case (Some i)
  note D = fs_repD [OF rep] and i = find_slot_lt [OF rep Some]
  let ?f = "slot (file_table st) i"
  let ?p = "f_data (fs_ram st) ?f"
  note found = fs_find_eq [OF rep name_argD(2) [OF n]]
  show ?thesis
  proof (cases "?p = NULL")
    case True
    then have st': "st' = set_ram (clear_entry (fs_ram st) ?f) st"
      using run Some found by (simp add: fs_delete_def Let_def)
    from fs_frame_set_ram [OF clear_entry_frame [OF D(1) i] agree_on_refl]
    have "fs_frame st (set_ram (clear_entry (fs_ram st) ?f) st)" by simp
    then show ?thesis by (simp only: st')
  next
    case False
    from file_block [OF rep i False] obtain k where "owns (mm st) ?p k" by blast
    from heap.free_law [OF D(2) this] obtain h where h: "kfree ?p (mm st) = Some h"
      "agree_on (- arena) (fs_ram st) (ram h)" by blast
    then have st': "st' = set_ram (clear_entry (ram h) ?f) (st\<lparr>mm := h\<rparr>)"
      using run Some found False by (simp add: fs_delete_def Let_def)
    show ?thesis unfolding st' by (rule fs_frame_set_ram [OF clear_entry_frame [OF D(1) i] h(2)])
  qed
qed

lemma fs_rmdir_frame:
  assumes rep: "fs_rep st A" and n: "name_arg st name n" and run: "fs_rmdir name st = Some (r, st')"
  shows "fs_frame st st'"
proof (cases "find_slot n (slots A)")
  case None
  with run fs_find_eq [OF rep name_argD(2) [OF n]] show ?thesis by (simp add: fs_rmdir_def)
next
  case (Some i)
  note D = fs_repD [OF rep] and i = find_slot_lt [OF rep Some]
  from fs_frame_set_ram [OF clear_entry_frame [OF D(1) i] agree_on_refl]
  have "fs_frame st (set_ram (clear_entry (fs_ram st) (slot (file_table st) i)) st)" by simp
  with run Some fs_find_eq [OF rep name_argD(2) [OF n]] show ?thesis
    by (auto simp: fs_rmdir_def Let_def split: if_splits)
qed

lemma fs_add_frame:
  assumes rep: "fs_rep st A" and n: "name_arg st name n" and run: "fs_add (flags_of dir) name st = Some (r, st')"
  shows "fs_frame st st'"
proof -
  from fs_add_refines [OF rep n, of dir] run have "agree_on (- table_set st) (fs_ram st) (fs_ram st')" by auto
  then have "agree_on (- (table_set st \<union> cwd_set st \<union> arena)) (fs_ram st) (fs_ram st')" by (rule agree_on_mono) blast
  moreover have "file_table st' = file_table st \<and> current_dir st' = current_dir st"
    using run by (auto simp: fs_add_def set_ram_def Let_def split: if_splits bind_splits)
  ultimately show ?thesis by (simp add: fs_frame_def)
qed

lemma fs_chdir_frame:
  assumes rep: "fs_rep st A" and n: "name_arg st name n" and run: "fs_chdir name st = Some (r, st')"
  shows "fs_frame st st'"
proof -
  note D = fs_repD [OF rep] and N = name_argD [OF n]
  let ?c = "current_dir st"
  have cb: "unat ?c + 32 \<le> 2 ^ 32" using D(1) by (simp add: layout_def)
  have lit: "cstr (fs_ram st) (Lit ''/'') (bytes ''/'')" by (auto intro!: cstr_Lit)
  have root: "strcpy (fs_ram st) ?c (Lit ''/'') = Some (put_bytes (fs_ram st) ?c (bytes ''/'' @ [0]))"
    using cb by (intro strcpy_eq lit) simp_all
  have w1: "agree_on (- cwd_set st) (fs_ram st) (put_bytes (fs_ram st) ?c (bytes ''/'' @ [0]))"
    using cb by (intro agree_on_put_bytes) (auto simp: cwd_set_def)
  have w2: "agree_on (- cwd_set st) (fs_ram st) ((strncpy (fs_ram st) ?c name 31)(?c + 31 := 0))"
    if "find_slot n (slots A) = Some i" for i
  proof -
    from find_slot_Some [OF that] D(4) [OF find_slot_lt [OF rep that]] have "length n < 32"
      by (auto simp: entry_rep_def FS_MAX_FILENAME_def)
    from chdir_store(2) [OF cb N(2) this N(4,6)] show ?thesis by (simp add: cwd_set_def)
  qed
  have frame: "fs_frame st (set_ram m st)" if "agree_on (- cwd_set st) (fs_ram st) m" for m
  proof -
    from that have "agree_on (- (table_set st \<union> cwd_set st \<union> arena)) (fs_ram st) m"
      by (rule agree_on_mono) blast
    then show ?thesis by (simp add: fs_frame_def set_ram_def)
  qed
  show ?thesis
    using run frame [OF w1] frame [OF w2] root fs_find_eq [OF rep N(2)] N(1)
    by (auto simp: fs_chdir_def FS_MAX_FILENAME_def Let_def split: if_splits bind_splits option.splits)
qed

end
