(* ===== verification/Ramfs_List.thy ===== *)
theory Ramfs_List
  imports Ramfs_Frame
begin

text \<open>
  The listing: \<^verbatim>\<open>fs_list\<close> writes the names of the table into its buffer, one per line, as far as they
  fit, never beyond the buffer.
\<close>

section \<open>The abstract listing\<close>

text \<open>The names that fit into a buffer of \<open>n\<close> bytes from position \<open>pos\<close> on, each with its newline and
  the final NUL; a name that does not fit is left out, and shorter ones after it may still be listed.\<close>

fun fitting :: "nat \<Rightarrow> nat \<Rightarrow> fentry option list \<Rightarrow> u8 list list" where
  "fitting n pos [] = []"
| "fitting n pos (None # es) = fitting n pos es"
| "fitting n pos (Some e # es) =
     (if pos + length (ename e) + 2 < n then ename e # fitting n (pos + length (ename e) + 1) es
      else fitting n pos es)"

definition as_lines :: "u8 list list \<Rightarrow> u8 list" where
  "as_lines ns = concat (map (\<lambda>n. n @ [10]) ns)"

lemma as_lines_simps [simp]: "as_lines [] = []" "as_lines (n # ns) = n @ 10 # as_lines ns"
  by (simp_all add: as_lines_def)

lemma fitting_length: "pos < n \<Longrightarrow> pos + length (as_lines (fitting n pos es)) < n"
  by (induction n pos es rule: fitting.induct) auto

lemma fitting_nonzero: "\<forall>e. Some e \<in> set es \<longrightarrow> 0 \<notin> set (ename e) \<Longrightarrow> 0 \<notin> set (as_lines (fitting n pos es))"
  by (induction n pos es rule: fitting.induct) auto

section \<open>The loop\<close>

text \<open>One name with its newline and the NUL behind it.\<close>

lemma list_line:
  "(put_bytes m d (n @ [0]))(d + of_nat (length n) := 10, d + of_nat (length n) + 1 := 0)
    = put_bytes m d (n @ [10, 0])"
  by (simp add: put_bytes_append)

lemma list_name:
  assumes n: "cstr m (Ptr f) n" "unat f + Suc (length n) \<le> 2 ^ 32" and k: "pos + length n + 2 \<le> k" "unat buf + k \<le> 2 ^ 32"
    and dis: "range_of (unat f) (Suc (length n)) \<inter> range_of (unat buf) k = {}"
  defines "d \<equiv> buf + of_nat pos"
  defines "m2 \<equiv> put_bytes m d (n @ [10, 0])"
  shows "strcpy m d (Ptr f) = Some (put_bytes m d (n @ [0]))" "unat d = unat buf + pos"
    "agree_on (- range_of (unat buf + pos) (length n + 2)) m m2" "m2 (buf + of_nat (pos + length n + 1)) = 0"
    "bytes_at m2 d (length (n @ [10])) = n @ [10]"
proof -
  show ud: "unat d = unat buf + pos" unfolding d_def using k by (intro unat_offset) simp
  have "range_of (unat d) (Suc (length n)) \<subseteq> range_of (unat buf) k" using ud k(1) by auto
  with dis have "cspan (Ptr f) (Suc (length n)) \<inter> range_of (unat d) (Suc (length n)) = {}" by auto
  then show "strcpy m d (Ptr f) = Some (put_bytes m d (n @ [0]))" using n ud k by (intro strcpy_eq) simp_all
  have fb: "unat d + length (n @ [10, 0]) \<le> 2 ^ 32" using ud k by simp
  show "agree_on (- range_of (unat buf + pos) (length n + 2)) m m2"
    unfolding m2_def using fb ud by (intro agree_on_put_bytes) auto
  show "m2 (buf + of_nat (pos + length n + 1)) = 0"
    using fb ud unat_offset [of buf "pos + length n + 1"] by (simp add: m2_def d_def put_bytes_apply nth_append algebra_simps)
  show "bytes_at m2 d (length (n @ [10])) = n @ [10]"
    using arg_cong [OF bytes_at_put_bytes [OF fb, of m], of "take (length (n @ [10]))"]
      take_bytes_at [of "length (n @ [10])" "length (n @ [10, 0])" m2 d] by (simp add: m2_def)
qed

text \<open>The listing so far, and the rest behind it.\<close>

lemma list_behind:
  assumes "bytes_at m2 d (length (n @ [10])) = n @ [10]" "0 \<notin> set n" "unat d = unat buf + pos" "unat d + length n + 2 \<le> 2 ^ 32"
    and "agree_on (- range_of (unat buf + (pos + length n + 1)) k) m2 m'" "cstr m' (Ptr (buf + of_nat (pos + length n + 1))) t"
    and "d = buf + of_nat pos"
  shows "cstr m' (Ptr d) ((n @ [10]) @ t)"
proof -
  have "agree_on (range_of (unat d) (length (n @ [10]))) m2 m'"
    by (rule agree_on_mono [OF assms(5)]) (use assms(3) in auto)
  then have "bytes_at m' d (length (n @ [10])) = n @ [10]"
    using bytes_at_cong [of d "length (n @ [10])" m2 m'] assms(1,4) by simp
  moreover have "cstr m' (Ptr (d + of_nat (length (n @ [10])))) t" using assms(6,7) by (simp add: algebra_simps)
  ultimately show ?thesis using cstr_append [of m' d "n @ [10]"] assms(2) by simp
qed

lemma fs_list_loop_spec:
  assumes "\<And>k. k < length es \<Longrightarrow> entry_rep h (slot tab (i + k)) (es ! k)"
    and tab: "\<And>k. k < length es \<Longrightarrow> unat (slot tab (i + k)) + 44 \<le> 2 ^ 32 \<and> eset (slot tab (i + k)) \<subseteq> T"
    and "agree_on T (ram h) m" "range_of (unat buf) (unat sz) \<inter> T = {}" "unat buf + unat sz \<le> 2 ^ 32"
    and "unat sz < 2 ^ 31" "pos < unat sz" "m (buf + of_nat pos) = 0"
  shows "\<exists>m'. fs_list_loop tab buf sz i (length es) m (of_nat pos) count
      = Some (count + int (length (fitting (unat sz) pos es)), m')
    \<and> cstr m' (Ptr (buf + of_nat pos)) (as_lines (fitting (unat sz) pos es))
    \<and> agree_on (- range_of (unat buf + pos) (unat sz - pos)) m m'"
  using assms
proof (induction es arbitrary: i m pos count)
  case Nil
  then show ?case by (simp add: agree_on_refl)
next
  case (Cons e es)
  let ?f = "slot tab i"
  have e: "entry_rep h ?f e" and f: "unat ?f + 44 \<le> 2 ^ 32" "eset ?f \<subseteq> T"
    using Cons.prems(1) [of 0] Cons.prems(2) [of 0] by simp_all
  have ag: "agree_on (eset ?f) (ram h) m" by (rule agree_on_mono [OF Cons.prems(3) f(2)])
  note c = fields_cong [OF f(1) ag]
  have used: "f_used m ?f \<longleftrightarrow> e \<noteq> None" using entry_used [OF e] c(3) by (simp add: f_used_def)
  have ents: "\<And>k. k < length es \<Longrightarrow> entry_rep h (slot tab (Suc i + k)) (es ! k)"
    "\<And>k. k < length es \<Longrightarrow> unat (slot tab (Suc i + k)) + 44 \<le> 2 ^ 32 \<and> eset (slot tab (Suc i + k)) \<subseteq> T"
    using Cons.prems(1) [of "Suc _"] Cons.prems(2) [of "Suc _"] by simp_all
  show ?case
  proof (cases "\<exists>x. e = Some x \<and> pos + length (ename x) + 2 < unat sz")
    case False
    from Cons.IH [OF ents Cons.prems(3-8), of count] obtain m' where IH:
      "fs_list_loop tab buf sz (Suc i) (length es) m (of_nat pos) count
        = Some (count + int (length (fitting (unat sz) pos es)), m')"
      "cstr m' (Ptr (buf + of_nat pos)) (as_lines (fitting (unat sz) pos es))"
      "agree_on (- range_of (unat buf + pos) (unat sz - pos)) m m'" by blast
    show ?thesis
    proof (cases e)
      case None
      with IH used show ?thesis by simp
    next
      case (Some x)
      with e c have n: "cstr m (Ptr ?f) (ename x)" "length (ename x) < 32"
        by (auto simp: entry_rep_def FS_MAX_FILENAME_def)
      have "unat (of_nat pos + of_nat (length (ename x)) + 2 :: u32) = pos + length (ename x) + 2"
        using Cons.prems(6,7) n(2) by (simp add: unat_plus_no_wrap)
      then have "\<not> of_nat pos + of_nat (length (ename x)) + 2 < sz" using False Some by (simp add: word_less_nat_alt)
      with IH used Some False strlen_eq [OF n(1)] n(2) show ?thesis by simp
    qed
  next
    case True
    then obtain x where x: "e = Some x" "pos + length (ename x) + 2 < unat sz" by blast
    let ?n = "ename x" and ?d = "buf + of_nat pos"
    from e c x(1) have n: "cstr m (Ptr ?f) ?n" "length ?n < 32"
      by (auto simp: entry_rep_def FS_MAX_FILENAME_def)
    have "unat (of_nat pos + of_nat (length ?n) + 2 :: u32) = pos + length ?n + 2"
      using Cons.prems(6,7) n(2) by (simp add: unat_plus_no_wrap)
    then have fits: "of_nat pos + of_nat (length ?n) + 2 < sz" using x(2) by (simp add: word_less_nat_alt)
    have fn: "unat ?f + Suc (length ?n) \<le> 2 ^ 32" "pos + length ?n + 2 \<le> unat sz" using f(1) n(2) x(2) by simp_all
    have "range_of (unat ?f) (Suc (length ?n)) \<subseteq> T" using f(2) n(2) by (auto simp: eset_def)
    with Cons.prems(4) have "range_of (unat ?f) (Suc (length ?n)) \<inter> range_of (unat buf) (unat sz) = {}" by blast
    note L = list_name [OF n(1) fn Cons.prems(5) this]
    define m2 where "m2 = put_bytes m ?d (?n @ [10, 0])"
    note cp = L(1) and ud = L(2) and w2 = L(3) [folded m2_def] and z = L(4) [folded m2_def] and nl = L(5) [folded m2_def]
    have m2: "(put_bytes m ?d (?n @ [0]))(?d + of_nat (length ?n) := 10, ?d + of_nat (length ?n) + 1 := 0) = m2"
      unfolding m2_def by (rule list_line)
    have agT: "agree_on T (ram h) m2"
    proof -
      have "range_of (unat buf + pos) (length ?n + 2) \<subseteq> range_of (unat buf) (unat sz)"
        using x(2) by (intro range_of_subset) simp_all
      with Cons.prems(4) have "T \<subseteq> - range_of (unat buf + pos) (length ?n + 2)" by blast
      with agree_on_trans [OF Cons.prems(3) agree_on_mono [OF w2]] show ?thesis by blast
    qed
    have lt: "pos + length ?n + 1 < unat sz" using x(2) by simp
    from Cons.IH [OF ents agT Cons.prems(4-6) lt z, of "count + 1"] obtain m' where IH:
      "fs_list_loop tab buf sz (Suc i) (length es) m2 (of_nat (pos + length ?n + 1)) (count + 1)
        = Some (count + 1 + int (length (fitting (unat sz) (pos + length ?n + 1) es)), m')"
      "cstr m' (Ptr (buf + of_nat (pos + length ?n + 1))) (as_lines (fitting (unat sz) (pos + length ?n + 1) es))"
      "agree_on (- range_of (unat buf + (pos + length ?n + 1)) (unat sz - (pos + length ?n + 1))) m2 m'" by blast
    have run: "fs_list_loop tab buf sz i (length (e # es)) m (of_nat pos) count
        = fs_list_loop tab buf sz (Suc i) (length es) m2 (of_nat (pos + length ?n + 1)) (count + 1)"
      using used x(1) strlen_eq [OF n(1)] n(2) fits cp m2 by (simp add: Let_def algebra_simps)
    have "unat ?d + length ?n + 2 \<le> 2 ^ 32" using ud x(2) Cons.prems(5) by simp
    note list_behind [OF nl cstr_nonzero [OF n(1)] ud this IH(3,2) refl]
    moreover have "agree_on (- range_of (unat buf + pos) (unat sz - pos)) m m'"
      by (rule agree_on_trans [OF agree_on_mono [OF w2] agree_on_mono [OF IH(3)]]) (use x(2) in auto)
    ultimately show ?thesis using run IH(1) x by simp
  qed
qed

lemma fs_list_spec:
  assumes rep: "fs_rep st A" and buf: "buf \<noteq> NULL" "0 < unat sz" "unat sz < 2 ^ 31" "unat buf + unat sz \<le> 2 ^ 32"
    and dis: "range_of (unat buf) (unat sz) \<inter> table_set st = {}"
  shows "\<exists>m. fs_list buf sz st = Some (int (length (fitting (unat sz) 0 (slots A))), set_ram m st)
    \<and> cstr m (Ptr buf) (as_lines (fitting (unat sz) 0 (slots A)))
    \<and> length (as_lines (fitting (unat sz) 0 (slots A))) < unat sz
    \<and> agree_on (- range_of (unat buf) (unat sz)) (fs_ram st) m"
proof -
  note D = fs_repD [OF rep]
  let ?m = "(fs_ram st)(buf := 0)"
  have w: "agree_on (- range_of (unat buf) (unat sz)) (fs_ram st) ?m"
    by (rule agree_on_upd) (use buf in auto)
  have ents: "entry_rep (mm st) (slot (file_table st) (0 + k)) (slots A ! k)"
    "unat (slot (file_table st) (0 + k)) + 44 \<le> 2 ^ 32 \<and> eset (slot (file_table st) (0 + k)) \<subseteq> table_set st"
    if "k < length (slots A)" for k
    using that D(3) D(4) slot_props(2,3) [OF D(1)] by simp_all
  have T: "agree_on (table_set st) (fs_ram st) ?m" by (rule agree_on_mono [OF w]) (use dis in blast)
  have z: "?m (buf + of_nat 0) = 0" by simp
  from fs_list_loop_spec [OF ents T dis buf(4,3,2) z, of 0] obtain m' where
    "fs_list_loop (file_table st) buf sz 0 (length (slots A)) ?m (of_nat 0) 0
      = Some (0 + int (length (fitting (unat sz) 0 (slots A))), m')"
    "cstr m' (Ptr (buf + of_nat 0)) (as_lines (fitting (unat sz) 0 (slots A)))"
    "agree_on (- range_of (unat buf + 0) (unat sz - 0)) ?m m'" by blast
  moreover have "sz \<noteq> 0" using buf(2) by auto
  ultimately show ?thesis
    using D(3) buf(1) fitting_length [OF buf(2), of "slots A"] agree_on_trans [OF w]
    by (auto simp: fs_list_def)
qed

text \<open>
  C16: \<^verbatim>\<open>fs_list\<close> on a sound state, with a buffer outside the table, returns the number of names it
  listed and leaves in the buffer a terminated text: the names of the entries in table order, one
  per line, each only if it fits with its newline and the NUL. Not a byte outside the buffer changes.
\<close>
theorem fs_list_bounded:
  assumes "fs_rep st A" "buf \<noteq> NULL" "0 < unat sz" "unat sz < 2 ^ 31" "unat buf + unat sz \<le> 2 ^ 32"
    and "range_of (unat buf) (unat sz) \<inter> table_set st = {}"
  shows "\<exists>m. fs_list buf sz st = Some (int (length (fitting (unat sz) 0 (slots A))), set_ram m st)
    \<and> cstr m (Ptr buf) (as_lines (fitting (unat sz) 0 (slots A)))
    \<and> length (as_lines (fitting (unat sz) 0 (slots A))) < unat sz
    \<and> agree_on (- range_of (unat buf) (unat sz)) (fs_ram st) m"
  by (rule fs_list_spec [OF assms])

theorem fs_list_bounded_witness:
  "\<exists>st m. fs_mkdir (Lit ''etc'') boot_fs = Some (0, st) \<and> fs_list 0x20000 8 st = Some (1, set_ram m st)
    \<and> cstr m (Ptr 0x20000) (bytes ''etc\<newline>'')"
proof -
  have n: "name_arg boot_fs (Lit ''etc'') (bytes ''etc'')" by (rule name_arg_Lit) simp_all
  let ?A = "\<lparr>slots = Some (FEntry (bytes ''etc'') True (Stored [])) # replicate 63 None, cwd = bytes ''/''\<rparr>"
  have "a_add True (bytes ''etc'') empty_fs = (0, ?A)"
    using a_add_empty [of "bytes ''etc''" True] by (simp add: FS_MAX_FILENAME_def FS_MAX_FILES_def)
  with fs_mkdir_refines [OF boot_fs_rep(1) n] obtain st where st: "fs_mkdir (Lit ''etc'') boot_fs = Some (0, st)"
    "fs_rep st ?A" by auto
  have f: "file_table st = 0x10000"
    using fs_add_frame [OF boot_fs_rep(1) n, of True 0 st] st(1) boot_fs_sel by (simp add: fs_frame_def fs_mkdir_def flags_of_def)
  have z: "fitting k p (replicate j None) = []" for k p j by (induction j) simp_all
  have "range_of (unat (0x20000 :: addr)) (unat (8 :: u32)) \<inter> table_set st = {}" by (auto simp: table_set_def f)
  with st(1) fs_list_bounded [OF st(2), of "0x20000" 8] show ?thesis by (auto simp: z)
qed

end
