(* ===== verification/Machine_Inv.thy ===== *)
theory Machine_Inv
  imports Machine
begin

text \<open>
  What the operations of the machine leave alone: console output changes the console and the port
  trace only, and the parts of the machine the drivers and the file system rely on stay as they are.
\<close>

section \<open>Console output\<close>

text \<open>\<open>st'\<close> is \<open>st\<close> but for the fields of the console and the port trace.\<close>

definition console_only :: "'a vga_scheme \<Rightarrow> 'a vga_scheme \<Rightarrow> bool" where
  "console_only st st' \<longleftrightarrow> st' = st\<lparr>trace := trace st', vga_row := vga_row st', vga_col := vga_col st',
     vga_color := vga_color st', vga_buffer := vga_buffer st'\<rparr>"

text \<open>With the cursor on the screen it stays there, and no cell off the screen is written.\<close>

definition console_step :: "'a vga_scheme \<Rightarrow> 'a vga_scheme \<Rightarrow> bool" where
  "console_step st st' \<longleftrightarrow> console_only st st' \<and> (cursor_ok st \<longrightarrow> cursor_ok st' \<and> off_screen_same st st')"

named_theorems console \<open>an operation changes the console only\<close>

lemma console_onlyI: "console_only st (st\<lparr>trace := t, vga_row := r, vga_col := k, vga_color := c, vga_buffer := b\<rparr>)"
  by (simp add: console_only_def)

lemma console_only_refl [simp]: "console_only st st"
  by (simp add: console_only_def)

lemma console_only_trans:
  assumes "console_only st st1" "console_only st1 st2"
  shows "console_only st st2"
proof -
  have "st2 = (st\<lparr>trace := trace st1, vga_row := vga_row st1, vga_col := vga_col st1,
     vga_color := vga_color st1, vga_buffer := vga_buffer st1\<rparr>)\<lparr>trace := trace st2, vga_row := vga_row st2,
     vga_col := vga_col st2, vga_color := vga_color st2, vga_buffer := vga_buffer st2\<rparr>"
    using assms unfolding console_only_def by metis
  then show ?thesis by (simp add: console_only_def)
qed

lemma console_step_refl [simp, console]: "console_step st st"
  by (simp add: console_step_def)

lemma console_step_trans [trans]: "console_step st st1 \<Longrightarrow> console_step st1 st2 \<Longrightarrow> console_step st st2"
  unfolding console_step_def using console_only_trans off_screen_trans by blast

lemma console_putchar [console]: "console_step st (vga_putchar c st)"
proof -
  have "console_only st (vga_putchar c st)"
    by (simp add: console_only_def vga_putchar_def putchar_char_def putchar_wrap_def put_cell_def vga_scroll_def
      vga_update_cursor_def outb_def Let_def)
  then show ?thesis by (simp add: console_step_def vga_putchar_spec)
qed

lemma console_puts [console]: "console_step st (fold vga_putchar cs st)"
proof (induction cs arbitrary: st)
  case (Cons c cs)
  from console_step_trans [OF console_putchar Cons] show ?case by simp
qed simp

lemma funpow_fold: "(f ^^ n) x = fold (\<lambda>_. f) [0..<n] x"
  by (induction n) simp_all

lemma console_pow [console]: "console_step st ((vga_putchar c ^^ n) st)"
proof (induction n)
  case (Suc n)
  from console_step_trans [OF this console_putchar] show ?case by simp
qed simp

lemma console_color [console]: "console_step st (vga_set_color fg bg st)"
  by (simp add: console_step_def console_only_def vga_set_color_def cursor_ok_def off_screen_same_def)

lemma console_clear [console]: "console_step st (vga_clear st)"
  by (simp add: console_step_def console_only_def vga_clear_def vga_update_cursor_def outb_def Let_def
      cursor_ok_def off_screen_same_def clear_cells_eq)

lemma console_init [console]: "console_step st (vga_init st)"
  by (simp add: console_step_def console_only_def vga_init_def cursor_ok_def off_screen_same_def)

lemma console_dec [console]: "console_step st (vga_print_dec n st)"
  by (auto simp: vga_print_dec_def Let_def intro: console_step_trans console)

lemma console_set_cursor [console]: "console_step st (vga_set_cursor r k st)"
  by (simp add: console_step_def console_only_def vga_set_cursor_def vga_update_cursor_def outb_def Let_def
      cursor_ok_def off_screen_same_def word_less_nat_alt vga_consts)

lemma console_hide [console]: "console_step st (vga_hide_cursor st)"
  by (simp add: console_step_def console_only_def vga_hide_cursor_def outb_def cursor_ok_def off_screen_same_def)

lemma console_show [console]: "console_step st (vga_show_cursor st)"
  by (simp add: console_step_def console_only_def vga_show_cursor_def outb_def inb_def Let_def cursor_ok_def off_screen_same_def)

lemma console_put_at [console]: "console_step st (vga_put_at r k c st)"
  using vga_put_at_off [of st r k c]
  by (simp add: console_step_def console_only_def vga_put_at_def cursor_ok_def)

text \<open>Console output on the machine: what it leaves alone.\<close>

lemma console_only_machine:
  assumes "console_only st st'"
  shows "fsys st' = fsys st" "irqs st' = irqs st" "command_buffer st' = command_buffer st"
    "list_buffer st' = list_buffer st" "int_flag st' = int_flag st" "dev st' = dev st"
    "irq_handlers st' = irq_handlers st" "idt_tab st' = idt_tab st"
    "timer_ticks st' = timer_ticks st" "timer_frequency st' = timer_frequency st"
    "keyboard_buffer st' = keyboard_buffer st" "buffer_start st' = buffer_start st" "buffer_end st' = buffer_end st"
    "shift_pressed st' = shift_pressed st" "ctrl_pressed st' = ctrl_pressed st" "alt_pressed st' = alt_pressed st"
    "capslock_on st' = capslock_on st"
  by (subst assms [unfolded console_only_def], simp)+

lemma console_step_machine:
  assumes "console_step st st'"
  shows "fsys st' = fsys st" "irqs st' = irqs st" "command_buffer st' = command_buffer st"
    "list_buffer st' = list_buffer st" "int_flag st' = int_flag st" "dev st' = dev st"
    "irq_handlers st' = irq_handlers st" "idt_tab st' = idt_tab st"
    "timer_ticks st' = timer_ticks st" "timer_frequency st' = timer_frequency st"
    "ring_ok st' = ring_ok st" "queue st' = queue st"
    "shift_pressed st' = shift_pressed st" "ctrl_pressed st' = ctrl_pressed st" "alt_pressed st' = alt_pressed st"
    "capslock_on st' = capslock_on st"
    "cursor_ok st \<Longrightarrow> cursor_ok st'" "cursor_ok st \<Longrightarrow> off_screen_same st st'"
  using assms console_only_machine [of st st']
  by (simp_all add: console_step_def ring_ok_def queue_def ring_len_def)

lemma say_step: "0 \<notin> set (bytes s) \<Longrightarrow> \<exists>st'. say s st = Some st' \<and> console_step st st'"
  by (simp add: say_def vga_print_Lit console)

lemma say_eq: "0 \<notin> set (bytes s) \<Longrightarrow> say s st = Some (fold vga_putchar (bytes s) st)"
  by (simp add: say_def vga_print_Lit)

lemma print_step: "cstr (mem_of st) p s \<Longrightarrow> \<exists>st'. vga_print (mem_of st) p st = Some st' \<and> console_step st st'"
  by (simp add: vga_print_eq console)

end
