(* ===== verification/Machine_Props.thy ===== *)
theory Machine_Props
  imports Machine_Inv
begin

text \<open>
  Interrupts and waiting: what a batch of interrupts does to the drivers, when the sleeping functions
  of the timer return, and what \<^verbatim>\<open>keyboard_readline\<close> makes of the keys.
\<close>

section \<open>One interrupt\<close>

text \<open>\<open>st'\<close> is \<open>st\<close> after interrupts: the tick counter, the keyboard's data and the port trace differ.\<close>

definition driver_step :: "'a kbd_scheme \<Rightarrow> 'a kbd_scheme \<Rightarrow> bool" where
  "driver_step st st' \<longleftrightarrow> st' = st\<lparr>trace := trace st', timer_ticks := timer_ticks st',
       keyboard_buffer := keyboard_buffer st', buffer_end := buffer_end st', shift_pressed := shift_pressed st',
       ctrl_pressed := ctrl_pressed st', alt_pressed := alt_pressed st', capslock_on := capslock_on st'\<rparr>
     \<and> (ring_ok st \<longrightarrow> ring_ok st' \<and> (\<exists>ks. queue st' = queue st @ ks))"

lemma driver_step_refl [simp]: "driver_step st st"
  by (simp add: driver_step_def)

lemma driver_step_trans [trans]:
  assumes "driver_step st st1" "driver_step st1 st2"
  shows "driver_step st st2"
proof -
  have "st2 = (st\<lparr>trace := trace st1, timer_ticks := timer_ticks st1,
       keyboard_buffer := keyboard_buffer st1, buffer_end := buffer_end st1, shift_pressed := shift_pressed st1,
       ctrl_pressed := ctrl_pressed st1, alt_pressed := alt_pressed st1, capslock_on := capslock_on st1\<rparr>)
       \<lparr>trace := trace st2, timer_ticks := timer_ticks st2,
       keyboard_buffer := keyboard_buffer st2, buffer_end := buffer_end st2, shift_pressed := shift_pressed st2,
       ctrl_pressed := ctrl_pressed st2, alt_pressed := alt_pressed st2, capslock_on := capslock_on st2\<rparr>"
    using assms unfolding driver_step_def by metis
  moreover have "ring_ok st \<longrightarrow> ring_ok st2 \<and> (\<exists>ks. queue st2 = queue st @ ks)"
    using assms unfolding driver_step_def by fastforce
  ultimately show ?thesis by (simp add: driver_step_def)
qed

lemma driver_outb: "driver_step st (outb p v st)"
proof -
  have "same_keys st (outb p v st)" by (simp add: outb_def same_keys_def)
  from same_keys_queue [OF this] show ?thesis by (simp add: driver_step_def outb_def)
qed

lemma driver_timer: "driver_step st (timer_handler st)"
proof -
  have "same_keys st (timer_handler st)" by (simp add: timer_handler_def same_keys_def)
  from same_keys_queue [OF this] show ?thesis by (simp add: driver_step_def timer_handler_def)
qed

lemma driver_keyboard: "driver_step st (keyboard_handler st)"
proof -
  have "keyboard_handler st = st\<lparr>trace := trace (keyboard_handler st), timer_ticks := timer_ticks (keyboard_handler st),
       keyboard_buffer := keyboard_buffer (keyboard_handler st), buffer_end := buffer_end (keyboard_handler st),
       shift_pressed := shift_pressed (keyboard_handler st), ctrl_pressed := ctrl_pressed (keyboard_handler st),
       alt_pressed := alt_pressed (keyboard_handler st), capslock_on := capslock_on (keyboard_handler st)\<rparr>"
    by (simp add: keyboard_handler_def keyboard_key_def buffer_put_def inb_def Let_def)
  then show ?thesis using keyboard_handler_spec [of st] by (auto simp: driver_step_def)
qed

lemma keyboard_handler_ticks [simp]: "timer_ticks (keyboard_handler st) = timer_ticks st"
  by (simp add: keyboard_handler_def keyboard_key_def buffer_put_def inb_def Let_def)

text \<open>The interrupts of the sixteen lines, and the line of a frame.\<close>

definition valid_irq :: "interrupt_frame \<Rightarrow> bool" where
  "valid_irq f \<longleftrightarrow> 32 \<le> unat (int_no f) \<and> unat (int_no f) < 48"

definition irq_line :: "interrupt_frame \<Rightarrow> nat" where
  "irq_line f = unat (int_no f) - 32"

lemma irq_number: "valid_irq f \<Longrightarrow> unat (ucast (int_no f - 32) :: u8) = irq_line f \<and> irq_line f < 16"
proof -
  assume v: "valid_irq f"
  then have "unat (int_no f - 32) = irq_line f" by (simp add: valid_irq_def irq_line_def unat_minus_no_wrap)
  moreover have "irq_line f < 16" using v by (auto simp: valid_irq_def irq_line_def)
  ultimately show ?thesis by (simp add: unsigned_ucast_eq take_bit_eq_mod)
qed

definition run_handler :: "handler option \<Rightarrow> 'a kbd_scheme \<Rightarrow> 'a kbd_scheme" where
  "run_handler h st = (case h of Some Timer_handler \<Rightarrow> timer_handler st
     | Some Keyboard_handler \<Rightarrow> keyboard_handler st | None \<Rightarrow> st)"

lemma irq_handler_eq:
  assumes "valid_irq f"
  shows "irq_handler f st = Some (outb 0x20 0x20
    ((if 8 \<le> irq_line f then outb 0xA0 0x20 else id) (run_handler (irq_handlers st ! irq_line f) st)))"
proof -
  have "unat (ucast (int_no f - 32) :: u8) = irq_line f" "irq_line f < 16" using irq_number [OF assms] by simp_all
  then show ?thesis
    by (simp add: irq_handler_def Let_def word_le_nat_alt run_handler_def idt_consts)
qed

lemma driver_run: "driver_step st (run_handler h st)"
  by (auto simp: run_handler_def driver_timer driver_keyboard split: option.splits handler.splits)

lemma irq_handler_step:
  assumes "valid_irq f"
  shows "\<exists>st'. irq_handler f st = Some st' \<and> driver_step st st'
    \<and> timer_ticks st' = timer_ticks (run_handler (irq_handlers st ! irq_line f) st)"
proof -
  have "timer_ticks (outb p v s) = timer_ticks s" for p v and s :: "'b kbd_scheme" by (simp add: outb_def)
  moreover have "driver_step st (outb 0x20 0x20
    ((if 8 \<le> irq_line f then outb 0xA0 0x20 else id) (run_handler (irq_handlers st ! irq_line f) st)))"
    by (auto intro: driver_step_trans [OF _ driver_outb] driver_run)
  ultimately show ?thesis by (auto simp: irq_handler_eq [OF assms])
qed

lemma driver_step_sel:
  assumes "driver_step st st'"
  shows "irq_handlers st' = irq_handlers st" "int_flag st' = int_flag st" "timer_frequency st' = timer_frequency st"
    "ring_ok st \<Longrightarrow> ring_ok st'" "buffer_start st' = buffer_start st" "dev st' = dev st"
    "vga_row st' = vga_row st" "vga_col st' = vga_col st" "vga_color st' = vga_color st" "vga_buffer st' = vga_buffer st"
    "kbd.more st' = kbd.more st"
proof -
  from assms have e: "st' = st\<lparr>trace := trace st', timer_ticks := timer_ticks st',
       keyboard_buffer := keyboard_buffer st', buffer_end := buffer_end st', shift_pressed := shift_pressed st',
       ctrl_pressed := ctrl_pressed st', alt_pressed := alt_pressed st', capslock_on := capslock_on st'\<rparr>"
    by (simp add: driver_step_def)
  show "irq_handlers st' = irq_handlers st" "int_flag st' = int_flag st" "timer_frequency st' = timer_frequency st"
    "buffer_start st' = buffer_start st" "dev st' = dev st"
    "vga_row st' = vga_row st" "vga_col st' = vga_col st" "vga_color st' = vga_color st" "vga_buffer st' = vga_buffer st"
    "kbd.more st' = kbd.more st"
    by (subst e, simp)+
  show "ring_ok st \<Longrightarrow> ring_ok st'" using assms by (simp add: driver_step_def)
qed

section \<open>Batches and waiting\<close>

definition ticking :: "'a kbd_scheme \<Rightarrow> bool" where
  "ticking st \<longleftrightarrow> int_flag st \<and> length (irq_handlers st) = 16 \<and>
     (\<forall>i<16. irq_handlers st ! i = Some Timer_handler \<longleftrightarrow> i = 0)"

text \<open>The timer interrupts of a batch.\<close>

definition timers :: "interrupt_frame list \<Rightarrow> nat" where
  "timers b = length (filter (\<lambda>f. irq_line f = 0) b)"

abbreviation valid_batches :: "interrupt_frame list list \<Rightarrow> bool" where
  "valid_batches bs \<equiv> \<forall>b\<in>set bs. \<forall>f\<in>set b. valid_irq f"

lemma timers_simps [simp]: "timers [] = 0" "timers (f # fs) = (if irq_line f = 0 then 1 else 0) + timers fs"
  by (simp_all add: timers_def)

lemma run_handler_ticks:
  assumes "ticking st" "i < 16"
  shows "timer_ticks (run_handler (irq_handlers st ! i) st) = timer_ticks st + of_nat (if i = 0 then 1 else 0)"
proof (cases "i = 0")
  case True
  have "irq_handlers st ! 0 = Some Timer_handler" using assms(1) unfolding ticking_def by (metis zero_less_numeral)
  with True show ?thesis by (simp add: run_handler_def timer_handler_def)
next
  case False
  with assms have "irq_handlers st ! i \<noteq> Some Timer_handler" by (simp add: ticking_def)
  then show ?thesis using False by (auto simp: run_handler_def split: option.splits handler.splits)
qed

lemma ticking_step: "driver_step st st' \<Longrightarrow> ticking st' = ticking st"
  by (simp add: ticking_def driver_step_sel)

lemma deliver_step:
  assumes "ticking st" "\<forall>f\<in>set b. valid_irq f"
  shows "\<exists>st'. deliver b st = Some st' \<and> driver_step st st' \<and> timer_ticks st' = timer_ticks st + of_nat (timers b)"
  using assms
proof (induction b arbitrary: st)
  case (Cons f b)
  then have f: "valid_irq f" "irq_line f < 16" using irq_number by simp_all
  from irq_handler_step [OF f(1), of st] obtain st1 where 1: "irq_handler f st = Some st1" "driver_step st st1"
    "timer_ticks st1 = timer_ticks st + of_nat (if irq_line f = 0 then 1 else 0)"
    using run_handler_ticks [OF Cons.prems(1) f(2)] by auto
  have "ticking st1" using Cons.prems(1) ticking_step [OF 1(2)] by simp
  with Cons.IH [of st1] Cons.prems(2) obtain st' where "deliver b st1 = Some st'" "driver_step st1 st'"
    "timer_ticks st' = timer_ticks st1 + of_nat (timers b)" by auto
  with 1 driver_step_trans [OF 1(2)] show ?case by (simp add: algebra_simps)
qed simp

text \<open>A wait: some batches are consumed, and the drivers have changed as interrupts change them.\<close>

definition waited :: "nat \<Rightarrow> 'a machine_scheme \<Rightarrow> 'a machine_scheme \<Rightarrow> bool" where
  "waited k st st' \<longleftrightarrow> k \<le> length (irqs st) \<and> driver_step (st\<lparr>irqs := drop k (irqs st)\<rparr>) st'
     \<and> timer_ticks st' = timer_ticks st + of_nat (sum_list (map timers (take k (irqs st))))"

lemma waited_0 [simp]: "waited 0 st st"
  by (simp add: waited_def)

lemma waited_irqs: "waited k st st' \<Longrightarrow> irqs st' = drop k (irqs st)"
proof -
  assume w: "waited k st st'"
  have "kbd.more st' = kbd.more (st\<lparr>irqs := drop k (irqs st)\<rparr>)"
    using w driver_step_sel(11) [of "st\<lparr>irqs := drop k (irqs st)\<rparr>" st'] by (simp add: waited_def)
  then have "machine.irqs st' = machine.irqs (st\<lparr>irqs := drop k (irqs st)\<rparr>)" by (cases st, cases st') simp
  then show ?thesis by simp
qed

lemma driver_step_irqs:
  assumes "driver_step st st'"
  shows "driver_step (st\<lparr>irqs := x\<rparr>) (st'\<lparr>irqs := x\<rparr>)"
proof -
  from assms have e: "st' = st\<lparr>trace := trace st', timer_ticks := timer_ticks st',
       keyboard_buffer := keyboard_buffer st', buffer_end := buffer_end st', shift_pressed := shift_pressed st',
       ctrl_pressed := ctrl_pressed st', alt_pressed := alt_pressed st', capslock_on := capslock_on st'\<rparr>"
    by (simp add: driver_step_def)
  have r: "ring_ok (s\<lparr>irqs := x\<rparr>) = ring_ok s" "queue (s\<lparr>irqs := x\<rparr>) = queue s" for s :: "'a machine_scheme"
    by (simp_all add: ring_ok_def queue_def ring_len_def)
  show ?thesis
    unfolding driver_step_def r
  proof (intro conjI)
    show "ring_ok st \<longrightarrow> ring_ok st' \<and> (\<exists>ks. queue st' = queue st @ ks)" using assms by (simp add: driver_step_def)
  qed (subst e, simp)
qed

lemma waited_trans:
  assumes "waited j st st1" "waited k st1 st2"
  shows "waited (j + k) st st2"
proof -
  have i: "irqs st1 = drop j (irqs st)" by (rule waited_irqs [OF assms(1)])
  have "driver_step (st\<lparr>irqs := drop (j + k) (irqs st)\<rparr>) (st1\<lparr>irqs := drop k (irqs st1)\<rparr>)"
    using driver_step_irqs [of "st\<lparr>irqs := drop j (irqs st)\<rparr>" st1 "drop (j + k) (irqs st)"] assms(1)
    by (simp add: waited_def i add.commute)
  moreover have "take (j + k) (irqs st) = take j (irqs st) @ take k (irqs st1)" by (simp add: i take_add)
  ultimately show ?thesis
    using assms i by (auto simp: waited_def intro: driver_step_trans)
qed

lemma halt_step:
  assumes "ticking st" "irqs st = b # bs" "\<forall>f\<in>set b. valid_irq f"
  shows "\<exists>st'. halt st = Some st' \<and> waited 1 st st' \<and> ticking st'"
proof -
  have t: "ticking (st\<lparr>irqs := bs\<rparr>)" using assms(1) by (simp add: ticking_def)
  from deliver_step [OF t assms(3)] obtain st' where "deliver b (st\<lparr>irqs := bs\<rparr>) = Some st'"
    "driver_step (st\<lparr>irqs := bs\<rparr>) st'" "timer_ticks st' = timer_ticks st + of_nat (timers b)" by auto
  then show ?thesis using assms ticking_step [of "st\<lparr>irqs := bs\<rparr>" st'] t by (simp add: halt_def ticking_def waited_def)
qed

lemma ticking_waited: "waited k st st' \<Longrightarrow> ticking st' = ticking st"
  using ticking_step [of "st\<lparr>irqs := drop k (irqs st)\<rparr>" st'] by (simp add: waited_def ticking_def)

text \<open>
  Sleeping: with enough timer interrupts to come the loop returns after the first batch that brings
  the counter to the end.
\<close>

lemma sleep_loop_returns:
  assumes "ticking st" "valid_batches (irqs st)"
    and "unat (timer_ticks st) + sum_list (map timers (irqs st)) < 2 ^ 32"
    and "unat e \<le> unat (timer_ticks st) + sum_list (map timers (irqs st))"
  shows "\<exists>k st'. sleep_loop e st = Some st' \<and> waited k st st' \<and> unat e \<le> unat (timer_ticks st')
    \<and> (\<forall>j<k. unat (timer_ticks st) + sum_list (map timers (take j (irqs st))) < unat e)"
  using assms
proof (induction "irqs st" arbitrary: st)
  case Nil
  then show ?case by (intro exI [of _ 0] exI [of _ st]) (subst sleep_loop.simps, simp add: word_less_nat_alt)
next
  case (Cons b bs)
  show ?case
  proof (cases "timer_ticks st < e")
    case False
    then show ?thesis
      by (intro exI [of _ 0] exI [of _ st]) (subst sleep_loop.simps, simp add: word_less_nat_alt)
  next
    case True
    have b: "irqs st = b # bs" using Cons.hyps(2) by simp
    then obtain st1 where 1: "halt st = Some st1" "waited 1 st st1" "ticking st1"
      using halt_step [OF Cons.prems(1) b] Cons.prems(2) by auto
    have i1: "irqs st1 = bs" using waited_irqs [OF 1(2)] b by simp
    have "timer_ticks st1 = timer_ticks st + of_nat (timers b)" using 1(2) b by (simp add: waited_def)
    then have t1: "unat (timer_ticks st1) = unat (timer_ticks st) + timers b"
      using Cons.prems(3) b by (simp add: unat_plus_no_wrap)
    have "valid_batches (irqs st1)" using Cons.prems(2) b i1 by simp
    moreover have "unat (timer_ticks st1) + sum_list (map timers (irqs st1)) < 2 ^ 32"
      "unat e \<le> unat (timer_ticks st1) + sum_list (map timers (irqs st1))"
      using Cons.prems(3,4) b i1 t1 by (simp_all add: add.assoc)
    ultimately obtain k st' where k: "sleep_loop e st1 = Some st'" "waited k st1 st'" "unat e \<le> unat (timer_ticks st')"
      "\<forall>j<k. unat (timer_ticks st1) + sum_list (map timers (take j (irqs st1))) < unat e"
      using Cons.hyps(1) [of st1] 1(3) i1 by blast
    have "unat (timer_ticks st) + sum_list (map timers (take j (irqs st))) < unat e" if "j < 1 + k" for j
      using that k(4) True b i1 t1 by (cases j) (auto simp: word_less_nat_alt add.assoc)
    moreover have "sleep_loop e st = Some st'" using True 1(1) k(1) by (subst sleep_loop.simps) simp
    ultimately show ?thesis using waited_trans [OF 1(2) k(2)] k(3) by blast
  qed
qed

section \<open>Reading a line\<close>

text \<open>
  The line editor on lists: limit \<open>n\<close>, the line so far, the keys to come; the result is the line, the
  characters echoed, and the keys left. \<open>None\<close>: the keys do not complete a line.
\<close>

definition echoing :: "u8 \<Rightarrow> (u8 list \<times> u8 list \<times> u8 list) option \<Rightarrow> (u8 list \<times> u8 list \<times> u8 list) option" where
  "echoing c = map_option (\<lambda>(line, echo, rest). (line, c # echo, rest))"

fun line_read :: "nat \<Rightarrow> u8 list \<Rightarrow> u8 list \<Rightarrow> (u8 list \<times> u8 list \<times> u8 list) option" where
  "line_read n acc [] = (if length acc < n then None else Some (acc, [], []))"
| "line_read n acc (k # ks) =
     (if \<not> length acc < n then Some (acc, [], k # ks)
      else if k = 10 then Some (acc, [10], ks)
      else if k = 8 then (if acc = [] then line_read n [] ks else echoing 8 (line_read n (butlast acc) ks))
      else echoing k (line_read n (acc @ [k]) ks))"

lemma echoing_Some: "echoing c r = Some (line, echo, rest) \<longleftrightarrow> (\<exists>e. echo = c # e \<and> r = Some (line, e, rest))"
  by (cases r) (auto simp: echoing_def)

text \<open>The parts of the machine that reading, editing and printing leave alone.\<close>

definition same_drivers :: "'a machine_scheme \<Rightarrow> 'a machine_scheme \<Rightarrow> bool" where
  "same_drivers st st' \<longleftrightarrow> irqs st' = irqs st \<and> command_buffer st' = command_buffer st \<and> list_buffer st' = list_buffer st
     \<and> int_flag st' = int_flag st \<and> irq_handlers st' = irq_handlers st \<and> timer_ticks st' = timer_ticks st
     \<and> timer_frequency st' = timer_frequency st \<and> dev st' = dev st"

lemma same_drivers_refl [simp]: "same_drivers st st"
  by (simp add: same_drivers_def)

lemma same_drivers_trans [trans]: "same_drivers st st1 \<Longrightarrow> same_drivers st1 st2 \<Longrightarrow> same_drivers st st2"
  by (simp add: same_drivers_def)

lemma console_same_drivers: "console_step st st' \<Longrightarrow> same_drivers st st'"
  by (simp add: same_drivers_def console_step_machine)

lemma put_mem_sel [simp]:
  "fsys (put_mem m st) = set_ram m (fsys st)" "mem_of (put_mem m st) = m"
  "ring_ok (put_mem m st) = ring_ok st" "queue (put_mem m st) = queue st"
  "terminal (put_mem m st) = terminal st" "vga_color (put_mem m st) = vga_color st"
  "cursor_ok (put_mem m st) = cursor_ok st" "same_drivers st (put_mem m st)"
  by (simp_all add: put_mem_def set_ram_def ring_ok_def queue_def ring_len_def terminal_def screen_def
      cursor_ok_def same_drivers_def)

lemma buffer_take_sel:
  "fsys (snd (buffer_take st)) = fsys st" "same_drivers st (snd (buffer_take st))"
  "terminal (snd (buffer_take st)) = terminal st" "vga_color (snd (buffer_take st)) = vga_color st"
  "cursor_ok (snd (buffer_take st)) = cursor_ok st"
  by (simp_all add: buffer_take_def Let_def same_drivers_def terminal_def screen_def cursor_ok_def)

lemma getchar_ready:
  assumes "ring_ok st" "queue st = c # ks"
  shows "\<exists>st'. keyboard_getchar st = Some (c, st') \<and> ring_ok st' \<and> queue st' = ks \<and> fsys st' = fsys st
    \<and> same_drivers st st' \<and> terminal st' = terminal st \<and> vga_color st' = vga_color st \<and> cursor_ok st' = cursor_ok st"
proof -
  have "key_wait st = Some st" using assms has_key_queue [OF assms(1)] by (subst key_wait.simps) simp
  then have "keyboard_getchar st = Some (buffer_take st)" by (simp add: keyboard_getchar_def)
  moreover have "buffer_take st = (c, snd (buffer_take st))"
    using buffer_take_queue [OF assms] by (metis prod.collapse)
  ultimately show ?thesis
    using buffer_take_queue [OF assms] buffer_take_ok [OF assms(1)] buffer_take_sel [of st] by metis
qed

lemma putchar_sel:
  "fsys (vga_putchar c st) = fsys st" "ring_ok (vga_putchar c st) = ring_ok st" "queue (vga_putchar c st) = queue st"
  "same_drivers st (vga_putchar c st)"
  using console_step_machine [OF console_putchar [of st c]] console_same_drivers [OF console_putchar] by simp_all

text \<open>What a stretch of line editing does: it writes the region \<open>R\<close> only and echoes \<open>es\<close>.\<close>

definition line_frame :: "addr set \<Rightarrow> u8 list \<Rightarrow> 'a machine_scheme \<Rightarrow> 'a machine_scheme \<Rightarrow> bool" where
  "line_frame R es st st' \<longleftrightarrow> ring_ok st' \<and> cursor_ok st' \<and> agree_on (- R) (mem_of st) (mem_of st')
     \<and> fsys st' = set_ram (mem_of st') (fsys st) \<and> same_drivers st st' \<and> vga_color st' = vga_color st
     \<and> terminal st' = term_puts (vga_color st) es (terminal st)"

lemma set_ram_set_ram [simp]: "set_ram m (set_ram m' fs) = set_ram m fs" "set_ram (fs_ram fs) fs = fs"
  "fs_ram (set_ram m fs) = m"
  by (simp_all add: set_ram_def)

lemma line_frame_trans:
  assumes "line_frame R es st st1" "line_frame R fs st1 st2"
  shows "line_frame R (es @ fs) st st2"
proof -
  have "fsys st2 = set_ram (mem_of st2) (fsys st)" using assms unfolding line_frame_def by (metis set_ram_set_ram(1))
  moreover have "terminal st2 = term_puts (vga_color st) (es @ fs) (terminal st)"
    using assms by (simp add: line_frame_def term_puts_def)
  ultimately show ?thesis
    using assms agree_on_trans [of "- R" "mem_of st" "mem_of st1" "mem_of st2"] same_drivers_trans [of st st1 st2]
    unfolding line_frame_def by metis
qed

lemma line_frame_putchar:
  assumes "line_frame R es st st1"
  shows "line_frame R (es @ [c]) st (vga_putchar c st1)"
proof (rule line_frame_trans [OF assms])
  from assms have "cursor_ok st1" "ring_ok st1" by (simp_all add: line_frame_def)
  with putchar_sel [where st = st1 and c = c] vga_putchar_spec [where st = st1 and c = c] show "line_frame R [c] st1 (vga_putchar c st1)"
    by (simp add: line_frame_def term_puts_def)
qed

text \<open>The loop in the middle of a line: \<open>acc\<close> has been read.\<close>

definition reading :: "nat \<Rightarrow> addr \<Rightarrow> u8 list \<Rightarrow> 'a machine_scheme \<Rightarrow> bool" where
  "reading n buffer acc st \<longleftrightarrow> ring_ok st \<and> cursor_ok st \<and> length acc \<le> n
     \<and> bytes_at (mem_of st) buffer (length acc) = acc"

lemma readline_test:
  fixes max_length :: u32
  assumes "unat max_length = n + 1" "n < 2 ^ 32" "length acc \<le> n"
  shows "of_nat (length acc) < max_length - 1 \<longleftrightarrow> length acc < n"
proof -
  have "unat (max_length - 1) = n" using assms(1) by (simp add: unat_minus_no_wrap)
  moreover have "unat (of_nat (length acc) :: u32) = length acc" using assms(2,3) by simp
  ultimately show ?thesis by (simp add: word_less_nat_alt)
qed

text \<open>A character stored behind the line so far, and echoed.\<close>

lemma readline_store:
  fixes k :: u8
  assumes r: "reading n buffer acc st" and b: "unat buffer + n < 2 ^ 32" "length acc < n"
  defines "st2 \<equiv> vga_putchar k (put_mem ((mem_of st)(buffer + of_nat (length acc) := k)) st)"
  shows "reading n buffer (acc @ [k]) st2" "line_frame (range_of (unat buffer) n) [k] st st2" "queue st2 = queue st"
proof -
  let ?R = "range_of (unat buffer) n" and ?m = "(mem_of st)(buffer + of_nat (length acc) := k)"
  have ok: "ring_ok st" "cursor_ok st" "bytes_at (mem_of st) buffer (length acc) = acc" using r by (simp_all add: reading_def)
  have ub: "unat (buffer + of_nat (length acc)) = unat buffer + length acc" using b by (intro unat_offset) simp
  have "agree_on (- ?R) (mem_of st) ?m" using ub b(2) by (intro agree_on_upd agree_on_refl) auto
  then have "line_frame ?R [] st (put_mem ?m st)" using ok by (simp add: line_frame_def term_puts_def)
  from line_frame_putchar [OF this, of k] show f: "line_frame ?R [k] st st2" by (simp add: st2_def)
  have "agree_on (range_of (unat buffer) (length acc)) (mem_of st) ?m" using ub by (intro agree_on_upd agree_on_refl) simp_all
  then have "bytes_at ?m buffer (length acc) = acc"
    using bytes_at_cong [of buffer "length acc" "mem_of st" ?m] b ok(3) by simp
  then have "bytes_at (mem_of st2) buffer (length (acc @ [k])) = acc @ [k]"
    using bytes_at_add [of ?m buffer "length acc" 1] by (simp add: putchar_sel bytes_at_Suc st2_def)
  then show "reading n buffer (acc @ [k]) st2" using f b(2) by (simp add: reading_def line_frame_def)
  show "queue st2 = queue st" by (simp add: st2_def putchar_sel)
qed

text \<open>One key but Enter.\<close>

lemma readline_key:
  assumes r: "reading n buffer acc st" and q: "queue st = k # ks" and k: "k \<noteq> 10" "length acc < n"
    and b: "unat max_length = n + 1" "unat buffer + n < 2 ^ 32"
  obtains acc' es st2 where
    "readline_loop buffer max_length (of_nat (length acc)) st = readline_loop buffer max_length (of_nat (length acc')) st2"
    "reading n buffer acc' st2" "queue st2 = ks" "line_frame (range_of (unat buffer) n) es st st2"
    "\<And>line echo rest. line_read n acc (k # ks) = Some (line, echo, rest) \<Longrightarrow>
      \<exists>e. echo = es @ e \<and> line_read n acc' ks = Some (line, e, rest)"
proof -
  let ?R = "range_of (unat buffer) n" and ?i = "of_nat (length acc) :: u32"
  have n32: "n < 2 ^ 32" using b(2) by simp
  have go: "?i < max_length - 1" using readline_test [OF b(1) n32, of acc] k(2) by simp
  from r have ok: "ring_ok st" "cursor_ok st" by (simp_all add: reading_def)
  from getchar_ready [OF ok(1) q] ok(2) obtain st1 where g: "keyboard_getchar st = Some (k, st1)" "queue st1 = ks" "fsys st1 = fsys st"
    and f1: "line_frame ?R [] st st1"
    by (auto simp: line_frame_def term_puts_def agree_on_refl)
  then have r1: "reading n buffer acc st1" using r by (simp add: reading_def line_frame_def)
  note run = readline_loop.simps [of buffer max_length ?i st] g(1) go
  consider (bs0) "k = 8" "acc = []" | (bs) "k = 8" "acc \<noteq> []" | (ch) "k \<noteq> 8" by blast
  then show thesis
  proof cases
    case bs0
    with run k r1 g(2) f1 show thesis by (intro that [of acc st1 "[]"]) simp_all
  next
    case bs
    have "?i - 1 = of_nat (length (butlast acc))" "0 < ?i"
      using bs(2) n32 k(2) by (simp_all add: of_nat_diff Suc_le_eq word_less_nat_alt)
    then have "readline_loop buffer max_length ?i st
        = readline_loop buffer max_length (of_nat (length (butlast acc))) (vga_putchar 8 st1)"
      using run bs(1) by simp
    moreover have f2: "line_frame ?R [8] st (vga_putchar 8 st1)" using line_frame_putchar [OF f1] by simp
    moreover have "bytes_at (mem_of st1) buffer (length (butlast acc)) = butlast acc"
      using take_bytes_at [of "length acc - 1" "length acc" "mem_of st1" buffer] r1 by (simp add: reading_def butlast_conv_take)
    then have "reading n buffer (butlast acc) (vga_putchar 8 st1)" using f2 r1 by (auto simp: reading_def line_frame_def putchar_sel)
    ultimately show thesis using bs k g(2) by (intro that [of "butlast acc" "vga_putchar 8 st1" "[8]"]) (auto simp: echoing_Some putchar_sel)
  next
    case ch
    let ?st2 = "vga_putchar k (put_mem ((mem_of st1)(buffer + ?i := k)) st1)"
    note st = readline_store [OF r1 b(2) k(2), of k]
    have "readline_loop buffer max_length ?i st = readline_loop buffer max_length (of_nat (length (acc @ [k]))) ?st2"
      using run k(1) ch by (simp add: add.commute)
    with st line_frame_trans [OF f1 st(2)] k ch g(2) show thesis
      by (intro that [of "acc @ [k]" ?st2 "[k]"]) (simp_all add: echoing_Some)
  qed
qed

lemma readline_loop_spec:
  assumes "line_read n acc (queue st) = Some (line, echo, rest)" "reading n buffer acc st"
    and "unat max_length = n + 1" "unat buffer + n < 2 ^ 32"
  shows "\<exists>st'. readline_loop buffer max_length (of_nat (length acc)) st = Some (of_nat (length line), st')
    \<and> queue st' = rest \<and> length line \<le> n \<and> bytes_at (mem_of st') buffer (length line) = line
    \<and> line_frame (range_of (unat buffer) n) echo st st'"
  using assms
proof (induction "queue st" arbitrary: st acc echo)
  case Nil
  then have l: "\<not> length acc < n" "length acc \<le> n" by (auto simp: reading_def split: if_splits)
  then have "\<not> of_nat (length acc) < max_length - 1" using readline_test [OF Nil.prems(3), of acc] Nil.prems(4) by simp
  then have "readline_loop buffer max_length (of_nat (length acc)) st = Some (of_nat (length acc), st)"
    by (subst readline_loop.simps) simp
  with Nil l show ?case by (auto simp: reading_def line_frame_def term_puts_def agree_on_refl)
next
  case (Cons k ks)
  let ?R = "range_of (unat buffer) n" and ?i = "of_nat (length acc) :: u32"
  note r = Cons.prems(2) [unfolded reading_def] and q = Cons.hyps(2) [symmetric]
  have test: "?i < max_length - 1 \<longleftrightarrow> length acc < n" using r Cons.prems(4) by (intro readline_test [OF Cons.prems(3)]) simp_all
  show ?case
  proof (cases "length acc < n")
    case False
    then have "readline_loop buffer max_length ?i st = Some (?i, st)" using test by (subst readline_loop.simps) simp
    with Cons.prems False r show ?thesis
      by (auto simp: line_frame_def term_puts_def agree_on_refl q)
  next
    case True
    show ?thesis
    proof (cases "k = 10")
      case nl: True
      from getchar_ready [OF _ q] r obtain st1 where g: "keyboard_getchar st = Some (k, st1)" "queue st1 = ks" "fsys st1 = fsys st"
        "line_frame ?R [] st st1" by (auto simp: line_frame_def term_puts_def agree_on_refl)
      then have "readline_loop buffer max_length ?i st = Some (?i, vga_putchar 10 st1)"
        using test True nl by (subst readline_loop.simps) simp
      with nl Cons.prems(1) True g r line_frame_putchar [OF g(4), of 10] show ?thesis by (auto simp: putchar_sel q)
    next
      case other: False
      obtain acc' es st2 where s: "readline_loop buffer max_length ?i st = readline_loop buffer max_length (of_nat (length acc')) st2"
        "reading n buffer acc' st2" "queue st2 = ks" "line_frame ?R es st st2"
        "\<And>line echo rest. line_read n acc (k # ks) = Some (line, echo, rest) \<Longrightarrow>
          \<exists>e. echo = es @ e \<and> line_read n acc' ks = Some (line, e, rest)"
        by (rule readline_key [OF Cons.prems(2) q other True Cons.prems(3,4)]) blast
      from s(5) Cons.prems(1) q obtain e where e: "echo = es @ e" "line_read n acc' (queue st2) = Some (line, e, rest)"
        unfolding s(3) by auto
      from Cons.hyps(1) [OF s(3) [symmetric] e(2) s(2) Cons.prems(3,4)] s(1,4) e(1) line_frame_trans
      show ?thesis by fastforce
    qed
  qed
qed

lemma readline_spec:
  assumes "line_read n [] (queue st) = Some (line, echo, rest)" "ring_ok st" "cursor_ok st"
    and "unat max_length = n + 1" "unat buffer + n < 2 ^ 32"
  shows "\<exists>st'. keyboard_readline buffer max_length st = Some (of_nat (length line), st')
    \<and> queue st' = rest \<and> length line \<le> n \<and> bytes_at (mem_of st') buffer (length line) = line
    \<and> mem_of st' (buffer + of_nat (length line)) = 0
    \<and> line_frame (range_of (unat buffer) (n + 1)) echo st st'"
proof -
  have "reading n buffer [] st" using assms(2,3) by (simp add: reading_def)
  from readline_loop_spec [OF assms(1) this assms(4,5)] obtain st1 where 1: "readline_loop buffer max_length 0 st = Some (of_nat (length line), st1)"
    "queue st1 = rest" "length line \<le> n" "bytes_at (mem_of st1) buffer (length line) = line"
    "line_frame (range_of (unat buffer) n) echo st st1" by auto
  let ?m = "(mem_of st1)(buffer + of_nat (length line) := 0)" and ?R = "range_of (unat buffer) (n + 1)"
  have ub: "unat (buffer + of_nat (length line)) = unat buffer + length line"
    using 1(3) assms(5) by (intro unat_offset) simp
  have f1: "line_frame ?R echo st st1" using 1(5) unfolding line_frame_def by (elim conjE, intro conjI) (auto elim: agree_on_mono)
  have "agree_on (- ?R) (mem_of st1) ?m" using ub 1(3) by (intro agree_on_upd) auto
  then have "line_frame ?R [] st1 (put_mem ?m st1)" using f1 by (simp add: line_frame_def term_puts_def)
  with line_frame_trans [OF f1 this] have f: "line_frame ?R echo st (put_mem ?m st1)" by simp
  have "agree_on (range_of (unat buffer) (length line)) (mem_of st1) ?m" using ub by (intro agree_on_upd) simp_all
  then have "bytes_at ?m buffer (length line) = line"
    using bytes_at_cong [of buffer "length line" "mem_of st1" ?m] 1(3,4) assms(5) by simp
  with f 1 show ?thesis by (simp add: keyboard_readline_def)
qed

section \<open>Properties\<close>

text \<open>
  C35: With the handlers the kernel registers, an interrupt on any of the sixteen lines is handled and
  acknowledged: line 0 adds one tick, line 1 puts the character of its scan code into the buffer, any
  other line changes no driver; the end-of-interrupt commands come last, the second controller's
  first and only for its own lines.
\<close>
theorem irq_dispatch:
  assumes "valid_irq f" "irq_handlers st = [Some Timer_handler, Some Keyboard_handler] @ replicate 14 None" "ring_ok st"
  shows "\<exists>st'. irq_handler f st = Some st' \<and> driver_step st st'
    \<and> timer_ticks st' = timer_ticks st + (if irq_line f = 0 then 1 else 0)
    \<and> queue st' = queue st @ (if irq_line f = 1 then accepted st else [])
    \<and> (\<exists>t. trace st' = Outb 0x20 0x20 # (if 8 \<le> irq_line f then [Outb 0xA0 0x20] else []) @ t @ trace st)"
proof -
  let ?r = "run_handler (irq_handlers st ! irq_line f) st"
  let ?e = "outb 0x20 0x20 ((if 8 \<le> irq_line f then outb 0xA0 0x20 else id) ?r)"
  have l: "irq_line f < 16" using irq_number [OF assms(1)] by simp
  have h: "irq_handlers st ! irq_line f = (if irq_line f = 0 then Some Timer_handler
      else if irq_line f = 1 then Some Keyboard_handler else None)"
    using l unfolding assms(2) by (auto simp: nth_append nth_Cons split: nat.split)
  have q: "queue (outb p v s) = queue s" "timer_ticks (outb p v s) = timer_ticks s" for p v and s :: "'b kbd_scheme"
    by (simp_all add: outb_def queue_def ring_len_def)
  have t: "trace (keyboard_handler st) = Inb 0x60 (dev st (trace st) 0x60) # trace st"
    by (simp add: keyboard_handler_def keyboard_key_def buffer_put_def inb_def Let_def KEYBOARD_DATA_PORT_def)
  have same: "same_keys st (timer_handler st)" by (simp add: same_keys_def timer_handler_def)
  have "driver_step st ?e" by (auto intro: driver_step_trans [OF _ driver_outb] driver_run)
  moreover have "timer_ticks ?e = timer_ticks st + (if irq_line f = 0 then 1 else 0)"
    by (simp add: q h run_handler_def timer_handler_def)
  moreover have "queue ?e = queue st @ (if irq_line f = 1 then accepted st else [])"
    using keyboard_handler_spec(2) [OF assms(3)] same_keys_queue [OF same] by (simp add: q h run_handler_def)
  moreover have "\<exists>t. trace ?e = Outb 0x20 0x20 # (if 8 \<le> irq_line f then [Outb 0xA0 0x20] else []) @ t @ trace st"
    by (rule exI [of _ "if irq_line f = 1 then [Inb 0x60 (dev st (trace st) 0x60)] else []"])
      (auto simp: h run_handler_def t timer_handler_def)
  ultimately show ?thesis by (simp add: irq_handler_eq [OF assms(1)])
qed

text \<open>
  C36: \<^verbatim>\<open>timer_sleep_ticks\<close> returns as soon as the requested ticks have passed: if the interrupts to
  come hold enough timer ticks (and the counter does not wrap), it returns after the first batch that
  completes them, not earlier and not later, and only interrupts have changed the machine.
\<close>
theorem timer_sleep_returns:
  assumes "ticking st" "valid_batches (irqs st)"
    and "unat n \<le> sum_list (map timers (irqs st))"
    and "unat (timer_ticks st) + sum_list (map timers (irqs st)) < 2 ^ 32"
  shows "\<exists>k st'. timer_sleep_ticks n st = Some st' \<and> waited k st st'
    \<and> unat n \<le> sum_list (map timers (take k (irqs st)))
    \<and> (\<forall>j<k. sum_list (map timers (take j (irqs st))) < unat n)"
proof -
  have e: "unat (timer_ticks st + n) = unat (timer_ticks st) + unat n" using assms(3,4) by (simp add: unat_plus_no_wrap)
  from sleep_loop_returns [OF assms(1,2,4), of "timer_ticks st + n"] assms(3) obtain k st'
    where k: "sleep_loop (timer_ticks st + n) st = Some st'" "waited k st st'"
      "unat (timer_ticks st) + unat n \<le> unat (timer_ticks st')"
      "\<forall>j<k. sum_list (map timers (take j (irqs st))) < unat n" by (auto simp: e)
  have "sum_list (map timers (take k (irqs st))) \<le> sum_list (map timers (irqs st))"
    by (metis append_take_drop_id le_add1 map_append sum_list_append)
  then have "unat (timer_ticks st') = unat (timer_ticks st) + sum_list (map timers (take k (irqs st)))"
    using k(2) assms(4) by (simp add: waited_def unat_plus_no_wrap)
  with k show ?thesis by (auto simp: timer_sleep_ticks_def)
qed

text \<open>A machine with the kernel's handlers in place, the file system of the start state, and no keys.\<close>

definition frame_of :: "u32 \<Rightarrow> interrupt_frame" where
  "frame_of n = \<lparr>int_no = n, err_code = 0, eip = 0x10000, cs_sel = 8, eflags = 0x202\<rparr>"

definition demo_machine :: "u32 \<Rightarrow> u8 list \<Rightarrow> interrupt_frame list list \<Rightarrow> machine" where
  "demo_machine ticks keys bs = \<lparr>dev = \<lambda>_ _. 0x1E, trace = [], int_flag = True, vga_row = 0, vga_col = 0, vga_color = 7,
     vga_buffer = \<lambda>_. 0, isr_stub = \<lambda>_. 0, irq_stub = \<lambda>_. 0, idt_addr = 0, idtp_addr = 0, idt_tab = [],
     idtp_limit = 0, idtp_base = 0,
     irq_handlers = [Some Timer_handler, Some Keyboard_handler] @ replicate 14 None,
     timer_ticks = ticks, timer_frequency = 100,
     keyboard_buffer = keys @ replicate (256 - length keys) 0, buffer_start = 0, buffer_end = of_nat (length keys),
     shift_pressed = False, ctrl_pressed = False, alt_pressed = False, capslock_on = False,
     irqs = bs, fsys = boot_fs, command_buffer = 0x20000, list_buffer = 0x30000\<rparr>"

lemma demo_machine_ok:
  assumes "length ks < 256"
  shows "ring_ok (demo_machine t ks bs)" "queue (demo_machine t ks bs) = ks" "cursor_ok (demo_machine t ks bs)"
    "ticking (demo_machine t ks bs)"
proof -
  show "ring_ok (demo_machine t ks bs)" using assms by (simp add: demo_machine_def ring_ok_def)
  have "ring_len (demo_machine t ks bs) = length ks" using assms by (simp add: demo_machine_def ring_len_def)
  then show "queue (demo_machine t ks bs) = ks"
    using assms by (intro nth_equalityI) (simp_all add: queue_def, simp add: demo_machine_def nth_append)
  show "cursor_ok (demo_machine t ks bs)" by (simp add: demo_machine_def cursor_ok_def)
  have "([Some Timer_handler, Some Keyboard_handler] @ replicate 14 None) ! i = Some Timer_handler \<longleftrightarrow> i = 0" if "i < 16" for i
    using that by (auto simp: nth_append nth_Cons split: nat.split)
  then show "ticking (demo_machine t ks bs)" by (simp add: ticking_def demo_machine_def)
qed

lemma demo_machine_sel: "irqs (demo_machine t ks bs) = bs" "timer_ticks (demo_machine t ks bs) = t"
  "irq_handlers (demo_machine t ks bs) = [Some Timer_handler, Some Keyboard_handler] @ replicate 14 None"
  by (simp_all add: demo_machine_def)

lemma frame_of_line [simp]: "irq_line (frame_of n) = unat n - 32" "valid_irq (frame_of n) \<longleftrightarrow> 32 \<le> unat n \<and> unat n < 48"
  by (simp_all add: frame_of_def irq_line_def valid_irq_def)

theorem irq_dispatch_witness:
  "\<exists>st'. irq_handler (frame_of 32) (demo_machine 5 [] []) = Some st' \<and> timer_ticks st' = 6"
  using irq_dispatch [of "frame_of 32" "demo_machine 5 [] []"] demo_machine_ok(1) [of "[]" 5 "[]"]
  by (auto simp: demo_machine_sel)

theorem timer_sleep_returns_witness:
  "\<exists>st'. timer_sleep_ticks 2 (demo_machine 5 [] (replicate 3 [frame_of 33, frame_of 32])) = Some st' \<and> irqs st' = [[frame_of 33, frame_of 32]]"
proof -
  let ?st = "demo_machine 5 [] (replicate 3 [frame_of 33, frame_of 32])"
  have t: "ticking ?st" by (rule demo_machine_ok(4)) simp
  have r: "replicate 3 b = [b, b, b]" for b :: "interrupt_frame list" by (simp add: numeral_3_eq_3)
  from timer_sleep_returns [OF t, of 2] obtain k st' where k: "timer_sleep_ticks 2 ?st = Some st'" "waited k ?st st'"
    "2 \<le> sum_list (map timers (take k (irqs ?st)))" "\<forall>j<k. sum_list (map timers (take j (irqs ?st))) < 2"
    by (auto simp: demo_machine_sel r)
  have "k = 2"
  proof (rule antisym)
    have "\<not> 2 < k" using k(4) [rule_format, of 2] by (auto simp: demo_machine_sel r numeral_2_eq_2)
    then show "k \<le> 2" by simp
    show "2 \<le> k" using k(3) by (cases k; cases "k - 1") (auto simp: demo_machine_sel r)
  qed
  then have "irqs st' = [[frame_of 33, frame_of 32]]" using waited_irqs [OF k(2)] by (simp add: demo_machine_sel r numeral_2_eq_2)
  with k(1) show ?thesis by blast
qed

text \<open>
  C37: \<^verbatim>\<open>timer_sleep_ticks\<close> does not sleep at all when the end tick wraps around: near the end of the
  counter's range any request that passes it returns at once, with nothing changed.
\<close>
theorem timer_sleep_wraps:
  assumes "2 ^ 32 \<le> unat (timer_ticks st) + unat n"
  shows "timer_sleep_ticks n st = Some st"
proof -
  have "unat (timer_ticks st + n) = (unat (timer_ticks st) + unat n) mod 2 ^ 32" by (simp add: unat_word_ariths)
  also have "\<dots> = unat (timer_ticks st) + unat n - 2 ^ 32"
    using assms unat_u32_lt [of "timer_ticks st"] unat_u32_lt [of n] by (simp add: mod_if)
  also have "\<dots> \<le> unat (timer_ticks st)" using unat_u32_lt [of n] by simp
  finally have "\<not> timer_ticks st < timer_ticks st + n" by (simp add: word_less_nat_alt)
  then show ?thesis unfolding timer_sleep_ticks_def by (subst sleep_loop.simps) simp
qed

theorem timer_sleep_wraps_witness:
  "timer_sleep_ticks 100 (demo_machine 0xFFFFFFF0 [] []) = Some (demo_machine 0xFFFFFFF0 [] [])"
  by (rule timer_sleep_wraps) (simp add: demo_machine_sel)

text \<open>
  C38: \<^verbatim>\<open>keyboard_readline\<close> is a line editor on the keys typed: it returns when Enter is pressed or the
  buffer is full, with the edited line (Backspace removes the last character) and a terminating NUL in
  the buffer and its length as the result; it consumes just the keys of the line, echoes each
  accepted key on the console, and changes nothing outside the buffer.
\<close>
theorem readline_edits:
  assumes "line_read n [] (queue st) = Some (line, echo, rest)" "ring_ok st" "cursor_ok st"
    and "unat max_length = n + 1" "unat buffer + n < 2 ^ 32"
  shows "\<exists>st'. keyboard_readline buffer max_length st = Some (of_nat (length line), st')
    \<and> queue st' = rest \<and> length line \<le> n \<and> bytes_at (mem_of st') buffer (length line) = line
    \<and> mem_of st' (buffer + of_nat (length line)) = 0
    \<and> line_frame (range_of (unat buffer) (n + 1)) echo st st'"
  by (rule readline_spec [OF assms])

theorem readline_edits_witness:
  "\<exists>st'. keyboard_readline 0x20000 256 (demo_machine 0 [108, 115, 115, 8, 10, 97] []) = Some (2, st')
    \<and> bytes_at (mem_of st') 0x20000 2 = [108, 115] \<and> queue st' = [97]"
proof -
  let ?ks = "[108, 115, 115, 8, 10, 97] :: u8 list"
  have l: "length ?ks < 256" by simp
  have "line_read 255 [] ?ks = Some ([108, 115], [108, 115, 115, 8, 10], [97])" by (simp add: echoing_def)
  from readline_edits [of 255 "demo_machine 0 ?ks []" _ _ _ 256 "0x20000", unfolded demo_machine_ok(2) [OF l], OF this
      demo_machine_ok(1,3) [OF l]]
  have "\<exists>st'. keyboard_readline 0x20000 256 (demo_machine 0 ?ks []) = Some (2, st')
    \<and> bytes_at (mem_of st') 0x20000 (Suc (Suc 0)) = [108, 115] \<and> queue st' = [97]" by auto
  then show ?thesis by (simp only: numeral_2_eq_2)
qed

section \<open>Waiting for a key\<close>

text \<open>\<open>n\<close> executions of \<^verbatim>\<open>hlt\<close>.\<close>

primrec halts :: "nat \<Rightarrow> 'a machine_scheme \<Rightarrow> 'a machine_scheme option" where
  "halts 0 st = Some st"
| "halts (Suc n) st = do { st1 \<leftarrow> halt st; halts n st1 }"

lemma halt_waited:
  assumes "ticking st" "valid_batches (irqs st)" "halt st = Some st1"
  shows "waited 1 st st1" "ticking st1" "valid_batches (irqs st1)"
proof -
  from assms obtain b bs where b: "irqs st = b # bs" by (auto simp: halt_def split: if_splits list.splits)
  from halt_step [OF assms(1) b] assms(2,3) b show w: "waited 1 st st1" "ticking st1" by auto
  show "valid_batches (irqs st1)" using waited_irqs [OF w(1)] b assms(2) by simp
qed

lemma waited_queue:
  assumes "waited k st s" "ring_ok st"
  shows "ring_ok s" "\<exists>ks. queue s = queue st @ ks"
proof -
  have "ring_ok (st\<lparr>irqs := drop k (irqs st)\<rparr>) = ring_ok st" "queue (st\<lparr>irqs := drop k (irqs st)\<rparr>) = queue st"
    by (simp_all add: ring_ok_def queue_def ring_len_def)
  with assms show "ring_ok s" "\<exists>ks. queue s = queue st @ ks" by (auto simp: waited_def driver_step_def)
qed

lemma halts_waited: "ticking st \<Longrightarrow> valid_batches (irqs st) \<Longrightarrow> halts n st = Some s \<Longrightarrow> waited n st s"
proof (induction n arbitrary: st)
  case (Suc n)
  then obtain st1 where 1: "halt st = Some st1" "halts n st1 = Some s" by (auto split: bind_splits)
  note h = halt_waited [OF Suc.prems(1,2) 1(1)]
  from waited_trans [OF h(1) Suc.IH [OF h(2,3) 1(2)]] show ?case by simp
qed simp

lemma getchar_waiting:
  assumes "ticking st" "ring_ok st" "valid_batches (irqs st)" "halts n st = Some s" "queue s = c # ks"
  shows "\<exists>j\<le>n. \<exists>s' t. halts j st = Some s' \<and> waited j st s' \<and> (\<forall>i<j. \<exists>u. halts i st = Some u \<and> queue u = [])
    \<and> keyboard_getchar st = Some (c, t) \<and> queue s' = c # queue t \<and> irqs t = irqs s'"
  using assms
proof (induction n arbitrary: st)
  case 0
  then obtain t where "keyboard_getchar st = Some (c, t)" "queue t = ks" "same_drivers st t"
    using getchar_ready [of st c ks] by auto
  with 0 show ?case by (auto simp: same_drivers_def)
next
  case (Suc n)
  show ?case
  proof (cases "queue st")
    case (Cons d ds)
    from waited_queue(2) [OF halts_waited [OF Suc.prems(1,3,4)] Suc.prems(2)] Suc.prems(5) Cons have "d = c" by auto
    moreover from getchar_ready [OF Suc.prems(2) Cons] obtain t where
      "keyboard_getchar st = Some (d, t)" "queue t = ds" "same_drivers st t" by auto
    ultimately show ?thesis
      using Cons by (intro exI [of _ 0]) (auto simp: same_drivers_def)
  next
    case Nil
    from Suc.prems(4) obtain st1 where 1: "halt st = Some st1" "halts n st1 = Some s" by (auto split: bind_splits)
    note h = halt_waited [OF Suc.prems(1,3) 1(1)]
    from Suc.IH [OF h(2) waited_queue(1) [OF h(1) Suc.prems(2)] h(3) 1(2) Suc.prems(5)] obtain j s' t where
      j: "j \<le> n" "halts j st1 = Some s'" "waited j st1 s'" "\<forall>i<j. \<exists>u. halts i st1 = Some u \<and> queue u = []"
        "keyboard_getchar st1 = Some (c, t)" "queue s' = c # queue t" "irqs t = irqs s'" by blast
    have "\<not> keyboard_has_key st" using has_key_queue [OF Suc.prems(2)] Nil by simp
    then have "keyboard_getchar st = keyboard_getchar st1"
      using 1(1) unfolding keyboard_getchar_def by (subst key_wait.simps) simp
    moreover have "\<exists>u. halts i st = Some u \<and> queue u = []" if "i < Suc j" for i
      using that j(4) 1(1) Nil by (cases i) auto
    moreover have "waited (Suc j) st s'" using waited_trans [OF h(1) j(3)] by simp
    ultimately show ?thesis using j 1(1) by (intro exI [of _ "Suc j"]) auto
  qed
qed

text \<open>
  C34: \<^verbatim>\<open>keyboard_getchar\<close> waits for a key and loses none: with an empty buffer it halts until the first
  batch of interrupts that brings a key, and returns the first key that arrived; keys of the same
  batch stay in the buffer, and no further interrupt is consumed.
\<close>
theorem getchar_waits:
  assumes "ticking st" "ring_ok st" "valid_batches (irqs st)" "halts n st = Some s" "queue s = c # ks"
  shows "\<exists>j\<le>n. \<exists>s' t. halts j st = Some s' \<and> waited j st s' \<and> (\<forall>i<j. \<exists>u. halts i st = Some u \<and> queue u = [])
    \<and> keyboard_getchar st = Some (c, t) \<and> queue s' = c # queue t \<and> irqs t = irqs s'"
  by (rule getchar_waiting [OF assms])

theorem getchar_waits_witness:
  "\<exists>t. keyboard_getchar (demo_machine 0 [] [[frame_of 32], [frame_of 33]]) = Some (97, t)"
proof -
  let ?st = "demo_machine 0 [] [[frame_of 32], [frame_of 33]]"
  have ok: "ring_ok ?st" "ticking ?st" by (rule demo_machine_ok, simp)+
  have v: "valid_batches (irqs ?st)" by (simp add: demo_machine_sel)
  define s0 where "s0 = ?st\<lparr>irqs := [[frame_of 33]]\<rparr>"
  define s1 where "s1 = outb 0x20 0x20 (timer_handler s0)"
  define s2 where "s2 = s1\<lparr>irqs := []\<rparr>"
  define s3 where "s3 = outb 0x20 0x20 (keyboard_handler s2)"
  have a: "us_key 30 False False False = 97" by (rule us_key_a)
  have q2: "ring_ok s2" "queue s2 = []" "accepted s2 = [97]"
    by (simp_all add: s2_def s1_def s0_def demo_machine_def outb_def timer_handler_def ring_ok_def queue_def ring_len_def
        accepted_def typed_char_def modifier_keys_def scancodes a)
  have "irq_handlers s1 ! 1 = Some Keyboard_handler" "int_flag s1" "irqs s1 = [[frame_of 33]]"
    by (simp_all add: s1_def s0_def demo_machine_def outb_def timer_handler_def)
  then have "halt s1 = Some s3" by (simp add: halt_def irq_handler_eq run_handler_def s2_def [symmetric] s3_def)
  moreover have "irqs ?st = [[frame_of 32], [frame_of 33]]" "irq_handlers ?st ! 0 = Some Timer_handler" "int_flag ?st"
    by (simp_all add: demo_machine_def)
  then have "halt ?st = Some s1" by (simp add: halt_def irq_handler_eq run_handler_def s0_def s1_def)
  ultimately have h: "halts (Suc (Suc 0)) ?st = Some s3" by simp
  have "queue s3 = queue (keyboard_handler s2)" by (simp add: s3_def outb_def queue_def ring_len_def)
  then have s: "queue s3 = [97]" using keyboard_handler_spec(2) [OF q2(1)] q2(2,3) by simp
  from getchar_waits [OF ok(2,1) v h s] show ?thesis by blast
qed

end
