(* ===== verification/Shell_Parse.thy ===== *)
theory Shell_Parse
  imports Shell
begin

text \<open>
  The command line parser cuts the line in memory into the words of the line, at most sixteen, each a
  string of its own.
\<close>

section \<open>Words of a line\<close>

definition blank :: "u8 \<Rightarrow> bool" where
  "blank c \<longleftrightarrow> c = 32 \<or> c = 9"

function words :: "u8 list \<Rightarrow> u8 list list" where
  "words s =
     (if dropWhile blank s = [] then []
      else takeWhile (\<lambda>c. \<not> blank c) (dropWhile blank s) # words (dropWhile (\<lambda>c. \<not> blank c) (dropWhile blank s)))"
  by pat_completeness auto
termination
proof (relation "measure length")
  fix s :: "u8 list" assume "dropWhile blank s \<noteq> []"
  then obtain c cs where d: "dropWhile blank s = c # cs" "\<not> blank c" using hd_dropWhile by (metis list.exhaust list.sel(1))
  have "length (dropWhile (\<lambda>c. \<not> blank c) (dropWhile blank s)) \<le> length cs"
    using d by (simp add: length_dropWhile_le)
  also have "length cs < length (dropWhile blank s)" using d by simp
  also have "\<dots> \<le> length s" by (rule length_dropWhile_le)
  finally show "(dropWhile (\<lambda>c. \<not> blank c) (dropWhile blank s), s) \<in> measure length" by simp
qed simp

declare words.simps [simp del]

section \<open>Scanning\<close>

lemma skip_blanks_eq:
  "cstr m (Ptr p) s \<Longrightarrow> skip_blanks m p = Some (p + of_nat (length (takeWhile blank s)))"
proof (induction s arbitrary: p)
  case Nil
  then show ?case by (subst skip_blanks.simps) simp
next
  case (Cons c s)
  then show ?case by (subst skip_blanks.simps) (auto simp: blank_def [of c] algebra_simps)
qed

lemma skip_word_eq:
  "cstr m (Ptr p) s \<Longrightarrow> skip_word m p = Some (p + of_nat (length (takeWhile (\<lambda>c. \<not> blank c) s)))"
proof (induction s arbitrary: p)
  case Nil
  then show ?case by (subst skip_word.simps) simp
next
  case (Cons c s)
  then show ?case by (subst skip_word.simps) (auto simp: blank_def [of c] algebra_simps)
qed

lemma cstr_split:
  assumes "cstr m (Ptr p) s"
  shows "bytes_at m p (length (takeWhile P s)) = takeWhile P s" "0 \<notin> set (takeWhile P s)"
    "cstr m (Ptr (p + of_nat (length (takeWhile P s)))) (dropWhile P s)"
  using assms cstr_append [of m p "takeWhile P s" "dropWhile P s"] by simp_all

text \<open>The word argument \<open>a\<close> of the parsed line: its string, inside the line from \<open>p\<close> on.\<close>

definition arg_ok :: "mem \<Rightarrow> nat \<Rightarrow> nat \<Rightarrow> addr \<Rightarrow> u8 list \<Rightarrow> bool" where
  "arg_ok m p n a w \<longleftrightarrow> cstr m (Ptr a) w \<and> p \<le> unat a \<and> unat a + length w \<le> p + n"

text \<open>The first word of the rest of the line: where it begins and ends.\<close>

lemma next_word:
  assumes c: "cstr m (Ptr p) s" "unat p + length s < 2 ^ 32" and ne: "dropWhile blank s \<noteq> []"
  obtains p1 p2 w r where "skip_blanks m p = Some p1" "m p1 \<noteq> 0" "skip_word m p1 = Some p2"
    "words s = w # words r" "bytes_at m p1 (length w) = w" "0 \<notin> set w" "cstr m (Ptr p2) r" "unat p \<le> unat p1"
    "unat p2 = unat p1 + length w" "unat p2 + length r = unat p + length s" "p2 = p1 + of_nat (length w)"
    "\<And>c r'. r = c # r' \<Longrightarrow> words r = words r'"
proof -
  let ?b = "takeWhile blank s" and ?d = "dropWhile blank s"
  let ?w = "takeWhile (\<lambda>c. \<not> blank c) ?d" and ?r = "dropWhile (\<lambda>c. \<not> blank c) ?d"
  define p1 where "p1 = p + of_nat (length ?b)"
  define p2 where "p2 = p1 + of_nat (length ?w)"
  have len: "length ?b + length ?d = length s" "length ?w + length ?r = length ?d"
    by (metis length_append takeWhile_dropWhile_id)+
  have c1: "cstr m (Ptr p1) ?d" using cstr_split(3) [OF c(1), of blank] by (simp add: p1_def)
  note sp = cstr_split [OF c1, of "\<lambda>c. \<not> blank c", folded p2_def]
  have u1: "unat p1 = unat p + length ?b" using c(2) len unfolding p1_def by (intro unat_offset) simp
  have u2: "unat p2 = unat p1 + length ?w" using c(2) len u1 unfolding p2_def by (intro unat_offset) simp
  show thesis
  proof (rule that [of p1 p2 ?w ?r])
    show "skip_blanks m p = Some p1" using skip_blanks_eq [OF c(1)] by (simp add: p1_def)
    show "m p1 \<noteq> 0" using c1 ne by (cases ?d) auto
    show "skip_word m p1 = Some p2" using skip_word_eq [OF c1] by (simp add: p2_def)
    show "words s = ?w # words ?r" using ne by (subst words.simps) simp
    show "words ?r = words r'" if "?r = c # r'" for c r'
      using that dropWhile_eq_Cons_conv [of "\<lambda>c. \<not> blank c" ?d c r'] by (simp add: words.simps [of "c # r'"] words.simps [of r'])
  qed (use sp u1 u2 len in \<open>simp_all add: p2_def\<close>)
qed

text \<open>The word ended by a NUL of its own, and the parser beyond it.\<close>

lemma word_cut:
  assumes w: "bytes_at m p1 (length w) = w" "0 \<notin> set w" and u: "unat p2 = unat p1 + length w" "unat p2 + Suc k < 2 ^ 32"
    "p2 = p1 + of_nat (length w)" and ag: "agree_on (- range_of (unat p2 + 1) k) (m(p2 := 0)) m'"
  shows "cstr m' (Ptr p1) w"
proof -
  have m: "agree_on (range_of (unat p1) (length w)) m (m(p2 := 0))" using u(1) by (intro agree_on_upd agree_on_refl) simp
  have "bytes_at (m(p2 := 0)) p1 (length w) = w" using bytes_at_cong [OF m] w(1) u by simp
  then have "cstr (m(p2 := 0)) (Ptr p1) w" using w(2) by (simp add: cstr_Ptr u(3))
  moreover have "agree_on (cspan (Ptr p1) (Suc (length w))) (m(p2 := 0)) m'"
    by (rule agree_on_mono [OF ag]) (use u(1) in auto)
  ultimately show ?thesis using cstr_cong [of "Ptr p1" w "m(p2 := 0)" m'] u by simp
qed

lemma parse_loop_spec:
  assumes "cstr m (Ptr p) s" "unat p + length s < 2 ^ 32"
  shows "\<exists>as m'. parse_loop m p argv max_args = Some (argv @ as, m')
    \<and> list_all2 (arg_ok m' (unat p) (length s)) as (take (max_args - length argv) (words s))
    \<and> agree_on (- range_of (unat p) (length s)) m m'"
  using assms
proof (induction s arbitrary: m p argv rule: measure_induct_rule [where f = length])
  case (less s)
  consider (stop) "\<not> (m p \<noteq> 0 \<and> length argv < max_args)" | (blank) "m p \<noteq> 0 \<and> length argv < max_args" "dropWhile blank s = []"
    | (word) "m p \<noteq> 0 \<and> length argv < max_args" "dropWhile blank s \<noteq> []" by blast
  then show ?case
  proof cases
    case stop
    then have "take (max_args - length argv) (words s) = []"
      using less.prems(1) by (cases s) (auto simp: words.simps)
    with stop show ?thesis by (subst parse_loop.simps) (auto simp: agree_on_refl)
  next
    case blank
    then have "m (p + of_nat (length (takeWhile blank s))) = 0" using cstr_split(3) [OF less.prems(1), of blank] unfolding blank(2) by simp
    with blank skip_blanks_eq [OF less.prems(1)] show ?thesis
      by (subst parse_loop.simps) (simp add: words.simps agree_on_refl)
  next
    case word
    note go = word(1)
    obtain p1 p2 w r where W: "skip_blanks m p = Some p1" "m p1 \<noteq> 0" "skip_word m p1 = Some p2"
      "words s = w # words r" "bytes_at m p1 (length w) = w" "0 \<notin> set w" "cstr m (Ptr p2) r" "unat p \<le> unat p1"
      "unat p2 = unat p1 + length w" "unat p2 + length r = unat p + length s" "p2 = p1 + of_nat (length w)"
      "\<And>c r'. r = c # r' \<Longrightarrow> words r = words r'"
      by (rule next_word [OF less.prems word(2)]) blast
    have tk: "take (max_args - length argv) (words s) = w # take (max_args - length (argv @ [p1])) (words r)"
      using go by (simp add: W(4) take_Cons')
    show ?thesis
    proof (cases r)
      case Nil
      have e: "m p2 = 0" using W(7) unfolding Nil by simp
      have "parse_loop m p argv max_args = parse_loop m p2 (argv @ [p1]) max_args"
        using go W(1-3) e by (subst parse_loop.simps) simp
      also have "\<dots> = Some (argv @ [p1], m)" using e by (subst parse_loop.simps) simp
      finally have run: "parse_loop m p argv max_args = Some (argv @ [p1], m)" .
      have "cstr m (Ptr p1) w" using W(5,6,11) e unfolding cstr_Ptr by simp
      then have "arg_ok m (unat p) (length s) p1 w" using W(8-10) by (simp add: arg_ok_def)
      moreover have "words r = []" unfolding Nil by (simp add: words.simps)
      ultimately show ?thesis using run tk by (intro exI [of _ "[p1]"] exI [of _ m]) (simp add: agree_on_refl)
    next
      case (Cons c r')
      let ?m = "m(p2 := 0)"
      have e: "m p2 \<noteq> 0" "cstr m (Ptr (p2 + 1)) r'" using W(7) Cons by auto
      have len: "unat p2 + Suc (length r') = unat p + length s" using W(10) Cons by simp
      have u3: "unat (p2 + 1) = unat p2 + 1" using less.prems(2) len by (intro unat_Suc_no_wrap) simp
      have fit: "unat (p2 + 1) + length r' < 2 ^ 32" using less.prems(2) len u3 by simp
      have "agree_on (range_of (unat (p2 + 1)) (Suc (length r'))) m ?m" using u3 by (intro agree_on_upd agree_on_refl) simp
      then have c3: "cstr ?m (Ptr (p2 + 1)) r'" using cstr_cong [of "Ptr (p2 + 1)" r' m ?m] e(2) fit by simp
      have "length r' < length s" using W(8,9) len by linarith
      from less.IH [OF this c3 fit, of "argv @ [p1]"] obtain as m'
        where r: "parse_loop ?m (p2 + 1) (argv @ [p1]) max_args = Some ((argv @ [p1]) @ as, m')"
          "list_all2 (arg_ok m' (unat (p2 + 1)) (length r')) as (take (max_args - length (argv @ [p1])) (words r'))"
          "agree_on (- range_of (unat (p2 + 1)) (length r')) ?m m'" by blast
      have run: "parse_loop m p argv max_args = Some (argv @ p1 # as, m')"
        using go W(1-3) e(1) r(1) by (subst parse_loop.simps) simp
      have "arg_ok m' (unat p) (length s) a v" if "arg_ok m' (unat (p2 + 1)) (length r') a v" for a v
        using that len u3 W(8,9) by (auto simp: arg_ok_def)
      then have "list_all2 (arg_ok m' (unat p) (length s)) as (take (max_args - length (argv @ [p1])) (words r))"
        using r(2) unfolding W(12) [OF Cons] by (rule list_all2_mono [rotated])
      moreover have "cstr m' (Ptr p1) w"
        by (rule word_cut [OF W(5,6,9) _ W(11)]) (use fit u3 r(3) in simp_all)
      then have "arg_ok m' (unat p) (length s) p1 w" using W(8-10) by (simp add: arg_ok_def)
      moreover have "agree_on (- range_of (unat p) (length s)) m m'"
      proof (rule agree_on_trans)
        show "agree_on (- range_of (unat p) (length s)) m ?m"
          using W(8,9) len by (intro agree_on_upd agree_on_refl) auto
        show "agree_on (- range_of (unat p) (length s)) ?m m'"
          by (rule agree_on_mono [OF r(3)]) (use W(8,9) u3 len in auto)
      qed
      ultimately show ?thesis using run tk by (intro exI [of _ "p1 # as"] exI [of _ m']) simp
    qed
  qed
qed

lemma parse_args_spec:
  assumes "cstr m (Ptr p) s" "unat p + length s < 2 ^ 32"
  shows "\<exists>argv m'. parse_args m p n = Some (argv, m')
    \<and> list_all2 (arg_ok m' (unat p) (length s)) argv (take n (words s))
    \<and> agree_on (- range_of (unat p) (length s)) m m'"
  using parse_loop_spec [OF assms, of "[]" n] by (simp add: parse_args_def)

text \<open>
  \<^verbatim>\<open>parse_args\<close> on a terminated line returns the first \<open>n\<close> words of the line, in order, blanks and
  tabs separating them: each \<^verbatim>\<open>argv\<close> entry points into the line and is a terminated string equal to its
  word; nothing outside the line is written, and the terminating NUL of the line stays.
\<close>
theorem parse_args_words:
  assumes "cstr m (Ptr p) s" "unat p + length s < 2 ^ 32"
  shows "\<exists>argv m'. parse_args m p n = Some (argv, m')
    \<and> list_all2 (arg_ok m' (unat p) (length s)) argv (take n (words s))
    \<and> agree_on (- range_of (unat p) (length s)) m m'"
  by (rule parse_args_spec [OF assms])

theorem parse_args_words_witness:
  "\<exists>argv m'. parse_args (text_mem 0x20000 '' echo  hi'') 0x20000 16 = Some (argv, m') \<and> length argv = 2
    \<and> cstr m' (Ptr (argv ! 1)) (bytes ''hi'')"
proof -
  have c: "cstr (text_mem 0x20000 '' echo  hi'') (Ptr 0x20000) (bytes '' echo  hi'')"
    by (rule cstr_text_mem) simp_all
  have w: "words (bytes '' echo  hi'') = [bytes ''echo'', bytes ''hi'']"
    by (simp add: words.simps blank_def)
  from parse_args_words [OF c, of 16] obtain argv m' where
    r: "parse_args (text_mem 0x20000 '' echo  hi'') 0x20000 16 = Some (argv, m')"
    "list_all2 (arg_ok m' 0x20000 (length '' echo  hi'')) argv [bytes ''echo'', bytes ''hi'']" unfolding w by auto
  then have "length argv = 2 \<and> cstr m' (Ptr (argv ! 1)) (bytes ''hi'')"
    by (auto simp: list_all2_Cons2 arg_ok_def)
  with r(1) show ?thesis by blast
qed

end
