(* ===== verification/Shell_Inv.thy ===== *)
theory Shell_Inv
  imports Ramfs_List Machine_Props Shell_Parse
begin

text \<open>
  The invariant of the running shell, the relation every command respects, and the rules that carry
  both through a command's text: a command that only prints, a call of the file system, and a
  temporary change to the shell's own buffers.
\<close>

section \<open>The invariant\<close>

abbreviation cmd_set :: "'a machine_scheme \<Rightarrow> addr set" where
  "cmd_set st \<equiv> range_of (unat (command_buffer st)) 256"

abbreviation list_set :: "'a machine_scheme \<Rightarrow> addr set" where
  "list_set st \<equiv> range_of (unat (list_buffer st)) 1024"

text \<open>The shell's two arrays lie apart from each other, from the file system's arrays and the heap.\<close>

definition buffers_ok :: "'a machine_scheme \<Rightarrow> bool" where
  "buffers_ok st \<longleftrightarrow> command_buffer st \<noteq> NULL \<and> unat (command_buffer st) + 256 \<le> 2 ^ 32
     \<and> list_buffer st \<noteq> NULL \<and> unat (list_buffer st) + 1024 \<le> 2 ^ 32
     \<and> cmd_set st \<inter> list_set st = {}
     \<and> (cmd_set st \<union> list_set st) \<inter> (table_set (fsys st) \<union> cwd_set (fsys st) \<union> arena) = {}"

definition shell_ok :: "'a machine_scheme \<Rightarrow> bool" where
  "shell_ok st \<longleftrightarrow> cursor_ok st \<and> ring_ok st \<and> timer_frequency st \<noteq> 0 \<and> buffers_ok st \<and> (\<exists>A. fs_rep (fsys st) A)"

text \<open>
  What a command may do: the invariant stays, no interrupt is consumed, no key taken, no driver
  reconfigured, no cell off the screen written, and the words of the command line keep their text.
\<close>

definition shell_step :: "'a machine_scheme \<Rightarrow> 'a machine_scheme \<Rightarrow> bool" where
  "shell_step st st' \<longleftrightarrow> shell_ok st' \<and> same_drivers st st' \<and> queue st' = queue st \<and> off_screen_same st st'
     \<and> file_table (fsys st') = file_table (fsys st) \<and> current_dir (fsys st') = current_dir (fsys st)
     \<and> agree_on (cmd_set st) (mem_of st) (mem_of st')"

lemma shell_step_refl: "shell_ok st \<Longrightarrow> shell_step st st"
  by (simp add: shell_step_def)

lemma shell_step_ok: "shell_step st s \<Longrightarrow> shell_ok s"
  by (simp add: shell_step_def)

lemma shell_step_trans [trans]: "shell_step st s \<Longrightarrow> shell_step s s' \<Longrightarrow> shell_step st s'"
  unfolding shell_step_def
  by (elim conjE, intro conjI)
    (auto intro: same_drivers_trans off_screen_trans agree_on_trans simp: same_drivers_def)

text \<open>A change of memory or file system that the drivers do not notice.\<close>

lemma shell_step_fs:
  assumes "shell_step st s" "fs_rep fs' A'" "file_table fs' = file_table (fsys s)" "current_dir fs' = current_dir (fsys s)"
    and "agree_on (cmd_set st) (mem_of s) (fs_ram fs')"
  shows "shell_step st (s\<lparr>fsys := fs'\<rparr>)"
proof -
  from assms(1) have s: "shell_ok s" "same_drivers st s" "queue s = queue st" "off_screen_same st s"
    "file_table (fsys s) = file_table (fsys st)" "current_dir (fsys s) = current_dir (fsys st)"
    "agree_on (cmd_set st) (mem_of st) (mem_of s)" by (simp_all add: shell_step_def)
  have "shell_ok (s\<lparr>fsys := fs'\<rparr>)"
    using s(1) assms(2-4)
    by (auto simp: shell_ok_def buffers_ok_def cursor_ok_def ring_ok_def table_set_def cwd_set_def)
  moreover have "agree_on (cmd_set st) (mem_of st) (fs_ram fs')" by (rule agree_on_trans [OF s(7) assms(5)])
  ultimately show ?thesis
    using s assms(3,4) by (simp add: shell_step_def same_drivers_def queue_def ring_len_def off_screen_same_def)
qed

lemma shell_step_console:
  assumes "shell_step st s" "console_step s s'"
  shows "shell_step st s'"
proof (rule shell_step_trans [OF assms(1)])
  note c = console_step_machine [OF assms(2)]
  from assms(1) have "shell_ok s" by (simp add: shell_step_def)
  then show "shell_step s s'"
    using c console_same_drivers [OF assms(2)] by (simp add: shell_step_def shell_ok_def buffers_ok_def)
qed

lemma shell_okD:
  assumes "shell_ok st"
  obtains A where "fs_rep (fsys st) A" "cursor_ok st" "ring_ok st" "timer_frequency st \<noteq> 0" "buffers_ok st"
  using assms by (auto simp: shell_ok_def)

lemma heap_ok_total: "heap_ok h \<Longrightarrow> total_memory h = of_nat HEAP_SIZE"
  by (auto simp: heap_ok_def heap_rep_def)

section \<open>Rules for programs\<close>

definition runs :: "'s option \<Rightarrow> ('s \<Rightarrow> bool) \<Rightarrow> bool" where
  "runs r P \<longleftrightarrow> (\<exists>s. r = Some s \<and> P s)"

definition gives :: "('r \<times> 's) option \<Rightarrow> ('s \<Rightarrow> bool) \<Rightarrow> bool" where
  "gives r P \<longleftrightarrow> (\<exists>x s. r = Some (x, s) \<and> P s)"

named_theorems runs \<open>rules for commands\<close>

lemma runs_Some [runs]: "P s \<Longrightarrow> runs (Some s) P"
  by (simp add: runs_def)

lemma runs_bind [runs]: "runs r P \<Longrightarrow> (\<And>s. P s \<Longrightarrow> runs (f s) P) \<Longrightarrow> runs (r \<bind> f) P"
  by (auto simp: runs_def)

lemma gives_bind: "gives r P \<Longrightarrow> (\<And>x s. P s \<Longrightarrow> runs (f x s) P) \<Longrightarrow> runs (r \<bind> (\<lambda>(x, s). f x s)) P"
  by (auto simp: runs_def gives_def)

lemma runs_value: "r = Some x \<Longrightarrow> runs (f x) P \<Longrightarrow> runs (r \<bind> f) P"
  by simp

lemma runs_if [runs]: "(b \<Longrightarrow> runs x P) \<Longrightarrow> (\<not> b \<Longrightarrow> runs y P) \<Longrightarrow> runs (if b then x else y) P"
  by simp

lemma runs_map: "runs r P \<Longrightarrow> \<exists>s. map_option f r = Some (f s) \<and> P s"
  by (auto simp: runs_def)

text \<open>Console output.\<close>

lemma step_color [runs]: "shell_step st s \<Longrightarrow> shell_step st (vga_set_color fg bg s)"
  and step_putchar [runs]: "shell_step st s \<Longrightarrow> shell_step st (vga_putchar c s)"
  and step_pow [runs]: "shell_step st s \<Longrightarrow> shell_step st ((vga_putchar c ^^ n) s)"
  and step_dec [runs]: "shell_step st s \<Longrightarrow> shell_step st (vga_print_dec v s)"
  and step_clear [runs]: "shell_step st s \<Longrightarrow> shell_step st (vga_clear s)"
  by (auto intro: shell_step_console console)

lemma say_runs [runs]: "0 \<notin> set (bytes t) \<Longrightarrow> shell_step st s \<Longrightarrow> runs (say t s) (shell_step st)"
  using say_step [of t s] shell_step_console [of st s] by (auto simp: runs_def)

lemma print_runs: "cstr (mem_of s) p w \<Longrightarrow> shell_step st s \<Longrightarrow> runs (vga_print (mem_of s) p s) (shell_step st)"
  using print_step [of s p w] shell_step_console [of st s] by (auto simp: runs_def)

lemma say_about_runs [runs]:
  assumes "0 \<notin> set (bytes b)" "0 \<notin> set (bytes a)" "shell_step st s" "\<And>s. shell_step st s \<Longrightarrow> \<exists>w. cstr (mem_of s) p w"
  shows "runs (say_about b p a s) (shell_step st)"
  unfolding say_about_def
proof (intro runs assms(1,2), rule assms(3))
  fix s assume s: "shell_step st s"
  then obtain w where "cstr (mem_of s) p w" using assms(4) by blast
  from print_runs [OF this s] show "runs (vga_print (mem_of s) p s) (shell_step st)" .
qed

lemma colored_runs [runs]:
  "(\<And>s. shell_step st s \<Longrightarrow> runs (body s) (shell_step st)) \<Longrightarrow> shell_step st s \<Longrightarrow>
    runs (colored fg body s) (shell_step st)"
  unfolding colored_def by (auto intro!: runs)

section \<open>Arguments\<close>

text \<open>The arguments are words in the command line.\<close>

definition args_ok :: "'a machine_scheme \<Rightarrow> addr list \<Rightarrow> bool" where
  "args_ok st argv \<longleftrightarrow> (\<forall>a\<in>set argv. \<exists>w. arg_ok (mem_of st) (unat (command_buffer st)) 255 a w)"

lemma shell_step_sel:
  assumes "shell_step st s"
  shows "command_buffer s = command_buffer st" "list_buffer s = list_buffer st"
    "agree_on (cmd_set st) (mem_of st) (mem_of s)"
  using assms by (simp_all add: shell_step_def same_drivers_def)

lemma arg_kept:
  assumes "shell_ok st" "shell_step st s" "arg_ok (mem_of st) (unat (command_buffer st)) 255 a w"
  shows "arg_ok (mem_of s) (unat (command_buffer st)) 255 a w"
proof -
  have b: "unat (command_buffer st) + 256 \<le> 2 ^ 32" using assms(1) by (simp add: shell_ok_def buffers_ok_def)
  from assms(3) have "cspan (Ptr a) (Suc (length w)) \<subseteq> cmd_set st" by (auto simp: arg_ok_def)
  from agree_on_mono [OF shell_step_sel(3) [OF assms(2)] this] b assms(3) show ?thesis
    using cstr_cong [of "Ptr a" w "mem_of st" "mem_of s"] by (simp add: arg_ok_def)
qed

lemma arg_name:
  assumes "shell_ok st" "arg_ok (mem_of st) (unat (command_buffer st)) 255 a w"
  shows "name_arg (fsys st) (Ptr a) w"
proof -
  have b: "unat (command_buffer st) + 256 \<le> 2 ^ 32" "command_buffer st \<noteq> NULL"
    "cmd_set st \<inter> table_set (fsys st) = {}" "cmd_set st \<inter> range_of (unat (current_dir (fsys st))) 32 = {}"
    using assms(1) by (auto simp: shell_ok_def buffers_ok_def cwd_set_def)
  have w: "cstr (mem_of st) (Ptr a) w" "unat (command_buffer st) \<le> unat a"
    "unat a + length w \<le> unat (command_buffer st) + 255"
    using assms(2) by (simp_all add: arg_ok_def)
  have "0 < unat (command_buffer st)" using b(2) by (simp add: unat_gt_0)
  then have "a \<noteq> NULL" using w(2) by auto
  moreover have "range_of (unat a) (Suc (length w)) \<subseteq> cmd_set st" using w by auto
  then have "range_of (unat a) (Suc (length w)) \<inter> table_set (fsys st) = {}"
    "range_of (unat a) (Suc (length w)) \<inter> range_of (unat (current_dir (fsys st))) 32 = {}"
    using b(3,4) by blast+
  ultimately show ?thesis using w b(1) by (simp add: name_arg_def)
qed

lemma arg_string:
  assumes "shell_ok st" "args_ok st argv" "a \<in> set argv" "shell_step st s"
  shows "\<exists>w. cstr (mem_of s) (Ptr a) w"
  using assms arg_kept [OF assms(1,4)] by (fastforce simp: args_ok_def arg_ok_def)

lemma say_at_runs:
  assumes "shell_ok st" "args_ok st argv" "a \<in> set argv" "shell_step st s"
  shows "runs (say_at a s) (shell_step st)"
  using arg_string [OF assms] print_runs [OF _ assms(4), of "Ptr a"] by (auto simp: say_at_def)

text \<open>A call of the file system on a sound state.\<close>

lemma fs_frame_cmd:
  assumes "shell_ok s" "fs_frame (fsys s) fs'" "command_buffer s = command_buffer st"
  shows "agree_on (cmd_set st) (mem_of s) (fs_ram fs')"
proof -
  have "cmd_set s \<subseteq> - (table_set (fsys s) \<union> cwd_set (fsys s) \<union> arena)"
    using assms(1) by (auto simp: shell_ok_def buffers_ok_def)
  with assms show ?thesis by (auto simp: fs_frame_def elim: agree_on_mono)
qed

lemma fs_call:
  assumes st: "shell_step st s" and run: "f (fsys s) = Some (r, fs')" and rep: "fs_rep fs' A'"
    and fr: "fs_frame (fsys s) fs'"
  shows "gives (mach_fs f s) (shell_step st)"
proof -
  have "shell_step st (s\<lparr>fsys := fs'\<rparr>)"
    using fr fs_frame_cmd [OF shell_step_ok [OF st] fr shell_step_sel(1) [OF st]]
    by (intro shell_step_fs [OF st rep]) (simp_all add: fs_frame_def)
  then show ?thesis using run by (auto simp: gives_def mach_fs_def)
qed

end
