(* ===== verification/Shell_Cmds.thy ===== *)
theory Shell_Cmds
  imports Shell_Inv
begin

text \<open>
  Every command of the shell but the editor and the reboot, on a machine in its invariant: the command
  returns, and what it does is a \<open>shell_step\<close>.
\<close>

section \<open>Commands that print\<close>

lemma help_rows_runs:
  "list_all (\<lambda>(n, d, c). 0 \<notin> set (bytes n) \<and> 0 \<notin> set (bytes d) \<and> length n < 2 ^ 32) rows \<Longrightarrow> shell_step st s \<Longrightarrow>
    runs (help_rows rows s) (shell_step st)"
proof (induction rows arbitrary: s)
  case (Cons row rows)
  then have r: "0 \<notin> set (bytes (fst row))" "0 \<notin> set (bytes (fst (snd row)))" "length (fst row) < 2 ^ 32"
    "list_all (\<lambda>(n, d, c). 0 \<notin> set (bytes n) \<and> 0 \<notin> set (bytes d) \<and> length n < 2 ^ 32) rows" by auto
  show ?case
    unfolding help_rows.simps Let_def
    using r Cons.prems(2)
    by (auto intro!: runs Cons.IH [OF r(4)] runs_value [OF strlen_eq [OF cstr_Lit [OF r(1)]]])
qed (simp add: runs_Some)

lemma commands_rows:
  "list_all (\<lambda>(n, d, c). 0 \<notin> set (bytes n) \<and> 0 \<notin> set (bytes d) \<and> length n < 2 ^ 32) commands"
  by (simp add: commands_def)

lemma cmd_help_runs: "shell_step st s \<Longrightarrow> runs (cmd_help s) (shell_step st)"
  unfolding cmd_help_def by (auto intro!: runs help_rows_runs [OF commands_rows])

lemma cmd_version_runs: "shell_step st s \<Longrightarrow> runs (cmd_version s) (shell_step st)"
  unfolding cmd_version_def by (auto intro!: runs)

lemma uptime_value:
  "shell_step st s \<Longrightarrow> timer_get_uptime s = Some (timer_ticks s div timer_frequency s)"
  by (auto simp: timer_get_uptime_def dest!: shell_step_ok simp: shell_ok_def)

lemma cmd_info_runs: "shell_step st s \<Longrightarrow> runs (cmd_info s) (shell_step st)"
  unfolding cmd_info_def by (auto intro!: runs runs_value [OF uptime_value])

lemma cmd_uptime_runs: "shell_step st s \<Longrightarrow> runs (cmd_uptime s) (shell_step st)"
  unfolding cmd_uptime_def Let_def by (auto intro!: runs runs_value [OF uptime_value])

lemma memory_total:
  assumes "shell_step st s"
  shows "memory_get_total (mm (fsys s)) = of_nat HEAP_SIZE"
  using shell_step_ok [OF assms] fs_repD(2) heap_ok_total by (auto simp: shell_ok_def memory_get_total_def)

lemma cmd_memory_runs: "shell_step st s \<Longrightarrow> runs (cmd_memory s) (shell_step st)"
  unfolding cmd_memory_def Let_def by (auto intro!: runs simp: memory_total HEAP_SIZE_def)

lemma cmd_echo_runs:
  assumes "shell_ok st" "args_ok st argv" "shell_step st s"
  shows "runs (cmd_echo argv s) (shell_step st)"
proof -
  have "set as \<subseteq> set argv \<Longrightarrow> shell_step st s \<Longrightarrow> runs (echo_args first as s) (shell_step st)" for as first s
  proof (induction as arbitrary: first s)
    case (Cons a as)
    then show ?case by (auto intro!: runs say_at_runs [OF assms(1,2)])
  qed (simp add: runs_Some)
  moreover have "set (tl argv) \<subseteq> set argv" by (cases argv) auto
  ultimately show ?thesis unfolding cmd_echo_def using assms(3) by (auto intro!: runs)
qed

lemma color_digits_Some: "cstr m (Ptr p) w \<Longrightarrow> \<exists>n. color_digits m p acc = Some n"
proof (induction w arbitrary: p acc)
  case Nil
  then show ?case by (subst color_digits.simps) simp
next
  case (Cons c w)
  then show ?case by (subst color_digits.simps) simp
qed

lemma argv_1: "\<not> length argv < 2 \<Longrightarrow> argv ! 1 \<in> set argv"
  by (rule nth_mem) simp

lemma cmd_color_runs:
  assumes "shell_ok st" "args_ok st argv" "shell_step st s"
  shows "runs (cmd_color argv s) (shell_step st)"
proof (cases "length argv < 2")
  case True
  then show ?thesis unfolding cmd_color_def using assms(3) by (auto intro!: runs)
next
  case False
  from arg_string [OF assms(1,2) argv_1 [OF False] assms(3)] color_digits_Some
  obtain n where "color_digits (mem_of s) (argv ! 1) 0 = Some n" by blast
  with False show ?thesis unfolding cmd_color_def using assms(3) by (auto intro!: runs)
qed

lemma cmd_pwd_runs:
  assumes "shell_step st s"
  shows "runs (cmd_pwd s) (shell_step st)"
proof -
  from shell_step_ok [OF assms] obtain A where "fs_rep (fsys s) A" by (auto simp: shell_ok_def)
  from fs_repD(7) [OF this] have "runs (vga_print (mem_of s) (fs_getcwd (fsys s)) s) (shell_step st)"
    using print_runs [OF _ assms] by (simp add: fs_getcwd_def)
  then show ?thesis unfolding cmd_pwd_def by (auto intro!: runs)
qed

section \<open>Commands on the file system\<close>

text \<open>One call of the file system by a name in the command line, and messages about that name.\<close>

lemma message_runs:
  assumes "shell_ok st" "args_ok st argv" "a \<in> set argv" "shell_step st s" "0 \<notin> set (bytes b)" "0 \<notin> set (bytes c)"
  shows "runs (say_about b (Ptr a) c s) (shell_step st)"
  by (rule say_about_runs [OF assms(5,6,4) arg_string [OF assms(1-3)]])

lemma name_of_arg:
  assumes "shell_ok st" "args_ok st argv" "a \<in> set argv" "shell_step st s"
  obtains w A where "name_arg (fsys s) (Ptr a) w" "fs_rep (fsys s) A"
proof -
  from assms(2,3) obtain w where "arg_ok (mem_of st) (unat (command_buffer st)) 255 a w" by (auto simp: args_ok_def)
  from arg_kept [OF assms(1,4) this] have "arg_ok (mem_of s) (unat (command_buffer s)) 255 a w"
    by (simp add: shell_step_sel [OF assms(4)])
  from arg_name [OF shell_step_ok [OF assms(4)] this] shell_step_ok [OF assms(4)] that show thesis
    by (auto simp: shell_ok_def)
qed

lemma add_runs:
  assumes "shell_ok st" "args_ok st argv" "a \<in> set argv" "shell_step st s"
  shows "gives (mach_fs (fs_create (Ptr a)) s) (shell_step st)" "gives (mach_fs (fs_mkdir (Ptr a)) s) (shell_step st)"
proof -
  obtain w A where n: "name_arg (fsys s) (Ptr a) w" "fs_rep (fsys s) A" by (rule name_of_arg [OF assms])
  from fs_create_refines [OF n(2,1)] fs_add_frame [OF n(2,1), of False]
  show "gives (mach_fs (fs_create (Ptr a)) s) (shell_step st)"
    by (auto simp: fs_create_def flags_of_def intro: fs_call [OF assms(4)])
  from fs_mkdir_refines [OF n(2,1)] fs_add_frame [OF n(2,1), of True]
  show "gives (mach_fs (fs_mkdir (Ptr a)) s) (shell_step st)"
    by (auto simp: fs_mkdir_def flags_of_def intro: fs_call [OF assms(4)])
qed

lemma remove_runs:
  assumes "shell_ok st" "args_ok st argv" "a \<in> set argv" "shell_step st s"
  shows "gives (mach_fs (fs_delete (Ptr a)) s) (shell_step st)" "gives (mach_fs (fs_rmdir (Ptr a)) s) (shell_step st)"
proof -
  obtain w A where n: "name_arg (fsys s) (Ptr a) w" "fs_rep (fsys s) A" by (rule name_of_arg [OF assms])
  from fs_delete_refines [OF n(2,1)] fs_delete_frame [OF n(2,1)]
  show "gives (mach_fs (fs_delete (Ptr a)) s) (shell_step st)" by (auto intro: fs_call [OF assms(4)])
  from fs_rmdir_refines [OF n(2,1)] fs_rmdir_frame [OF n(2,1)]
  show "gives (mach_fs (fs_rmdir (Ptr a)) s) (shell_step st)" by (auto intro: fs_call [OF assms(4)])
qed

lemma chdir_runs:
  assumes "shell_step st s" "name_arg (fsys s) p w"
  shows "gives (mach_fs (fs_chdir p) s) (shell_step st)"
proof -
  from shell_step_ok [OF assms(1)] obtain A where A: "fs_rep (fsys s) A" by (auto simp: shell_ok_def)
  from fs_chdir_refines [OF A assms(2)] fs_chdir_frame [OF A assms(2)] show ?thesis
    by (auto intro: fs_call [OF assms(1)])
qed

lemma name_commands_run:
  assumes "shell_ok st" "args_ok st argv" "shell_step st s"
  shows "runs (cmd_touch argv s) (shell_step st)" "runs (cmd_mkdir argv s) (shell_step st)"
    "runs (cmd_rm argv s) (shell_step st)" "runs (cmd_rmdir argv s) (shell_step st)"
proof -
  note m = message_runs [OF assms(1,2) argv_1] and a = add_runs [OF assms(1,2) argv_1 assms(3)]
    and d = remove_runs [OF assms(1,2) argv_1 assms(3)]
  show "runs (cmd_touch argv s) (shell_step st)" "runs (cmd_mkdir argv s) (shell_step st)"
    "runs (cmd_rm argv s) (shell_step st)" "runs (cmd_rmdir argv s) (shell_step st)"
    unfolding cmd_touch_def cmd_mkdir_def cmd_rm_def cmd_rmdir_def
    using assms(3) by (auto intro!: runs gives_bind [OF a(1)] gives_bind [OF a(2)] gives_bind [OF d(1)] gives_bind [OF d(2)] m
      simp del: One_nat_def)
qed

lemma cmd_cd_runs:
  assumes "shell_ok st" "args_ok st argv" "shell_step st s"
  shows "runs (cmd_cd argv s) (shell_step st)"
proof -
  define t where "t = (if length argv < 2 then Lit ''/'' else Ptr (argv ! 1))"
  have "\<exists>w. name_arg (fsys s) t w"
  proof (cases "length argv < 2")
    case True
    then show ?thesis using name_arg_Lit [of "''/''" "fsys s"] by (auto simp: t_def)
  next
    case False
    from name_of_arg [OF assms(1,2) argv_1 [OF False] assms(3)] False show ?thesis by (auto simp: t_def)
  qed
  then have g: "gives (mach_fs (fs_chdir t) s) (shell_step st)" using chdir_runs [OF assms(3)] by blast
  have str: "\<exists>w. cstr (mem_of s') t w" if "shell_step st s'" for s'
  proof (cases "length argv < 2")
    case True
    have "cstr (mem_of s') (Lit ''/'') (bytes ''/'')" by (rule cstr_Lit) simp
    then show ?thesis unfolding t_def if_P [OF True] by (rule exI)
  qed (use arg_string [OF assms(1,2) argv_1 that] in \<open>auto simp: t_def\<close>)
  then show ?thesis unfolding cmd_cd_def Let_def t_def [symmetric] using str by (auto intro!: runs gives_bind [OF g])

qed

section \<open>Listing\<close>

lemma line_end_eq: "cstr m (Ptr p) t \<Longrightarrow> line_end m p = Some (p + of_nat (length (takeWhile (\<lambda>c. c \<noteq> 10) t)))"
proof (induction t arbitrary: p)
  case Nil
  then show ?case by (subst line_end.simps) simp
next
  case (Cons c t)
  then show ?case by (subst line_end.simps) (auto simp: algebra_simps)
qed

text \<open>Printing relative to a state whose memory stays.\<close>

lemma runs_via: "runs r P \<Longrightarrow> (\<And>s. P s \<Longrightarrow> runs (f s) Q) \<Longrightarrow> runs (r \<bind> f) Q"
  by (auto simp: runs_def)

named_theorems prints \<open>rules for printing with the file system unchanged\<close>

lemma say_prints [prints]: "0 \<notin> set (bytes t) \<Longrightarrow> console_step st s \<Longrightarrow> runs (say t s) (console_step st)"
  using say_step [of t s] console_step_trans [of st s] by (auto simp: runs_def)

lemma say_at_prints: "cstr (mem_of st) (Ptr a) w \<Longrightarrow> console_step st s \<Longrightarrow> runs (say_at a s) (console_step st)"
  using print_step [of s "Ptr a" w] console_step_trans [of st s] console_step_machine(1) [of st s]
  by (auto simp: runs_def say_at_def)

lemma color_prints [prints]: "console_step st s \<Longrightarrow> console_step st (vga_set_color fg bg s)"
  and dec_prints [prints]: "console_step st s \<Longrightarrow> console_step st (vga_print_dec v s)"
  by (auto intro: console_step_trans console)

text \<open>A byte of the listing buffer changes.\<close>

lemma list_write:
  assumes "shell_step st s" "e \<in> list_set s"
  shows "shell_step st (put_mem ((mem_of s)(e := v)) s)" "fs_rep (fsys s) A \<Longrightarrow> fs_rep (set_ram ((mem_of s)(e := v)) (fsys s)) A"
proof -
  have b: "buffers_ok s" using shell_step_ok [OF assms(1)] by (simp add: shell_ok_def)
  then have c: "client_region (fsys s) {e}" using assms(2) by (auto simp: client_region_def buffers_ok_def cwd_set_def)
  have w: "agree_on (- {e}) (mem_of s) ((mem_of s)(e := v))" by (rule agree_on_upd) simp_all
  show r: "fs_rep (set_ram ((mem_of s)(e := v)) (fsys s)) A" if "fs_rep (fsys s) A" for A
    by (rule client_write(1) [OF that c w])
  have "e \<notin> cmd_set st" using b assms(2) by (auto simp: buffers_ok_def shell_step_sel [OF assms(1)])
  then have "agree_on (cmd_set st) (mem_of s) ((mem_of s)(e := v))" by (intro agree_on_upd agree_on_refl)
  then show "shell_step st (put_mem ((mem_of s)(e := v)) s)"
    using shell_step_ok [OF assms(1)] r unfolding put_mem_def shell_ok_def
    by (elim conjE exE) (rule shell_step_fs [OF assms(1)], auto simp: set_ram_def)
qed

lemma ls_loop_runs:
  assumes "shell_step st s" "cstr (mem_of s) (Ptr p) t" "unat (list_buffer st) \<le> unat p"
    "unat p + length t < unat (list_buffer st) + 1024"
  shows "runs (ls_loop p s) (shell_step st)"
  using assms
proof (induction t arbitrary: p s rule: measure_induct_rule [where f = length])
  case (less t)
  show ?case
  proof (cases "t = []")
    case True
    with less.prems(1,2) show ?thesis by (subst ls_loop.simps) (simp add: runs_Some)
  next
    case False
    have b: "buffers_ok s" using shell_step_ok [OF less.prems(1)] by (simp add: shell_ok_def)
    then have top: "unat (list_buffer st) + 1024 \<le> 2 ^ 32"
      using shell_step_sel(2) [OF less.prems(1)] by (simp add: buffers_ok_def)
    let ?w = "takeWhile (\<lambda>c. c \<noteq> 10) t" and ?r = "dropWhile (\<lambda>c. c \<noteq> 10) t"
    define e where "e = p + of_nat (length ?w)"
    define s1 where "s1 = put_mem ((mem_of s)(e := 0)) s"
    have nz: "mem_of s p \<noteq> 0" using less.prems(2) False by (cases t) auto
    have le: "line_end (mem_of s) p = Some e" using line_end_eq [OF less.prems(2)] by (simp add: e_def)
    have len: "length ?w + length ?r = length t" by (metis length_append takeWhile_dropWhile_id)
    have ue: "unat e = unat p + length ?w" using less.prems(4) top len unfolding e_def by (intro unat_offset) simp
    have el: "e \<in> list_set s" using ue less.prems(3,4) len shell_step_sel(2) [OF less.prems(1)] by simp
    note sp = cstr_split [OF less.prems(2), of "\<lambda>c. c \<noteq> 10", folded e_def]
    note lw = list_write [OF less.prems(1) el]
    have s1: "shell_step st s1" "fsys s1 = set_ram ((mem_of s)(e := 0)) (fsys s)" using lw(1) by (simp_all add: s1_def)
    have "agree_on (range_of (unat p) (length ?w)) (mem_of s) ((mem_of s)(e := 0))"
      using ue by (intro agree_on_upd agree_on_refl) simp
    then have "bytes_at ((mem_of s)(e := 0)) p (length ?w) = ?w"
      using bytes_at_cong [of p "length ?w"] sp(1) less.prems(4) top len by simp
    then have c1: "cstr (mem_of s1) (Ptr p) ?w" using sp(2) by (simp add: cstr_Ptr s1_def e_def)
    from shell_step_ok [OF less.prems(1)] obtain A where "fs_rep (fsys s) A" by (auto simp: shell_ok_def)
    from lw(2) [OF this] have "fs_rep (fsys s1) A" by (simp add: s1(2))
    from fs_open_eq [OF this c1] obtain f where op: "fs_open (Ptr p) (fsys s1) = Some f" by blast
    have final: "runs (ls_loop (if mem_of (put_mem ((mem_of s5)(e := mem_of s e)) s5) e \<noteq> 0 then e + 1 else e)
        (put_mem ((mem_of s5)(e := mem_of s e)) s5)) (shell_step st)" if s5: "console_step s1 s5" for s5
    proof -
      let ?s6 = "put_mem ((mem_of s5)(e := mem_of s e)) s5"
      have f5: "fsys s5 = fsys s1" by (rule console_step_machine(1) [OF s5])
      have st5: "shell_step st s5" by (rule shell_step_console [OF s1(1) s5])
      have m6: "mem_of ?s6 = mem_of s" by (auto simp: f5 s1_def)
      have st6: "shell_step st ?s6"
        using list_write(1) [OF st5, of e] el shell_step_sel(2) [OF st5] shell_step_sel(2) [OF less.prems(1)] by simp
      show ?thesis
      proof (cases ?r)
        case Nil
        then have "mem_of s e = 0" using sp(3) unfolding Nil by simp
        then have "cstr (mem_of ?s6) (Ptr e) []" by simp
        moreover have "length ([] :: u8 list) < length t" using False by simp
        ultimately show ?thesis
          using less.IH [of "[]" ?s6 e] st6 ue less.prems(3,4) len m6 \<open>mem_of s e = 0\<close> by simp
      next
        case (Cons c r)
        then have n: "mem_of s e \<noteq> 0" "cstr (mem_of s) (Ptr (e + 1)) r" using sp(3) by auto
        moreover have "unat (e + 1) = unat e + 1" using ue less.prems(4) top len Cons by (intro unat_Suc_no_wrap) simp
        moreover have "length r < length t" using len Cons by simp
        ultimately show ?thesis
          using less.IH [of r ?s6 "e + 1", unfolded m6] st6 ue less.prems(3,4) len m6 Cons by simp
      qed
    qed
    have "runs (ls_entry f p s1) (console_step s1)"
      unfolding ls_entry_def
      by (intro runs_bind runs_if runs_Some prints say_at_prints [OF c1] console_step_refl | simp | assumption)+
    then obtain s5 where s5: "ls_entry f p s1 = Some s5" "console_step s1 s5" by (auto simp: runs_def)
    have "ls_loop p s = ls_loop (if mem_of (put_mem ((mem_of s5)(e := mem_of s e)) s5) e \<noteq> 0 then e + 1 else e)
        (put_mem ((mem_of s5)(e := mem_of s e)) s5)"
      using nz le op s5(1) by (subst ls_loop.simps) (simp add: s1_def Let_def del: put_mem_sel)
    with final [OF s5(2)] show ?thesis by simp
  qed
qed

lemma cmd_ls_runs:
  assumes "shell_step st s"
  shows "runs (cmd_ls s) (shell_step st)"
proof -
  have "runs (mach_fs (fs_list (list_buffer s3) 1024) s3 \<bind> (\<lambda>(n, s'). ls_loop (list_buffer s3) s')) (shell_step st)"
    if s3: "shell_step st s3" for s3
  proof -
    from shell_step_ok [OF s3] obtain A where A: "fs_rep (fsys s3) A" by (auto simp: shell_ok_def)
    have b: "buffers_ok s3" using shell_step_ok [OF s3] by (simp add: shell_ok_def)
    then have l: "list_buffer s3 \<noteq> NULL" "unat (list_buffer s3) + unat (1024 :: u32) \<le> 2 ^ 32"
      "range_of (unat (list_buffer s3)) (unat (1024 :: u32)) \<inter> table_set (fsys s3) = {}"
      "client_region (fsys s3) (list_set s3)" "cmd_set s3 \<inter> list_set s3 = {}"
      by (auto simp: buffers_ok_def client_region_def cwd_set_def)
    from fs_list_spec [OF A l(1) _ _ l(2,3)] obtain m t n where
      m: "fs_list (list_buffer s3) 1024 (fsys s3) = Some (n, set_ram m (fsys s3))" "cstr m (Ptr (list_buffer s3)) t"
      "length t < 1024" "agree_on (- list_set s3) (mem_of s3) m" by auto
    let ?s4 = "s3\<lparr>fsys := set_ram m (fsys s3)\<rparr>"
    have "agree_on (cmd_set st) (mem_of s3) m"
      by (rule agree_on_mono [OF m(4)]) (use l(5) shell_step_sel [OF s3] in auto)
    then have "shell_step st ?s4"
      by (intro shell_step_fs [OF s3 client_write(1) [OF A l(4) m(4)]]) (simp_all add: set_ram_def)
    then have "runs (ls_loop (list_buffer s3) ?s4) (shell_step st)"
      using m(2,3) shell_step_sel(2) [OF s3] by (intro ls_loop_runs) (simp_all add: set_ram_def)
    then show ?thesis using m(1) by (simp add: mach_fs_def)
  qed
  with assms show ?thesis unfolding cmd_ls_def Let_def by (auto intro!: runs)
qed

end
