(* ===== verification/Shell_Cat.thy ===== *)
theory Shell_Cat
  imports Shell_Cmds
begin

text \<open>
  The command \<^verbatim>\<open>cat\<close>: it borrows a heap block for the contents, prints them up to the first NUL, and
  gives the block back. The heap side is stated on the file system alone.
\<close>

section \<open>Borrowing a block\<close>

abbreviation not_data :: "ramfs \<Rightarrow> addr \<Rightarrow> bool" where
  "not_data st p \<equiv> \<forall>i<FS_MAX_FILES. f_data (fs_ram st) (slot (file_table st) i) \<noteq> p"

lemma borrow:
  assumes rep: "fs_rep st A" and sz: "0 < unat sz" "unat sz \<le> 0xFFFFFFF0"
  obtains p h where "kmalloc sz (mm st) = Some (p, h)" "fs_rep (st\<lparr>mm := h\<rparr>) A" "agree_on (- arena) (fs_ram st) (ram h)"
    "p = NULL \<Longrightarrow> h = mm st"
    "p \<noteq> NULL \<Longrightarrow> \<exists>n. unat sz \<le> n \<and> (\<forall>q k. owns h q k \<longleftrightarrow> owns (mm st) q k \<or> q = p \<and> k = n)
      \<and> not_data (st\<lparr>mm := h\<rparr>) p \<and> (\<forall>k. \<not> owns (mm st) p k)"
    "\<And>q. block_kept (mm st) h q"
proof -
  note D = fs_repD [OF rep]
  obtain p h where h: "kmalloc sz (mm st) = Some (p, h)" "heap_ok h" "p = NULL \<Longrightarrow> h = mm st"
    "agree_on (- arena) (fs_ram st) (ram h)" "\<And>q. block_kept (mm st) h q" "\<And>q k. owns (mm st) q k \<Longrightarrow> q \<noteq> p"
    "p \<noteq> NULL \<Longrightarrow> \<exists>n. unat sz \<le> n \<and> (\<forall>q k. owns h q k \<longleftrightarrow> owns (mm st) q k \<or> q = p \<and> k = n)"
    by (rule kmalloc_kept [OF D(2) sz]) blast
  have "f_data (ram h) (slot (file_table st) i) \<noteq> p" if i: "i < FS_MAX_FILES" and p: "p \<noteq> NULL" for i
  proof -
    have "agree_on (eset (slot (file_table st) i)) (fs_ram st) (ram h)"
      by (rule agree_on_mono [OF h(4)]) (use slot_props(4) [OF D(1) i] in blast)
    from fields_cong(1) [OF slot_props(2) [OF D(1) i] this]
    have e: "f_data (ram h) (slot (file_table st) i) = f_data (fs_ram st) (slot (file_table st) i)" by simp
    show ?thesis
    proof (cases "f_data (fs_ram st) (slot (file_table st) i) = NULL")
      case False
      from file_block [OF rep i False] h(6) e show ?thesis by metis
    qed (use e p in simp)
  qed
  then show thesis
    using fs_rep_heap [OF rep h(2,4,5)] h(1,3,4,6,7) by (intro that [of p h]) (auto intro: h(5))
qed

lemma give_back:
  assumes rep: "fs_rep st A" and p: "owns (mm st) p n" "not_data st p"
  obtains h where "kfree p (mm st) = Some h" "fs_rep (st\<lparr>mm := h\<rparr>) A" "agree_on (- arena) (fs_ram st) (ram h)"
    "\<And>q k. owns h q k \<longleftrightarrow> owns (mm st) q k \<and> q \<noteq> p" "\<And>q. q \<noteq> p \<Longrightarrow> block_kept (mm st) h q"
proof -
  obtain h where h: "kfree p (mm st) = Some h" "heap_ok h"
    "agree_on (- arena) (fs_ram st) (ram h)" "\<And>q k. owns h q k \<longleftrightarrow> owns (mm st) q k \<and> q \<noteq> p"
    "\<And>q. q \<noteq> p \<Longrightarrow> block_kept (mm st) h q" 
    by (rule kfree_kept [OF fs_repD(2) [OF rep] p(1)]) blast
  have "fs_rep (st\<lparr>mm := h\<rparr>) A" using p(2) by (intro fs_rep_heap [OF rep h(2,3)] h(5)) blast
  with h(1,3-5) show thesis by (intro that [of h]) simp_all
qed

text \<open>Reading a whole file into a block of the caller; a file whose contents are lost reads as whatever
  the block holds.\<close>

lemma read_whole:
  assumes rep: "fs_rep st A" and i: "i < FS_MAX_FILES" and e: "slots A ! i = Some e"
    and p: "owns (mm st) p k" "not_data st p" "csize (econt e) \<le> k"
  defines "f \<equiv> slot (file_table st) i"
  obtains m where "snd (fs_read f p (f_size (fs_ram st) f) 0 st) = set_ram m st"
    "agree_on (- range_of (unat p) (csize (econt e))) (fs_ram st) m"
    "\<And>bs. econt e = Stored bs \<Longrightarrow> bytes_at m p (length bs) = bs"
proof -
  let ?st' = "snd (fs_read f p (f_size (fs_ram st) f) 0 st)"
  note B = heap.owns_bounds [OF p(1)]
  have fc: "content_rep (mm st) (f_data (fs_ram st) f) (f_size (fs_ram st) f) (econt e)"
    using fs_repD(4) [OF rep i] e by (simp add: entry_rep_def f_def)
  note sz = content_size [OF fc]
  have r: "?st' = set_ram (fs_ram ?st') st" by (simp add: fs_read_def Let_def set_ram_def)
  show thesis
  proof (cases "econt e")
    case (Lost n)
    then have "f_data (fs_ram st) f = NULL" using fc by (simp add: content_rep_def)
    then have "?st' = st" by (simp add: fs_read_def Let_def)
    with Lost show thesis using that [of "fs_ram st"] by (simp add: agree_on_refl)
  next
    case (Stored bs)
    have "range_of (unat p) (length bs) \<subseteq> range_of (unat p) k" using p(3) Stored by auto
    moreover have "range_of (unat p) k \<inter> table_set st = {}" "range_of (unat p) k \<inter> range_of (unat (current_dir st)) 32 = {}"
      using B fs_repD(1) [OF rep] by (auto simp: layout_def table_set_def)
    ultimately have "client_region st (range_of (unat p) (length bs))"
      unfolding client_region_def using p(1,2) by blast
    moreover have u: "unat (f_size (fs_ram st) f) = length bs" using sz Stored by (metis csize.simps(1))
    ultimately have "client_region st (range_of (unat p) (min (unat (f_size (fs_ram st) f)) (length bs - unat (0 :: u32))))"
      by simp
    from fs_read_spec [OF rep i e Stored _ _ this, folded f_def] B p(3) Stored u
    have "bytes_at (fs_ram ?st') p (length bs) = bs" "agree_on (- range_of (unat p) (length bs)) (fs_ram st) (fs_ram ?st')"
      by auto
    with r Stored show thesis using that [of "fs_ram ?st'"] by simp
  qed
qed

lemma cstr_upto: "bytes_at m p n = gs \<Longrightarrow> m (p + of_nat n) = 0 \<Longrightarrow> cstr m (Ptr p) (takeWhile (\<lambda>c. c \<noteq> 0) gs)"
proof (induction n arbitrary: p gs)
  case (Suc n)
  then show ?case by (cases gs) (auto simp: bytes_at_Suc algebra_simps)
qed simp

text \<open>The block with the contents and the NUL behind them.\<close>

lemma load_text:
  assumes rep: "fs_rep st A" and i: "i < FS_MAX_FILES" and e: "slots A ! i = Some e" "0 < csize (econt e)"
    and p: "owns (mm st) p k" "not_data st p" "csize (econt e) < k"
  defines "f \<equiv> slot (file_table st) i"
  defines "sz \<equiv> f_size (fs_ram st) f"
  obtains m gs where "snd (fs_read f p sz 0 st) = set_ram m st"
    "fs_rep (set_ram (m(p + sz := 0)) st) A" "\<And>q j. owns ((mm st)\<lparr>ram := m(p + sz := 0)\<rparr>) q j \<longleftrightarrow> owns (mm st) q j"
    "not_data (set_ram (m(p + sz := 0)) st) p" "agree_on (- arena) (fs_ram st) (m(p + sz := 0))"
    "length gs = csize (econt e)" "\<And>bs. econt e = Stored bs \<Longrightarrow> gs = bs"
    "cstr (m(p + sz := 0)) (Ptr p) (takeWhile (\<lambda>c. c \<noteq> 0) gs)" "(m(p + sz := 0)) (p + (sz - 1)) = last gs"
proof -
  let ?n = "csize (econt e)"
  note D = fs_repD [OF rep] and B = heap.owns_bounds [OF p(1)]
  have "content_rep (mm st) (f_data (fs_ram st) f) sz (econt e)"
    using D(4) [OF i] e by (simp add: entry_rep_def f_def sz_def)
  from content_size [OF this] have sz: "unat sz = ?n" "sz = of_nat ?n" by blast+
  obtain m where m: "snd (fs_read f p sz 0 st) = set_ram m st" "agree_on (- range_of (unat p) ?n) (fs_ram st) m"
    "\<And>bs. econt e = Stored bs \<Longrightarrow> bytes_at m p (length bs) = bs"
    using read_whole [OF rep i e(1) p(1,2)] p(3) unfolding f_def sz_def by (metis less_imp_le)
  define m' where "m' = m(p + sz := 0)"
  have up: "unat (p + sz) = unat p + ?n" using B p(3) sz by (simp add: unat_plus_no_wrap)
  have w: "agree_on (- range_of (unat p) k) (fs_ram st) m'"
    unfolding m'_def by (rule agree_on_upd) (use up p(3) in \<open>auto intro: agree_on_mono [OF m(2)]\<close>)
  have out: "range_of (unat p) k \<inter> table_set st = {}" "range_of (unat p) k \<inter> range_of (unat (current_dir st)) 32 = {}"
    using B D(1) by (auto simp: layout_def table_set_def)
  then have "client_region st (range_of (unat p) k)" unfolding client_region_def using p(1,2) by blast
  note cw = client_write [OF rep this w]
  have nd: "not_data (set_ram m' st) p"
  proof (intro allI impI)
    fix j assume j: "j < FS_MAX_FILES"
    have "agree_on (eset (slot (file_table st) j)) (fs_ram st) m'"
      by (rule agree_on_mono [OF w]) (use slot_props(3) [OF D(1) j] out(1) in blast)
    from fields_cong(1) [OF slot_props(2) [OF D(1) j] this] p(2) [rule_format, OF j]
    show "f_data (fs_ram (set_ram m' st)) (slot (file_table (set_ram m' st)) j) \<noteq> p" by (simp add: set_ram_def)
  qed
  have b: "bytes_at m p ?n = bytes_at m' p ?n"
    unfolding m'_def using B p(3) up by (intro bytes_at_cong agree_on_upd agree_on_refl) simp_all
  have z: "m' (p + of_nat ?n) = 0" using sz by (simp add: m'_def)
  have "p + (sz - 1) = p + of_nat (?n - 1)" using e(2) sz(2) by (simp add: of_nat_diff)
  moreover have ne: "bytes_at m' p ?n \<noteq> []" using e(2) by (metis length_bytes_at length_greater_0_conv)
  ultimately have l: "m' (p + (sz - 1)) = last (bytes_at m' p ?n)"
    using e(2) unfolding last_conv_nth [OF ne] by simp
  show thesis
    by (rule that [of m "bytes_at m' p ?n", folded m'_def])
      (use m(1,3) cw nd w B cstr_upto [of m' p ?n, OF refl z] l b in \<open>auto elim: agree_on_mono\<close>)
qed

section \<open>The command\<close>

lemma cat_prints_text:
  assumes c: "cstr (mem_of s) (Ptr p) t" and ok: "cursor_ok s"
  shows "\<exists>s'. (do { s4 \<leftarrow> say_at p s; if b then say ''\<newline>'' s4 else Some s4 }) = Some s' \<and> console_step s s'
    \<and> terminal s' = term_puts (vga_color s) (t @ (if b then [10] else [])) (terminal s)"
proof -
  have "say_at p s = Some (fold vga_putchar t s)" by (simp add: say_at_def vga_print_eq [OF c])
  moreover have "say ''\<newline>'' s4 = Some (vga_putchar 10 s4)" for s4 :: "'a machine_scheme" using say_eq [of "''\<newline>''" s4] by simp
  moreover have "fold vga_putchar (t @ (if b then [10] else [])) s = (if b then vga_putchar 10 (fold vga_putchar t s) else fold vga_putchar t s)"
    by simp
  ultimately show ?thesis
    using vga_puts_view [OF ok, of "t @ (if b then [10] else [])"] console_puts [of s "t @ (if b then [10] else [])"]
    by auto
qed

lemma cmd_cat_file:
  assumes ok: "shell_ok s" and rep: "fs_rep (fsys s) A" and i: "i < FS_MAX_FILES" and e: "slots A ! i = Some e" "0 < csize (econt e)"
    and f: "fs_open (Ptr (argv ! 1)) (fsys s) = Some (slot (file_table (fsys s)) i)" and argc: "\<not> length argv < 2"
  shows "\<exists>s'. cmd_cat argv s = Some s' \<and> shell_step s s' \<and> fs_rep (fsys s') A
    \<and> (\<forall>q k. owns (mm (fsys s')) q k \<longleftrightarrow> owns (mm (fsys s)) q k)
    \<and> (kmalloc (of_nat (csize (econt e)) + 1) (mm (fsys s)) = Some (NULL, mm (fsys s)) \<and> terminal s' = terminal s
       \<or> (\<exists>gs. length gs = csize (econt e) \<and> (\<forall>bs. econt e = Stored bs \<longrightarrow> gs = bs)
         \<and> terminal s' = term_puts (vga_color s)
             (takeWhile (\<lambda>c. c \<noteq> 0) gs @ (if last gs \<noteq> 10 then [10] else [])) (terminal s)))"
proof -
  define f where "f = slot (file_table (fsys s)) i"
  note D = fs_repD [OF rep]
  have fn: "f \<noteq> NULL" unfolding f_def by (rule slot_props(1) [OF D(1) i])
  define sz where "sz = f_size (mem_of s) f"
  have fc: "content_rep (mm (fsys s)) (f_data (mem_of s) f) sz (econt e)"
    using D(4) [OF i] e by (simp add: entry_rep_def f_def sz_def)
  note c = content_size [OF fc]
  have sz: "fs_get_size f (fsys s) = sz" "sz \<noteq> 0" "unat (sz + 1) = csize (econt e) + 1"
    using c e(2) fn by (auto simp: fs_get_size_def sz_def FS_MAX_FILESIZE_def unat_plus_no_wrap)
  have su: "0 < unat (sz + 1)" "unat (sz + 1) \<le> 0xFFFFFFF0" using sz(3) c by (simp_all add: FS_MAX_FILESIZE_def)
  obtain p h where h: "kmalloc (sz + 1) (mm (fsys s)) = Some (p, h)" "fs_rep ((fsys s)\<lparr>mm := h\<rparr>) A"
    "agree_on (- arena) (mem_of s) (ram h)" "p = NULL \<Longrightarrow> h = mm (fsys s)"
    "p \<noteq> NULL \<Longrightarrow> \<exists>n. unat (sz + 1) \<le> n \<and> (\<forall>q k. owns h q k \<longleftrightarrow> owns (mm (fsys s)) q k \<or> q = p \<and> k = n)
      \<and> not_data ((fsys s)\<lparr>mm := h\<rparr>) p \<and> (\<forall>k. \<not> owns (mm (fsys s)) p k)"
    by (rule borrow [OF rep su]) blast
  let ?s1 = "s\<lparr>fsys := (fsys s)\<lparr>mm := h\<rparr>\<rparr>"
  have m: "mach_malloc (sz + 1) s = Some (p, ?s1)" by (simp add: mach_malloc_def h(1))
  note run = cmd_cat_def [of argv s, unfolded f f_def [symmetric], simplified]
  show ?thesis
  proof (cases "p = NULL")
    case True
    then have "cmd_cat argv s = Some s" using run argc fn sz(1,2) m h(4) by simp
    with True h(1,4) c rep shell_step_refl [OF ok] show ?thesis by auto
  next
    case False
    from h(5) [OF this] obtain n where n: "unat (sz + 1) \<le> n" "\<And>q k. owns h q k \<longleftrightarrow> owns (mm (fsys s)) q k \<or> q = p \<and> k = n"
      "not_data ((fsys s)\<lparr>mm := h\<rparr>) p" "\<And>k. \<not> owns (mm (fsys s)) p k" by blast
    have cmds: "cmd_set s \<subseteq> - arena" using ok by (auto simp: shell_ok_def buffers_ok_def)
    have own: "owns (mm ((fsys s)\<lparr>mm := h\<rparr>)) p n" "csize (econt e) < n" using n(1,2) sz(3) by simp_all
    have szh: "f_size (ram h) f = sz"
    proof -
      have "agree_on (eset f) (mem_of s) (ram h)"
        by (rule agree_on_mono [OF h(3)]) (use slot_props(4) [OF D(1) i] in \<open>auto simp: f_def\<close>)
      from fields_cong(2) [OF _ this] slot_props(2) [OF D(1) i] show ?thesis by (simp add: sz_def f_def)
    qed
    obtain m gs where L: "snd (fs_read f p sz 0 (fsys ?s1)) = set_ram m (fsys ?s1)"
      "fs_rep (set_ram (m(p + sz := 0)) (fsys ?s1)) A" "\<And>q j. owns (h\<lparr>ram := m(p + sz := 0)\<rparr>) q j \<longleftrightarrow> owns h q j"
      "not_data (set_ram (m(p + sz := 0)) (fsys ?s1)) p" "agree_on (- arena) (ram h) (m(p + sz := 0))"
      "length gs = csize (econt e)" "\<And>bs. econt e = Stored bs \<Longrightarrow> gs = bs"
      "cstr (m(p + sz := 0)) (Ptr p) (takeWhile (\<lambda>c. c \<noteq> 0) gs)" "(m(p + sz := 0)) (p + (sz - 1)) = last gs"
      using load_text [OF h(2) i e own(1) n(3) own(2)] szh by (auto simp: f_def)
    define s3 where "s3 = s\<lparr>fsys := set_ram (m(p + sz := 0)) (fsys ?s1)\<rparr>"
    have s3: "put_mem (m(p + sz := 0)) (?s1\<lparr>fsys := set_ram m (fsys ?s1)\<rparr>) = s3"
      by (simp add: put_mem_def s3_def)
    have "agree_on (cmd_set s) (mem_of s) (m(p + sz := 0))"
      using agree_on_mono [OF agree_on_trans [OF h(3) L(5)] cmds] .
    then have st3: "shell_step s s3"
      unfolding s3_def by (intro shell_step_fs [OF shell_step_refl [OF ok] L(2)]) (simp_all add: set_ram_def)
    have f3: "mem_of s3 = m(p + sz := 0)" "terminal s3 = terminal s" "vga_color s3 = vga_color s" "cursor_ok s3"
      using ok by (simp_all add: s3_def set_ram_def terminal_def screen_def shell_ok_def cursor_ok_def)
    from cat_prints_text [OF L(8) [folded f3(1)] f3(4), of "last gs \<noteq> 10"] obtain s5 where
      s5: "(do { s4 \<leftarrow> say_at p s3; if last gs \<noteq> 10 then say ''\<newline>'' s4 else Some s4 }) = Some s5" "console_step s3 s5"
      "terminal s5 = term_puts (vga_color s) (takeWhile (\<lambda>c. c \<noteq> 0) gs @ (if last gs \<noteq> 10 then [10] else [])) (terminal s)"
      using f3 by auto
    from s5(1) obtain s4 where s4: "say_at p s3 = Some s4" "(if last gs \<noteq> 10 then say ''\<newline>'' s4 else Some s4) = Some s5"
      by (auto simp: bind_eq_Some_conv)
    have "mem_of s4 = mem_of s3"
      using print_step [of s3 "Ptr p"] L(8) f3(1) s4(1) console_step_machine(1) by (fastforce simp: say_at_def)
    then have l4: "mem_of s4 (p + (sz - 1)) = last gs" using L(9) f3(1) by simp
    have f5: "fsys s5 = fsys s3" by (rule console_step_machine(1) [OF s5(2)])
    have st5: "shell_step s s5" by (rule shell_step_console [OF st3 s5(2)])
    have r3: "fs_rep (fsys s3) A" "owns (mm (fsys s3)) p n" "not_data (fsys s3) p"
      using L(2,3,4) n(2) by (simp_all add: s3_def set_ram_mm)
    obtain h' where h': "kfree p (mm (fsys s3)) = Some h'" "fs_rep ((fsys s3)\<lparr>mm := h'\<rparr>) A"
      "agree_on (- arena) (mem_of s3) (ram h')" "\<And>q k. owns h' q k \<longleftrightarrow> owns (mm (fsys s3)) q k \<and> q \<noteq> p"
      by (rule give_back [OF r3]) blast
    let ?s6 = "s5\<lparr>fsys := (fsys s3)\<lparr>mm := h'\<rparr>\<rparr>"
    have free: "mach_free p s5 = Some ?s6" by (simp add: mach_free_def f5 h'(1))
    have r: "cmd_cat argv s = Some ?s6"
      unfolding run using argc False by (simp add: fn sz(1,2) m L(1) [simplified] s3 [simplified] s4 l4 free [simplified])
    have "shell_step s ?s6"
      using f5 agree_on_mono [OF h'(3) cmds] by (intro shell_step_fs [OF st5 h'(2)]) simp_all
    moreover have "owns h' q k \<longleftrightarrow> owns (mm (fsys s)) q k" for q k
      using h'(4) L(3) n(2,4) by (auto simp: s3_def set_ram_mm)
    moreover have "terminal ?s6 = terminal s5" by (simp add: terminal_def screen_def)
    ultimately show ?thesis using r h'(2) s5(3) L(6,7) by auto
  qed
qed

lemma cmd_cat_runs:
  assumes "shell_ok s" "args_ok s argv"
  shows "runs (cmd_cat argv s) (shell_step s)"
proof (cases "length argv < 2")
  case True
  then show ?thesis unfolding cmd_cat_def using shell_step_refl [OF assms(1)] by (auto intro!: runs)
next
  case False
  note st = shell_step_refl [OF assms(1)]
  obtain w A where n: "name_arg (fsys s) (Ptr (argv ! 1)) w" "fs_rep (fsys s) A"
    by (rule name_of_arg [OF assms argv_1 [OF False] st])
  note op = fs_open_eq [OF n(2) name_argD(2) [OF n(1)]]
  show ?thesis
  proof (cases "find_slot w (slots A)")
    case None
    with op False show ?thesis unfolding cmd_cat_def
      using st by (auto intro!: runs message_runs [OF assms argv_1] simp del: One_nat_def)
  next
    case (Some i)
    note i = find_slot_lt [OF n(2) Some]
    from find_slot_Some [OF Some] obtain e where e: "slots A ! i = Some e" by blast
    have "content_rep (mm (fsys s)) (f_data (mem_of s) (slot (file_table (fsys s)) i))
        (f_size (mem_of s) (slot (file_table (fsys s)) i)) (econt e)"
      using fs_repD(4) [OF n(2) i] e by (simp add: entry_rep_def)
    note c = content_size [OF this]
    show ?thesis
    proof (cases "csize (econt e) = 0")
      case True
      then have "fs_get_size (slot (file_table (fsys s)) i) (fsys s) = 0" using c by (simp add: fs_get_size_def)
      with op Some False show ?thesis
        unfolding cmd_cat_def using st slot_props(1) [OF fs_repD(1) [OF n(2)] i] by (auto intro!: runs)
    next
      case nz: False
      with cmd_cat_file [OF assms(1) n(2) i e _ _ False] op Some show ?thesis by (auto simp: runs_def)
    qed
  qed
qed

end
