(* ===== verification/Shell_Props.thy ===== *)
theory Shell_Props
  imports Shell_Cat
begin

text \<open>
  The shell as a whole: which handler a line runs, that every command returns with the invariant in
  place, and that the main loop gets through any sequence of typed lines.
\<close>

section \<open>One command\<close>

text \<open>The editor has its own loop, and the reboot waits for hardware.\<close>

definition stops :: "cmd \<Rightarrow> bool" where
  "stops c \<longleftrightarrow> c = Cmd_halt \<or> c = Cmd_shutdown"

definition plain :: "cmd \<Rightarrow> bool" where
  "plain c \<longleftrightarrow> c \<noteq> Cmd_nano \<and> c \<noteq> Cmd_reboot"

text \<open>What a command leaves: a running shell in its invariant, or a stopped machine, interrupts off,
  whose files are as they were.\<close>

definition command_result :: "'a machine_scheme \<Rightarrow> bool \<Rightarrow> 'a machine_scheme outcome \<Rightarrow> bool" where
  "command_result st stop r \<longleftrightarrow> (case r of
     Running st' \<Rightarrow> \<not> stop \<and> shell_step st st'
   | Halted st' \<Rightarrow> stop \<and> \<not> int_flag st' \<and> fsys st' = fsys st)"

lemma say_frame: "0 \<notin> set (bytes t) \<Longrightarrow> \<exists>st'. say t st = Some st' \<and> fsys st' = fsys st \<and> int_flag st' = int_flag st"
  using say_step [of t st] console_step_machine by blast

lemma halt_result: "\<exists>r. cmd_halt st = Some r \<and> command_result st True r"
proof -
  let ?s = "vga_set_color LIGHT_BROWN BLACK st"
  obtain s1 where "say ''\<newline>System halted. You may now turn off your computer.\<newline>'' ?s = Some s1" "fsys s1 = fsys ?s"
    using say_frame [of "''\<newline>System halted. You may now turn off your computer.\<newline>''" ?s] by auto
  then show ?thesis by (simp add: cmd_halt_def command_result_def disable_interrupts_def vga_set_color_def)
qed

lemma shutdown_result: "\<exists>r. cmd_shutdown st = Some r \<and> command_result st True r"
proof -
  let ?s = "vga_set_color LIGHT_CYAN BLACK st"
  obtain s1 where 1: "say ''\<newline>Shutting down KontolOS...\<newline>'' ?s = Some s1" "fsys s1 = fsys ?s"
    using say_frame [of "''\<newline>Shutting down KontolOS...\<newline>''" ?s] by auto
  obtain s2 where 2: "say ''Goodbye!\<newline>\<newline>'' (vga_set_color LIGHT_GREY BLACK s1) = Some s2" "fsys s2 = fsys s1"
    using say_frame [of "''Goodbye!\<newline>\<newline>''" "vga_set_color LIGHT_GREY BLACK s1"] by (auto simp: vga_set_color_def)
  let ?s3 = "vga_set_color LIGHT_BROWN BLACK (outw 0x4004 0x3400 (outw 0xB004 0x2000 (outw 0x604 0x2000 (disable_interrupts s2))))"
  obtain s4 where 4: "say ''ACPI power off not supported. System halted.\<newline>'' ?s3 = Some s4" "fsys s4 = fsys ?s3"
      "int_flag s4 = int_flag ?s3"
    using say_frame [of "''ACPI power off not supported. System halted.\<newline>''" ?s3] by auto
  obtain s5 where 5: "say ''You may now turn off your computer manually.\<newline>'' s4 = Some s5" "fsys s5 = fsys s4"
      "int_flag s5 = int_flag s4"
    using say_frame [of "''You may now turn off your computer manually.\<newline>''" s4] by auto
  have "fsys ?s = fsys st" "fsys ?s3 = fsys s2" "\<not> int_flag ?s3"
    by (simp_all add: vga_set_color_def disable_interrupts_def outw_def)
  then show ?thesis using 1 2 4 5 by (simp add: cmd_shutdown_def command_result_def Let_def)
qed

lemma run_cmd_result:
  assumes "shell_ok st" "args_ok st argv" "plain c"
  shows "\<exists>r. run_cmd c argv st = Some r \<and> command_result st (stops c) r"
proof (cases "stops c")
  case True
  then show ?thesis using halt_result [of st] shutdown_result [of st] by (auto simp: stops_def)
next
  case False
  note st = shell_step_refl [OF assms(1)]
  have "runs (case c of Cmd_help \<Rightarrow> cmd_help st | Cmd_clear \<Rightarrow> Some (cmd_clear st) | Cmd_echo \<Rightarrow> cmd_echo argv st
      | Cmd_info \<Rightarrow> cmd_info st | Cmd_uptime \<Rightarrow> cmd_uptime st | Cmd_memory \<Rightarrow> cmd_memory st
      | Cmd_version \<Rightarrow> cmd_version st | Cmd_color \<Rightarrow> cmd_color argv st | Cmd_ls \<Rightarrow> cmd_ls st
      | Cmd_cat \<Rightarrow> cmd_cat argv st | Cmd_touch \<Rightarrow> cmd_touch argv st | Cmd_rm \<Rightarrow> cmd_rm argv st
      | Cmd_mkdir \<Rightarrow> cmd_mkdir argv st | Cmd_rmdir \<Rightarrow> cmd_rmdir argv st | Cmd_cd \<Rightarrow> cmd_cd argv st
      | Cmd_pwd \<Rightarrow> cmd_pwd st | _ \<Rightarrow> Some st) (shell_step st)"
    using st cmd_help_runs cmd_echo_runs [OF assms(1,2)] cmd_info_runs cmd_uptime_runs cmd_memory_runs cmd_version_runs
      cmd_color_runs [OF assms(1,2)] cmd_ls_runs cmd_cat_runs [OF assms(1,2)] name_commands_run [OF assms(1,2)]
      cmd_cd_runs [OF assms(1,2)] cmd_pwd_runs
    by (auto simp: cmd_clear_def intro: runs split: cmd.split)
  from runs_map [OF this, of Running] obtain s where "map_option Running (case c of Cmd_help \<Rightarrow> cmd_help st
      | Cmd_clear \<Rightarrow> Some (cmd_clear st) | Cmd_echo \<Rightarrow> cmd_echo argv st
      | Cmd_info \<Rightarrow> cmd_info st | Cmd_uptime \<Rightarrow> cmd_uptime st | Cmd_memory \<Rightarrow> cmd_memory st
      | Cmd_version \<Rightarrow> cmd_version st | Cmd_color \<Rightarrow> cmd_color argv st | Cmd_ls \<Rightarrow> cmd_ls st
      | Cmd_cat \<Rightarrow> cmd_cat argv st | Cmd_touch \<Rightarrow> cmd_touch argv st | Cmd_rm \<Rightarrow> cmd_rm argv st
      | Cmd_mkdir \<Rightarrow> cmd_mkdir argv st | Cmd_rmdir \<Rightarrow> cmd_rmdir argv st | Cmd_cd \<Rightarrow> cmd_cd argv st
      | Cmd_pwd \<Rightarrow> cmd_pwd st | _ \<Rightarrow> Some st) = Some (Running s)" "shell_step st s" by blast
  then show ?thesis using False assms(3) by (cases c) (auto simp: stops_def plain_def command_result_def)
qed

section \<open>Dispatch\<close>

definition command_of :: "u8 list \<Rightarrow> cmd option" where
  "command_of w = map_of (map (\<lambda>(n, d, c). (bytes n, c)) commands) w"

lemma find_command_eq:
  assumes "cstr m (Ptr a) w" "list_all (\<lambda>(n, d, c). 0 \<notin> set (bytes n)) rows"
  shows "find_command m a rows = Some (map_of (map (\<lambda>(n, d, c). (bytes n, c)) rows) w)"
  using assms(2)
proof (induction rows)
  case (Cons row rows)
  obtain n d c where row: "row = (n, d, c)" by (cases row)
  have l: "cstr m (Lit n) (bytes n)" using Cons.prems row by (intro cstr_Lit) simp
  show ?case
    using Cons strcmp_eq [OF assms(1) l] strcmp_0 [OF assms(1) l] by (auto simp: row)
qed simp

lemma commands_names: "list_all (\<lambda>(n, d, c). 0 \<notin> set (bytes n)) commands"
  by (simp add: commands_def)

definition unknown :: "u8 list \<Rightarrow> 'a machine_scheme \<Rightarrow> 'a machine_scheme" where
  "unknown w st = vga_set_color WHITE BLACK (fold vga_putchar
     (bytes ''Unknown command: '' @ w @ bytes ''\<newline>Type 'help' for available commands.\<newline>'')
     (vga_set_color LIGHT_RED BLACK st))"

lemma say_about_eq:
  assumes "0 \<notin> set (bytes b)" "0 \<notin> set (bytes c)" "cstr (mem_of st) p w"
  shows "say_about b p c st = Some (fold vga_putchar (bytes b @ w @ bytes c) st)"
proof -
  have "mem_of (fold vga_putchar (bytes b) st) = mem_of st"
    using console_step_machine(1) [OF console_puts [of st "bytes b"]] by simp
  then show ?thesis
    unfolding say_about_def using assms by (simp add: say_eq vga_print_eq)
qed

text \<open>A write into the command line.\<close>

lemma line_write_fs:
  assumes "shell_ok st" "agree_on (- cmd_set st) (mem_of st) m" "fs_rep (fsys st) A"
  shows "fs_rep (set_ram m (fsys st)) A" "\<And>q k. owns (mm (set_ram m (fsys st))) q k \<longleftrightarrow> owns (mm (fsys st)) q k"
proof -
  have "client_region (fsys st) (cmd_set st)" using assms(1) by (auto simp: shell_ok_def client_region_def buffers_ok_def cwd_set_def)
  from client_write [OF assms(3) this assms(2)] show "fs_rep (set_ram m (fsys st)) A"
    "\<And>q k. owns (mm (set_ram m (fsys st))) q k \<longleftrightarrow> owns (mm (fsys st)) q k" by (simp_all add: set_ram_def)
qed

lemma line_write:
  assumes "shell_ok st" "agree_on (- cmd_set st) (mem_of st) m"
  shows "shell_ok (put_mem m st)"
proof -
  obtain A where A: "fs_rep (fsys st) A" "cursor_ok st" "ring_ok st" "timer_frequency st \<noteq> 0" "buffers_ok st"
    by (rule shell_okD [OF assms(1)])
  from line_write_fs(1) [OF assms A(1)] A show ?thesis
    by (auto simp: shell_ok_def buffers_ok_def put_mem_def set_ram_def cursor_ok_def ring_ok_def table_set_def cwd_set_def)
qed

lemma execute_eq:
  assumes ok: "shell_ok st" and s: "cstr (mem_of st) (Ptr (command_buffer st)) s" "length s \<le> 255"
  shows "\<exists>argv m. list_all2 (\<lambda>a w. cstr m (Ptr a) w) argv (take 16 (words s))
    \<and> agree_on (- cmd_set st) (mem_of st) m \<and> shell_ok (put_mem m st) \<and> args_ok (put_mem m st) argv
    \<and> execute_command (command_buffer st) st =
      (case words s of [] \<Rightarrow> Some (Running (put_mem m st))
       | w # ws \<Rightarrow> (case command_of w of Some c \<Rightarrow> run_cmd c argv (put_mem m st)
                    | None \<Rightarrow> Some (Running (unknown w (put_mem m st)))))"
proof -
  let ?a = "command_buffer st"
  have b: "unat ?a + 256 \<le> 2 ^ 32" using ok by (simp add: shell_ok_def buffers_ok_def)
  then have "unat ?a + length s < 2 ^ 32" using s(2) by simp
  from parse_args_spec [OF s(1) this, of 16] obtain argv m where p: "parse_args (mem_of st) ?a 16 = Some (argv, m)"
    "list_all2 (arg_ok m (unat ?a) (length s)) argv (take 16 (words s))"
    "agree_on (- range_of (unat ?a) (length s)) (mem_of st) m" by blast
  let ?st = "put_mem m st"
  have w: "agree_on (- cmd_set st) (mem_of st) m" by (rule agree_on_mono [OF p(3)]) (use s(2) in auto)
  have ok1: "shell_ok ?st" by (rule line_write [OF ok w])
  have cs: "list_all2 (\<lambda>a w. cstr m (Ptr a) w) argv (take 16 (words s))"
    by (rule list_all2_mono [OF p(2)]) (simp add: arg_ok_def)
  have "\<exists>w. arg_ok m (unat ?a) 255 a w" if "a \<in> set argv" for a
  proof -
    from that obtain i where "i < length argv" "a = argv ! i" by (auto simp: in_set_conv_nth)
    with list_all2_nthD [OF p(2)] have "arg_ok m (unat ?a) (length s) a (take 16 (words s) ! i)" by blast
    with s(2) have "arg_ok m (unat ?a) 255 a (take 16 (words s) ! i)" by (simp add: arg_ok_def)
    then show ?thesis by blast
  qed
  then have args: "args_ok ?st argv" by (simp add: args_ok_def put_mem_def set_ram_def)
  have "execute_command ?a st = (case words s of [] \<Rightarrow> Some (Running ?st)
       | w # ws \<Rightarrow> (case command_of w of Some c \<Rightarrow> run_cmd c argv ?st | None \<Rightarrow> Some (Running (unknown w ?st))))"
  proof (cases "words s")
    case Nil
    with cs p(1) show ?thesis by (simp add: execute_command_def MAX_ARGS_def Let_def)
  next
    case (Cons w ws)
    with cs have c: "argv \<noteq> []" "cstr m (Ptr (argv ! 0)) w" by (auto simp: list_all2_Cons2)
    have "find_command m (argv ! 0) commands = Some (command_of w)"
      unfolding command_of_def by (rule find_command_eq [OF c(2) commands_names])
    moreover have "colored LIGHT_RED (say_about ''Unknown command: '' (Ptr (argv ! 0)) ''\<newline>Type 'help' for available commands.\<newline>'') ?st
        = Some (unknown w ?st)"
    proof -
      have "cstr (mem_of (vga_set_color LIGHT_RED BLACK ?st)) (Ptr (argv ! 0)) w"
        using c(2) console_step_machine(1) [OF console_color [of ?st LIGHT_RED BLACK]] by simp
      then show ?thesis unfolding colored_def unknown_def by (subst say_about_eq) simp_all
    qed
    ultimately show ?thesis
      using c(1) p(1) Cons by (simp add: execute_command_def MAX_ARGS_def Let_def split: option.splits)
  qed
  with cs w ok1 args show ?thesis by blast
qed

text \<open>The command a line asks for.\<close>

definition asked :: "u8 list \<Rightarrow> cmd option" where
  "asked s = (case words s of [] \<Rightarrow> None | w # ws \<Rightarrow> command_of w)"

text \<open>The parts of the machine that a whole line leaves alone.\<close>

definition line_result :: "'a machine_scheme \<Rightarrow> bool \<Rightarrow> 'a machine_scheme outcome \<Rightarrow> bool" where
  "line_result st stop r \<longleftrightarrow> (case r of
     Running st' \<Rightarrow> \<not> stop \<and> shell_ok st' \<and> same_drivers st st' \<and> queue st' = queue st
   | Halted st' \<Rightarrow> stop \<and> \<not> int_flag st' \<and> agree_on (- cmd_set st) (mem_of st) (mem_of st'))"

lemma execute_result:
  assumes ok: "shell_ok st" and s: "cstr (mem_of st) (Ptr (command_buffer st)) s" "length s \<le> 255"
    and p: "\<And>c. asked s = Some c \<Longrightarrow> plain c"
  shows "\<exists>r. execute_command (command_buffer st) st = Some r
    \<and> line_result st (\<exists>c. asked s = Some c \<and> stops c) r"
proof -
  from execute_eq [OF ok s] obtain argv m where e: "agree_on (- cmd_set st) (mem_of st) m" "shell_ok (put_mem m st)"
    "args_ok (put_mem m st) argv" "execute_command (command_buffer st) st =
      (case words s of [] \<Rightarrow> Some (Running (put_mem m st))
       | w # ws \<Rightarrow> (case command_of w of Some c \<Rightarrow> run_cmd c argv (put_mem m st)
                    | None \<Rightarrow> Some (Running (unknown w (put_mem m st)))))" by blast
  have lift: "line_result st stop r" if "command_result (put_mem m st) stop r" for stop r
    using that e(1) same_drivers_trans [of st "put_mem m st"]
    by (auto simp: command_result_def line_result_def shell_step_def split: outcome.splits)
  show ?thesis
  proof (cases "asked s")
    case (Some c)
    then have "execute_command (command_buffer st) st = run_cmd c argv (put_mem m st)"
      using e(4) by (auto simp: asked_def split: list.splits option.splits)
    with run_cmd_result [OF e(2,3) p [OF Some]] lift Some show ?thesis by auto
  next
    case None
    have "console_step (put_mem m st) (unknown w (put_mem m st))" for w
      unfolding unknown_def by (rule console_step_trans [OF console_step_trans [OF console_color console_puts] console_color])
    then have "shell_step (put_mem m st) (unknown w (put_mem m st))" for w
      using shell_step_console [OF shell_step_refl [OF e(2)]] by blast
    then obtain s1 where s1: "execute_command (command_buffer st) st = Some (Running s1)" "shell_step (put_mem m st) s1"
      using None e(4) shell_step_refl [OF e(2)] by (cases "words s") (auto simp: asked_def)
    from s1(2) have "command_result (put_mem m st) False (Running s1)" by (simp add: command_result_def)
    from lift [OF this] s1(1) None show ?thesis by simp
  qed
qed

section \<open>The main loop\<close>

text \<open>
  The lines that \<open>n\<close> rounds of the loop read from the keys \<open>ks\<close>, as the parser sees them, and the keys
  left over.
\<close>

primrec typed :: "nat \<Rightarrow> u8 list \<Rightarrow> (u8 list list \<times> u8 list) option" where
  "typed 0 ks = Some ([], ks)"
| "typed (Suc n) ks = (case line_read 255 [] ks of
     None \<Rightarrow> None
   | Some (line, echo, rest) \<Rightarrow> map_option (\<lambda>(ls, r). (takeWhile (\<lambda>c. c \<noteq> 0) line # ls, r)) (typed n rest))"

lemma line_frame_ok:
  assumes "shell_ok st" "line_frame (cmd_set st) es st st'"
  shows "shell_ok st'"
proof -
  from assms(2) have f: "ring_ok st'" "cursor_ok st'" "agree_on (- cmd_set st) (mem_of st) (mem_of st')"
    "fsys st' = set_ram (mem_of st') (fsys st)" "same_drivers st st'" by (simp_all add: line_frame_def)
  have "shell_ok (put_mem (mem_of st') st)" by (rule line_write [OF assms(1) f(3)])
  then have "\<exists>A. fs_rep (fsys st') A" using f(4) by (simp add: shell_ok_def)
  moreover have "buffers_ok (put_mem (mem_of st') st)" using \<open>shell_ok (put_mem (mem_of st') st)\<close> by (simp add: shell_ok_def)
  then have "buffers_ok st'" using f(4,5) by (simp add: buffers_ok_def same_drivers_def put_mem_def)
  ultimately show ?thesis using f(1,2,5) assms(1) by (simp add: shell_ok_def same_drivers_def)
qed

text \<open>What a round leaves.\<close>

definition round_result :: "'a machine_scheme \<Rightarrow> u8 list \<Rightarrow> bool \<Rightarrow> 'a machine_scheme outcome \<Rightarrow> bool" where
  "round_result st rest stop r \<longleftrightarrow> (case r of
     Running st' \<Rightarrow> \<not> stop \<and> shell_ok st' \<and> same_drivers st st' \<and> queue st' = rest
   | Halted st' \<Rightarrow> stop \<and> \<not> int_flag st')"

abbreviation asks_stop :: "u8 list \<Rightarrow> bool" where
  "asks_stop s \<equiv> \<exists>c. asked s = Some c \<and> stops c"

abbreviation asks_plain :: "u8 list \<Rightarrow> bool" where
  "asks_plain s \<equiv> \<forall>c. asked s = Some c \<longrightarrow> plain c"

text \<open>A round is a line read into the buffer, and its execution; the files stay what they are until then.\<close>

lemma shell_round_reads:
  assumes ok: "shell_ok st" and l: "line_read 255 [] (queue st) = Some (line, echo, rest)"
  obtains s where "shell_round st = execute_command (command_buffer s) s" "shell_ok s" "same_drivers st s" "queue s = rest"
    "cstr (mem_of s) (Ptr (command_buffer s)) (takeWhile (\<lambda>c. c \<noteq> 0) line)" "length (takeWhile (\<lambda>c. c \<noteq> 0) line) \<le> 255"
    "\<And>A. fs_rep (fsys st) A \<Longrightarrow> fs_rep (fsys s) A \<and> (\<forall>q k. owns (mm (fsys s)) q k \<longleftrightarrow> owns (mm (fsys st)) q k)"
proof -
  obtain s1 where s1: "say ''kontol> '' (vga_set_color LIGHT_GREEN BLACK st) = Some s1"
    "console_step (vga_set_color LIGHT_GREEN BLACK st) s1" using say_step [of "''kontol> ''"] by force
  have "console_step st s1" by (rule console_step_trans [OF console_color s1(2)])
  let ?s2 = "vga_set_color WHITE BLACK s1" and ?a = "command_buffer s1"
  have cs: "console_step st ?s2" by (rule console_step_trans [OF \<open>console_step st s1\<close>]) (rule console)
  have s2: "shell_step st ?s2" by (rule shell_step_console [OF shell_step_refl [OF ok] cs])
  have ok2: "shell_ok ?s2" by (rule shell_step_ok [OF s2])
  have a2: "command_buffer ?s2 = ?a" by (simp add: vga_set_color_def)
  have b: "unat ?a + 256 \<le> 2 ^ 32" using ok2 by (simp add: shell_ok_def buffers_ok_def a2)
  have q: "line_read 255 [] (queue ?s2) = Some (line, echo, rest)" using l s2 by (simp add: shell_step_def)
  have "ring_ok ?s2" "cursor_ok ?s2" using ok2 by (simp_all add: shell_ok_def)
  from readline_spec [OF q this, of SHELL_BUFFER_SIZE ?a] b obtain s3 where
    r: "keyboard_readline ?a SHELL_BUFFER_SIZE ?s2 = Some (of_nat (length line), s3)" "queue s3 = rest"
      "length line \<le> 255" "bytes_at (mem_of s3) ?a (length line) = line" "mem_of s3 (?a + of_nat (length line)) = 0"
      "line_frame (cmd_set ?s2) echo ?s2 s3"
    by (auto simp: SHELL_BUFFER_SIZE_def a2)
  have d3: "same_drivers ?s2 s3" "agree_on (- cmd_set ?s2) (mem_of ?s2) (mem_of s3)" "fsys s3 = set_ram (mem_of s3) (fsys ?s2)"
    using r(6) by (simp_all add: line_frame_def)
  have a3: "command_buffer s3 = ?a" using d3(1) by (simp add: same_drivers_def a2)
  show thesis
  proof (rule that [of s3])
    show "shell_round st = execute_command (command_buffer s3) s3" using s1(1) r(1) by (simp add: shell_round_def)
    show "same_drivers st s3" using s2 same_drivers_trans [OF _ d3(1)] by (auto simp: shell_step_def)
    show "cstr (mem_of s3) (Ptr (command_buffer s3)) (takeWhile (\<lambda>c. c \<noteq> 0) line)" unfolding a3 by (rule cstr_upto [OF r(4,5)])
    show "length (takeWhile (\<lambda>c. c \<noteq> 0) line) \<le> 255" using r(3) length_takeWhile_le le_trans by blast
    show "fs_rep (fsys s3) A \<and> (\<forall>q k. owns (mm (fsys s3)) q k \<longleftrightarrow> owns (mm (fsys st)) q k)" if "fs_rep (fsys st) A" for A
    proof -
      have f: "fsys ?s2 = fsys st" by (rule console_step_machine(1) [OF cs])
      obtain m where m: "m = mem_of s3" by blast
      have "fs_rep (fsys ?s2) A" using that unfolding f .
      note w = line_write_fs [OF ok2 d3(2) [folded m] this]
      have e: "fsys s3 = set_ram m (fsys ?s2)" using d3(3) unfolding m [symmetric] .
      show ?thesis using w unfolding e f by blast
    qed
  qed (use r(2) line_frame_ok [OF ok2 r(6)] in simp_all)
qed

lemma shell_round_result:
  assumes ok: "shell_ok st" and l: "line_read 255 [] (queue st) = Some (line, echo, rest)"
    and p: "asks_plain (takeWhile (\<lambda>c. c \<noteq> 0) line)"
  shows "\<exists>r. shell_round st = Some r \<and> round_result st rest (asks_stop (takeWhile (\<lambda>c. c \<noteq> 0) line)) r"
proof -
  obtain s where s: "shell_round st = execute_command (command_buffer s) s" "shell_ok s" "same_drivers st s" "queue s = rest"
    "cstr (mem_of s) (Ptr (command_buffer s)) (takeWhile (\<lambda>c. c \<noteq> 0) line)" "length (takeWhile (\<lambda>c. c \<noteq> 0) line) \<le> 255"
    by (rule shell_round_reads [OF ok l]) blast
  from execute_result [OF s(2,5,6)] p s(1) obtain x where
    x: "shell_round st = Some x" "line_result s (asks_stop (takeWhile (\<lambda>c. c \<noteq> 0) line)) x" by auto
  then show ?thesis
    using s(3,4) same_drivers_trans [of st s] by (auto simp: round_result_def line_result_def split: outcome.splits)
qed

lemma shell_run_result:
  assumes "shell_ok st" "typed n (queue st) = Some (ls, rest)" "\<forall>s\<in>set ls. asks_plain s"
  shows "\<exists>r. shell_run n st = Some r \<and> (case r of
      Running st' \<Rightarrow> shell_ok st' \<and> same_drivers st st' \<and> queue st' = rest \<and> (\<forall>s\<in>set ls. \<not> asks_stop s)
    | Halted st' \<Rightarrow> \<not> int_flag st' \<and> (\<exists>s\<in>set ls. asks_stop s))"
  using assms
proof (induction n arbitrary: st ls)
  case (Suc n)
  from Suc.prems(2) obtain line echo more ls' where l: "line_read 255 [] (queue st) = Some (line, echo, more)"
    "typed n more = Some (ls', rest)" "ls = takeWhile (\<lambda>c. c \<noteq> 0) line # ls'" by (auto split: option.splits)
  let ?s = "takeWhile (\<lambda>c. c \<noteq> 0) line"
  have p: "asks_plain ?s" "\<forall>s\<in>set ls'. asks_plain s" using Suc.prems(3) l(3) by auto
  from shell_round_result [OF Suc.prems(1) l(1) p(1)] obtain r where
    r: "shell_round st = Some r" "round_result st more (asks_stop ?s) r" by blast
  show ?case
  proof (cases r)
    case (Halted st')
    with r l(3) show ?thesis by (auto simp: round_result_def)
  next
    case (Running st1)
    with r(2) have st1: "\<not> asks_stop ?s" "shell_ok st1" "same_drivers st st1" "queue st1 = more"
      by (simp_all add: round_result_def)
    from Suc.IH [OF st1(2) _ p(2)] l(2) st1(4) obtain r' where r': "shell_run n st1 = Some r'" "(case r' of
      Running st' \<Rightarrow> shell_ok st' \<and> same_drivers st1 st' \<and> queue st' = rest \<and> (\<forall>s\<in>set ls'. \<not> asks_stop s)
    | Halted st' \<Rightarrow> \<not> int_flag st' \<and> (\<exists>s\<in>set ls'. asks_stop s))" by auto
    have "shell_run (Suc n) st = Some r'" using r(1) Running r'(1) by simp
    with r'(2) show ?thesis
      using st1(1) l(3) same_drivers_trans [OF st1(3)] by (auto split: outcome.splits)
  qed
qed simp

section \<open>Properties\<close>

text \<open>A machine ready for the shell, with keys typed ahead.\<close>

lemma demo_machine_shell: "length ks < 256 \<Longrightarrow> shell_ok (demo_machine t ks bs)"
proof -
  assume l: "length ks < 256"
  have "buffers_ok (demo_machine t ks bs)"
    by (auto simp: buffers_ok_def demo_machine_def table_set_def cwd_set_def boot_fs_sel arena_def HEAP_START_def HEAP_SIZE_def)
  moreover have "timer_frequency (demo_machine t ks bs) \<noteq> 0" "fsys (demo_machine t ks bs) = boot_fs"
    by (simp_all add: demo_machine_def)
  ultimately show ?thesis using demo_machine_ok [OF l] boot_fs_rep(1) by (auto simp: shell_ok_def)
qed

text \<open>
  C1: The shell gets through everything typed. From a machine in its invariant, with the keys of \<open>n\<close>
  complete lines in the keyboard buffer, none of which asks for the editor or a reboot, \<open>n\<close> rounds of
  the main loop return: either the invariant holds again (the file system is sound, the cursor on
  the screen, the key ring valid), exactly the keys of the lines are consumed and no driver is
  reconfigured, and no line asked to stop; or the machine is stopped with interrupts off, and one of
  the lines asked for it.
\<close>
theorem shell_session:
  assumes "shell_ok st" "typed n (queue st) = Some (ls, rest)" "\<forall>s\<in>set ls. asks_plain s"
  shows "\<exists>r. shell_run n st = Some r \<and> (case r of
      Running st' \<Rightarrow> shell_ok st' \<and> same_drivers st st' \<and> queue st' = rest \<and> (\<forall>s\<in>set ls. \<not> asks_stop s)
    | Halted st' \<Rightarrow> \<not> int_flag st' \<and> (\<exists>s\<in>set ls. asks_stop s))"
  by (rule shell_run_result [OF assms])

theorem shell_session_witness:
  "\<exists>st'. shell_run 2 (demo_machine 0 (bytes ''ls\<newline>'' @ bytes ''halt\<newline>'' @ [97]) []) = Some (Halted st') \<and> \<not> int_flag st'"
proof -
  let ?ks = "bytes ''ls\<newline>'' @ bytes ''halt\<newline>'' @ [97]"
  have l: "length ?ks < 256" by simp
  have t: "typed 2 ?ks = Some ([bytes ''ls'', bytes ''halt''], [97])"
  proof -
    have two: "typed 2 = typed (Suc (Suc 0))" by (simp only: numeral_2_eq_2)
    show ?thesis unfolding two by (simp add: echoing_def)
  qed
  have a: "asked (bytes ''ls'') = Some Cmd_ls" "asked (bytes ''halt'') = Some Cmd_halt"
    by (simp_all add: asked_def words.simps blank_def command_of_def commands_def)
  from shell_session [OF demo_machine_shell [OF l], where n = 2 and ls = "[bytes ''ls'', bytes ''halt'']"
      and rest = "[97]" and t1 = 0 and bs1 = "[]"]
  have "\<exists>r. shell_run 2 (demo_machine 0 ?ks []) = Some r \<and> (case r of
      Running st' \<Rightarrow> \<not> asks_stop (bytes ''halt'') | Halted st' \<Rightarrow> \<not> int_flag st')"
    unfolding demo_machine_ok(2) [OF l] t by (auto simp: a plain_def split: outcome.splits simp del: bytes_Cons)
  then obtain r where r: "shell_run 2 (demo_machine 0 ?ks []) = Some r" "(case r of
      Running st' \<Rightarrow> \<not> asks_stop (bytes ''halt'') | Halted st' \<Rightarrow> \<not> int_flag st')" by blast
  then obtain st' where "r = Halted st'" by (cases r) (auto simp: a stops_def simp del: bytes_Cons)
  with r show ?thesis by auto
qed

text \<open>
  C5: The dispatch of a command line: its words, at most sixteen, become the arguments; an empty line
  does nothing; a first word in the table runs its handler on the arguments, any other prints the
  message for an unknown command in red. Parsing writes into the command line only.
\<close>
theorem execute_dispatch:
  assumes "shell_ok st" "cstr (mem_of st) (Ptr (command_buffer st)) s" "length s \<le> 255"
  shows "\<exists>argv m. list_all2 (\<lambda>a w. cstr m (Ptr a) w) argv (take 16 (words s))
    \<and> agree_on (- cmd_set st) (mem_of st) m \<and> shell_ok (put_mem m st) \<and> args_ok (put_mem m st) argv
    \<and> execute_command (command_buffer st) st =
      (case words s of [] \<Rightarrow> Some (Running (put_mem m st))
       | w # ws \<Rightarrow> (case command_of w of Some c \<Rightarrow> run_cmd c argv (put_mem m st)
                    | None \<Rightarrow> Some (Running (unknown w (put_mem m st)))))"
  by (rule execute_eq [OF assms])

text \<open>A machine whose command line holds a text.\<close>

abbreviation with_line :: "string \<Rightarrow> 'a machine_scheme \<Rightarrow> 'a machine_scheme" where
  "with_line t st \<equiv> put_mem (put_bytes (mem_of st) (command_buffer st) (bytes t @ [0])) st"

lemma with_line_ok:
  assumes "shell_ok st" "length t \<le> 255" "0 \<notin> set (bytes t)"
  shows "shell_ok (with_line t st)" "cstr (mem_of (with_line t st)) (Ptr (command_buffer (with_line t st))) (bytes t)"
proof -
  have b: "unat (command_buffer st) + 256 \<le> 2 ^ 32" using assms(1) by (simp add: shell_ok_def buffers_ok_def)
  have "agree_on (- cmd_set st) (mem_of st) (put_bytes (mem_of st) (command_buffer st) (bytes t @ [0]))"
    using b assms(2) by (intro agree_on_put_bytes) auto
  then show "shell_ok (with_line t st)" by (rule line_write [OF assms(1)])
  have "command_buffer (with_line t st) = command_buffer st" by (simp add: put_mem_def)
  then show "cstr (mem_of (with_line t st)) (Ptr (command_buffer (with_line t st))) (bytes t)"
    using b assms(2,3) by (simp add: cstr_put_bytes)
qed

theorem execute_dispatch_witness:
  "\<exists>st m. execute_command (command_buffer st) (st :: machine) = Some (Running (unknown (bytes ''lss'') (put_mem m st)))"
proof -
  let ?st = "with_line ''lss -a'' (demo_machine 0 [] [])"
  have k: "shell_ok (demo_machine 0 [] [])" by (rule demo_machine_shell) simp
  have z: "0 \<notin> set (bytes ''lss -a'')" "length ''lss -a'' \<le> 255" by simp_all
  note w = with_line_ok [OF k z(2,1)]
  have "words (bytes ''lss -a'') = [bytes ''lss'', bytes ''-a'']" by (simp add: words.simps blank_def)
  moreover have "command_of (bytes ''lss'') = None" by (simp add: command_of_def commands_def)
  ultimately show ?thesis
    using execute_dispatch [OF w(1) w(2)] z(2) by (simp del: bytes_Cons) blast
qed

text \<open>The branches of \<^verbatim>\<open>cat\<close> that print a message.\<close>

lemma colored_shown:
  assumes ok: "shell_ok st" and rep: "fs_rep (fsys st) A"
  shows "shell_step st (vga_set_color WHITE BLACK (fold vga_putchar cs (vga_set_color fg BLACK st)))"
    "fsys (vga_set_color WHITE BLACK (fold vga_putchar cs (vga_set_color fg BLACK st))) = fsys st"
    "terminal (vga_set_color WHITE BLACK (fold vga_putchar cs (vga_set_color fg BLACK st)))
      = term_puts (VGA_MAKE_COLOR fg BLACK) cs (terminal st)"
proof -
  have step: "console_step st (vga_set_color WHITE BLACK (fold vga_putchar cs (vga_set_color fg BLACK st)))"
    by (rule console_step_trans [OF console_step_trans [OF console_color console_puts] console_color])
  show "shell_step st (vga_set_color WHITE BLACK (fold vga_putchar cs (vga_set_color fg BLACK st)))"
    by (rule shell_step_console [OF shell_step_refl [OF ok] step])
  show "fsys (vga_set_color WHITE BLACK (fold vga_putchar cs (vga_set_color fg BLACK st))) = fsys st"
    by (rule console_step_machine(1) [OF step])
  have "cursor_ok st" using ok by (simp add: shell_ok_def)
  then show "terminal (vga_set_color WHITE BLACK (fold vga_putchar cs (vga_set_color fg BLACK st)))
      = term_puts (VGA_MAKE_COLOR fg BLACK) cs (terminal st)"
    using vga_puts_view [of "vga_set_color fg BLACK st" cs] by (simp add: vga_set_color_def terminal_def screen_def cursor_ok_def)
qed

lemma cat_missing:
  assumes rep: "fs_rep (fsys st) A" and n: "cstr (mem_of st) (Ptr a) n" and f: "find_slot n (slots A) = None"
  shows "cmd_cat (c # a # as) st = Some (vga_set_color WHITE BLACK
    (fold vga_putchar (bytes (''Error: File '' @ apos) @ n @ bytes (apos @ '' not found\<newline>'')) (vga_set_color LIGHT_RED BLACK st)))"
proof -
  have "cstr (mem_of (vga_set_color LIGHT_RED BLACK st)) (Ptr a) n" using n by (simp add: vga_set_color_def)
  then have msg: "colored LIGHT_RED (say_about b (Ptr a) d) st
      = Some (vga_set_color WHITE BLACK (fold vga_putchar (bytes b @ n @ bytes d) (vga_set_color LIGHT_RED BLACK st)))"
    if "0 \<notin> set (bytes b)" "0 \<notin> set (bytes d)" for b d
    using that by (simp add: colored_def say_about_eq)
  have "cmd_cat (c # a # as) st
      = colored LIGHT_RED (say_about (''Error: File '' @ apos) (Ptr a) (apos @ '' not found\<newline>'')) st"
    using fs_open_eq [OF rep n] f by (simp add: cmd_cat_def)
  also have "\<dots> = Some (vga_set_color WHITE BLACK (fold vga_putchar
      (bytes (''Error: File '' @ apos) @ n @ bytes (apos @ '' not found\<newline>'')) (vga_set_color LIGHT_RED BLACK st)))"
    by (rule msg) simp_all
  finally show ?thesis .
qed

lemma cat_empty:
  assumes rep: "fs_rep (fsys st) A" and n: "cstr (mem_of st) (Ptr a) n" and f: "find_slot n (slots A) = Some i"
    and e: "slots A ! i = Some e" "csize (econt e) = 0"
  shows "cmd_cat (c # a # as) st = Some (vga_set_color WHITE BLACK
    (fold vga_putchar (bytes ''(empty file)\<newline>'') (vga_set_color DARK_GREY BLACK st)))"
proof -
  note i = find_slot_lt [OF rep f]
  have "content_rep (mm (fsys st)) (f_data (mem_of st) (slot (file_table (fsys st)) i))
      (f_size (mem_of st) (slot (file_table (fsys st)) i)) (econt e)"
    using fs_repD(4) [OF rep i] e by (simp add: entry_rep_def)
  from content_size [OF this] e(2) have "fs_get_size (slot (file_table (fsys st)) i) (fsys st) = 0" by (simp add: fs_get_size_def)
  then have "cmd_cat (c # a # as) st = colored DARK_GREY (say ''(empty file)\<newline>'') st"
    using fs_open_eq [OF rep n] f slot_props(1) [OF fs_repD(1) [OF rep] i] by (simp add: cmd_cat_def)
  moreover have "say ''(empty file)\<newline>'' s = Some (fold vga_putchar (bytes ''(empty file)\<newline>'') s)" for s :: "'a machine_scheme"
    by (rule say_eq) simp
  ultimately show ?thesis by (simp add: colored_def del: bytes_Cons)
qed

text \<open>
  C6: \<^verbatim>\<open>cat\<close> on every branch: for an unknown name the error in red; for an empty file the remark in
  grey; otherwise the contents up to the first NUL in the current colour, and a newline unless the
  last byte is one (nothing at all if the heap has no room for the copy). The file system and the
  ownership of every heap block are afterwards what they were: the copy is always given back.
\<close>
theorem cat_prints:
  fixes st :: "'a machine_scheme"
  assumes ok: "shell_ok st" and rep: "fs_rep (fsys st) A" and n: "cstr (mem_of st) (Ptr a) n"
  shows "\<exists>st'. cmd_cat (c # a # as) st = Some st' \<and> shell_step st st' \<and> fs_rep (fsys st') A
    \<and> (\<forall>q k. owns (mm (fsys st')) q k \<longleftrightarrow> owns (mm (fsys st)) q k)
    \<and> (case find_slot n (slots A) of
         None \<Rightarrow> terminal st' = term_puts (VGA_MAKE_COLOR LIGHT_RED BLACK)
           (bytes (''Error: File '' @ apos) @ n @ bytes (apos @ '' not found\<newline>'')) (terminal st)
       | Some i \<Rightarrow> (\<exists>e. slots A ! i = Some e \<and>
           (if csize (econt e) = 0
            then terminal st' = term_puts (VGA_MAKE_COLOR DARK_GREY BLACK) (bytes ''(empty file)\<newline>'') (terminal st)
            else kmalloc (of_nat (csize (econt e)) + 1) (mm (fsys st)) = Some (NULL, mm (fsys st)) \<and> terminal st' = terminal st
              \<or> (\<exists>gs. length gs = csize (econt e) \<and> (\<forall>bs. econt e = Stored bs \<longrightarrow> gs = bs)
                 \<and> terminal st' = term_puts (vga_color st)
                     (takeWhile (\<lambda>c. c \<noteq> 0) gs @ (if last gs \<noteq> 10 then [10] else [])) (terminal st)))))"
proof (cases "find_slot n (slots A)")
  case None
  show ?thesis
    unfolding cat_missing [OF rep n None] None option.case
    by (intro exI conjI, rule refl) (simp_all only: colored_shown [OF ok rep] rep simp_thms)
next
  case (Some i)
  note i = find_slot_lt [OF rep Some]
  from find_slot_Some [OF Some] obtain e where e: "slots A ! i = Some e" by blast
  show ?thesis
  proof (cases "csize (econt e) = 0")
    case True
    show ?thesis
      unfolding cat_empty [OF rep n Some e True] Some option.case
      by (intro exI conjI, rule refl) (simp_all only: colored_shown [OF ok rep] rep e simp_thms, simp add: True)
  next
    case False
    with cmd_cat_file [OF ok rep i e, of "c # a # as"] fs_open_eq [OF rep n] Some e show ?thesis by auto
  qed
qed

theorem cat_prints_witness:
  "\<exists>st st' :: machine. cmd_cat [0x20000, 0x20004] st = Some st' \<and> terminal st' = term_puts 12
    (bytes (''Error: File '' @ apos) @ bytes ''a.txt'' @ bytes (apos @ '' not found\<newline>'')) (terminal st)"
proof -
  let ?m = "put_bytes (mem_of (demo_machine 0 [] [])) 0x20004 (bytes ''a.txt'' @ [0])"
  let ?st = "put_mem ?m (demo_machine 0 [] [])"
  have k: "shell_ok (demo_machine 0 [] [])" by (rule demo_machine_shell) simp
  have "agree_on (- cmd_set (demo_machine 0 [] [])) (mem_of (demo_machine 0 [] [])) ?m"
    by (rule agree_on_put_bytes) (auto simp: demo_machine_def)
  then have ok: "shell_ok ?st" by (rule line_write [OF k])
  have fs: "fsys (demo_machine 0 [] []) = boot_fs" by (simp add: demo_machine_def)
  have w: "agree_on (- range_of 0x20004 6) (fs_ram boot_fs) ?m" unfolding fs by (rule agree_on_put_bytes) auto
  have "client_region boot_fs (range_of 0x20004 6)" by (rule low_client_region [OF boot_fs_sel]) (simp_all add: HEAP_START_def)
  from client_write(1) [OF boot_fs_rep(1) this w] have rep: "fs_rep (fsys ?st) empty_fs" by (simp add: put_mem_def fs)
  have "cstr (mem_of ?st) (Ptr 0x20004) (bytes ''a.txt'')" by (simp add: cstr_put_bytes)
  from cat_prints [OF ok rep this, of "0x20000" "[]"] show ?thesis
    by (fastforce simp: VGA_MAKE_COLOR_def)
qed

end
