(* ===== verification/Kernel_Props.thy ===== *)
theory Kernel_Props
  imports Kernel Shell_Props
begin

text \<open>
  The start of the system, from the state the loader leaves: the splash screen is over after at most
  300 timer interrupts, and the machine that reaches the shell satisfies the shell's invariant.
\<close>

section \<open>Printing during the splash screen\<close>

lemma centered_step:
  assumes "0 \<notin> set (bytes t)" "length t < 2 ^ 32"
  shows "\<exists>st'. centered row t st = Some st' \<and> console_step st st'"
proof -
  from vga_print_centered_spec [OF cstr_Lit [OF assms(1)], of "mem_of st" row st] assms(2) obtain st' where
    st': "centered row t st = Some st'" "vga_row st' = vga_row st" "vga_col st' = vga_col st" "vga_color st' = vga_color st"
      "vga_rest st' = vga_rest st" "trace st' = trace st" "off_screen_same st st'"
    by (auto simp: centered_def)
  have "console_only st st'"
    using st' by (cases st, cases st') (simp add: console_only_def vga_rest_def)
  with st' show ?thesis by (auto simp: console_step_def cursor_ok_def)
qed

section \<open>Sleeping during the splash screen\<close>

text \<open>
  \<open>s\<close> is a machine the splash screen has reached from \<open>st\<close> with at most \<open>n\<close> batches of interrupts.
\<close>

definition splash_inv :: "'a machine_scheme \<Rightarrow> nat \<Rightarrow> 'a machine_scheme \<Rightarrow> bool" where
  "splash_inv st n s \<longleftrightarrow> ticking s \<and> ring_ok s \<and> timer_frequency s = 100 \<and> cursor_ok s
     \<and> fsys s = fsys st \<and> command_buffer s = command_buffer st \<and> list_buffer s = list_buffer st
     \<and> irq_handlers s = irq_handlers st \<and> (\<exists>j\<le>n. irqs s = drop j (irqs st))
     \<and> unat (timer_ticks s) + sum_list (map timers (irqs s)) < 2 ^ 32"

lemma splash_console: "splash_inv st n s \<Longrightarrow> console_step s s' \<Longrightarrow> splash_inv st n s'"
  using console_step_machine [of s s'] unfolding splash_inv_def ticking_def by metis

lemma waited_fs: "waited k s s' \<Longrightarrow> fsys s' = fsys s \<and> command_buffer s' = command_buffer s \<and> list_buffer s' = list_buffer s"
proof -
  assume w: "waited k s s'"
  have "kbd.more s' = kbd.more (s\<lparr>irqs := drop k (irqs s)\<rparr>)"
    using w driver_step_sel(11) [of "s\<lparr>irqs := drop k (irqs s)\<rparr>" s'] by (simp add: waited_def)
  then have "machine.fsys s' = machine.fsys (s\<lparr>irqs := drop k (irqs s)\<rparr>) \<and>
      machine.command_buffer s' = machine.command_buffer (s\<lparr>irqs := drop k (irqs s)\<rparr>) \<and>
      machine.list_buffer s' = machine.list_buffer (s\<lparr>irqs := drop k (irqs s)\<rparr>)" by (cases s, cases s') simp
  then show ?thesis by simp
qed

text \<open>Every batch brings a timer interrupt, so \<open>t\<close> ticks need at most \<open>t\<close> batches.\<close>

lemma ticks_bound: "\<forall>b\<in>set bs. 1 \<le> timers b \<Longrightarrow> length bs \<le> sum_list (map timers bs)"
  by (induction bs) fastforce+

abbreviation timed_batches :: "interrupt_frame list list \<Rightarrow> bool" where
  "timed_batches bs \<equiv> \<forall>b\<in>set bs. (\<forall>f\<in>set b. valid_irq f) \<and> 1 \<le> timers b"

lemma splash_sleep:
  assumes inv: "splash_inv st n s" and b: "timed_batches (irqs st)"
    and t: "unat (ms * 100 div 1000) = t" "0 < t" "n + t \<le> length (irqs st)"
  shows "\<exists>s'. timer_sleep_ms ms s = Some s' \<and> splash_inv st (n + t) s'"
proof -
  from inv obtain j where s: "ticking s" "ring_ok s" "timer_frequency s = 100" "cursor_ok s" "fsys s = fsys st"
    "command_buffer s = command_buffer st" "list_buffer s = list_buffer st" "j \<le> n" "irqs s = drop j (irqs st)"
    "unat (timer_ticks s) + sum_list (map timers (irqs s)) < 2 ^ 32" "irq_handlers s = irq_handlers st" by (auto simp: splash_inv_def)
  have bs: "timed_batches (irqs s)" using b s(9) set_drop_subset by fastforce
  then have vb: "valid_batches (irqs s)" by simp
  have "t \<le> length (irqs s)" using t(3) s(8,9) by simp
  also have "\<dots> \<le> sum_list (map timers (irqs s))" using bs by (intro ticks_bound) simp
  finally have enough: "t \<le> sum_list (map timers (irqs s))" .
  have e: "unat (timer_ticks s + of_nat t) = unat (timer_ticks s) + t"
    using enough s(10) by (simp add: unat_plus_no_wrap)
  from sleep_loop_returns [OF s(1) vb s(10), of "timer_ticks s + of_nat t"] enough obtain k s' where
    k: "sleep_loop (timer_ticks s + of_nat t) s = Some s'" "waited k s s'"
      "\<forall>i<k. sum_list (map timers (take i (irqs s))) < t" by (auto simp: e)
  have kl: "k \<le> length (irqs s)" using k(2) by (simp add: waited_def)
  have "k \<le> t"
  proof (cases k)
    case (Suc i)
    have "i = length (take i (irqs s))" using kl Suc by simp
    also have "\<dots> \<le> sum_list (map timers (take i (irqs s)))" using bs set_take_subset by (intro ticks_bound) fastforce
    also have "\<dots> < t" using k(3) Suc by simp
    finally show ?thesis using Suc by simp
  qed simp
  have tt: "of_nat t = ms * 100 div 1000" "ms * 100 div 1000 \<noteq> 0" using t(1,2) by auto
  have "timer_sleep_ms ms s = Some s'"
    using k(1) tt s(3) by (simp add: timer_sleep_ms_def timer_sleep_ticks_def Let_def)
  moreover have "splash_inv st (n + t) s'"
  proof -
    have d: "driver_step (s\<lparr>irqs := drop k (irqs s)\<rparr>) s'"
      "timer_ticks s' = timer_ticks s + of_nat (sum_list (map timers (take k (irqs s))))"
      using k(2) by (simp_all add: waited_def)
    have i: "irqs s' = drop (k + j) (irqs st)" using waited_irqs [OF k(2)] s(9) by simp
    have sp: "sum_list (map timers (irqs s)) = sum_list (map timers (take k (irqs s))) + sum_list (map timers (irqs s'))"
      using waited_irqs [OF k(2)] by (metis append_take_drop_id map_append sum_list_append)
    then have "unat (timer_ticks s') = unat (timer_ticks s) + sum_list (map timers (take k (irqs s)))"
      using d(2) s(10) by (simp add: unat_plus_no_wrap)
    then have "unat (timer_ticks s') + sum_list (map timers (irqs s')) < 2 ^ 32" using sp s(10) by simp
    moreover have "ticking s'" using ticking_waited [OF k(2)] s(1) by simp
    moreover have "ring_ok s'" using driver_step_sel(4) [OF d(1)] s(2) by (simp add: ring_ok_def)
    moreover have "cursor_ok s'" "timer_frequency s' = 100"
      using driver_step_sel(3,7,8) [OF d(1)] s(3,4) by (simp_all add: cursor_ok_def)
    moreover have "k + j \<le> n + t" using \<open>k \<le> t\<close> s(8) by simp
    moreover have "irq_handlers s' = irq_handlers st" using driver_step_sel(1) [OF d(1)] s(11) by simp
    ultimately show ?thesis using waited_fs [OF k(2)] s(5-7) i by (auto simp: splash_inv_def)
  qed
  ultimately show ?thesis by blast
qed

section \<open>The splash screen\<close>

lemma centered_runs:
  "0 \<notin> set (bytes t) \<Longrightarrow> length t < 2 ^ 32 \<Longrightarrow> splash_inv st n s \<Longrightarrow> runs (centered row t s) (splash_inv st n)"
  using centered_step [of t row s] splash_console [of st n s] by (auto simp: runs_def)

lemma percent_str_ok: "p \<le> 100 \<Longrightarrow> 0 \<notin> set (bytes (percent_str p)) \<and> length (percent_str p) < 2 ^ 32"
proof -
  assume p: "p \<le> 100"
  have "(of_char (char_of (48 + d)) :: u8) \<noteq> 0" if "d < 10" for d :: nat
  proof -
    have "(of_char (char_of (48 + d)) :: u8) = of_nat (48 + d)"
      using that of_nat_of_char [of "char_of (48 + d)", where 'a = u8, symmetric] by (simp del: of_nat_of_char)
    moreover have "unat (of_nat (48 + d) :: u8) = 48 + d"
      using that by (simp add: unat_of_nat take_bit_nat_eq_self del: of_nat_add)
    ultimately show ?thesis by (metis add_is_0 unsigned_0 zero_neq_numeral)
  qed
  with p show ?thesis by (auto simp: percent_str_def)
qed

lemma splash_bar_runs:
  assumes b: "timed_batches (irqs st)"
  shows "i + n = bar_width \<Longrightarrow> k + 7 * n \<le> length (irqs st) \<Longrightarrow> splash_inv st k s \<Longrightarrow>
    runs (splash_bar i n s) (splash_inv st (k + 7 * n))"
proof (induction n arbitrary: i k s)
  case (Suc n)
  let ?p = "(i + 1) * 100 div bar_width"
  have "?p \<le> 100" using Suc.prems(1) by (simp add: bar_width_def)
  note p = percent_str_ok [OF this]
  let ?s1 = "vga_set_color WHITE BLACK (vga_put_at bar_row (bar_start + 1 + of_nat i) 35 s)"
  have "splash_inv st k ?s1"
    by (rule splash_console [OF splash_console [OF Suc.prems(3) console_put_at] console_color])
  from centered_runs [OF _ _ this, of "replicate 12 CHR '' ''" 22] obtain s2 where
    s2: "centered 22 (replicate 12 CHR '' '') ?s1 = Some s2" "splash_inv st k s2" by (auto simp: runs_def bytes_def)
  from centered_runs [OF _ _ s2(2), of "percent_str ?p" 22] p obtain s3 where
    s3: "centered 22 (percent_str ?p) s2 = Some s3" "splash_inv st k s3" by (auto simp: runs_def)
  have "splash_inv st k (vga_set_color LIGHT_GREEN BLACK s3)" by (rule splash_console [OF s3(2) console_color])
  from splash_sleep [OF this b, of step_time_ms 7] Suc.prems(2) obtain s4 where
    s4: "timer_sleep_ms step_time_ms (vga_set_color LIGHT_GREEN BLACK s3) = Some s4" "splash_inv st (k + 7) s4"
    by (auto simp: step_time_ms_def bar_width_def unat_div)
  from Suc.IH [OF _ _ s4(2)] Suc.prems(1,2) s2(1) s3(1) s4(1) show ?case
    by (simp add: Let_def algebra_simps)
qed (simp add: runs_Some)

lemma show_splash_runs:
  assumes b: "timed_batches (irqs st)" "300 \<le> length (irqs st)" and inv: "splash_inv st 0 st"
  shows "runs (show_splash_screen st) (splash_inv st 300)"
proof -
  note con = splash_console [OF _ console_color] splash_console [OF _ console_clear] splash_console [OF _ console_hide]
    splash_console [OF _ console_put_at] splash_console [OF _ console_show]
  have bar: "runs (splash_bar 0 bar_width s) (splash_inv st 280)" if "splash_inv st 0 s" for s
    using splash_bar_runs [OF b(1), of 0 bar_width 0 s] that b(2) by (simp add: bar_width_def)
  have sleep: "runs (timer_sleep_ms 200 s) (splash_inv st 300)" if "splash_inv st 280 s" for s
    using splash_sleep [OF that b(1), of 200 20] b(2) by (auto simp: runs_def unat_div)
  show ?thesis
    unfolding show_splash_screen_def Let_def
    by (intro runs_via [OF centered_runs] runs_via [OF bar] runs_via [OF sleep] runs_Some con inv; assumption?)
      (simp_all add: con inv)
qed

section \<open>Initialisation\<close>

text \<open>
  What the loader leaves: the static data of the drivers as the compiler laid it out (an empty key
  ring, no handler registered), the shell's and the file system's arrays in place, and the root as
  the current directory.
\<close>

definition loaded :: "'a machine_scheme \<Rightarrow> bool" where
  "loaded st \<longleftrightarrow> ring_ok st \<and> irq_handlers st = replicate 16 None \<and> layout (fsys st) \<and> buffers_ok st
     \<and> cstr (mem_of st) (Ptr (current_dir (fsys st))) (bytes ''/'')"

text \<open>The fields the start of the system is about, and a machine at a stage of it.\<close>

definition stage_view :: "'a machine_scheme \<Rightarrow> ramfs \<times> interrupt_frame list list \<times> addr \<times> addr \<times> handler option list \<times> bool \<times> u32 \<times> u32" where
  "stage_view st = (fsys st, irqs st, command_buffer st, list_buffer st, irq_handlers st, int_flag st,
     timer_ticks st, timer_frequency st)"

definition stage where
  "stage v q st \<longleftrightarrow> cursor_ok st \<and> ring_ok st \<and> stage_view st = v \<and> queue st = q"

lemma stage_console: "stage v q s \<Longrightarrow> console_step s s' \<Longrightarrow> stage v q s'"
  using console_step_machine [of s s'] by (simp add: stage_def stage_view_def)

lemma stage_color: "stage v q s \<Longrightarrow> stage v q (vga_set_color fg bg s)"
  by (rule stage_console [OF _ console_color])

lemma stage_say: "0 \<notin> set (bytes t) \<Longrightarrow> stage v q s \<Longrightarrow> runs (say t s) (stage v q)"
  using say_step [of t s] stage_console [of v q s] by (auto simp: runs_def)

lemma stage_say_ok: "stage v q s \<Longrightarrow> runs (say_ok s) (stage v q)"
  unfolding say_ok_def by (auto intro!: runs_via [OF stage_say] runs_Some stage_color)

lemma stage_memory: "stage (fs, v) q s \<Longrightarrow> stage (fs\<lparr>mm := memory_init (mm fs)\<rparr>, v) q
    (s\<lparr>fsys := (fsys s)\<lparr>mm := memory_init (mm (fsys s))\<rparr>\<rparr>)"
  and stage_fs: "stage (fs, v) q s \<Longrightarrow> stage (fs_init fs, v) q (s\<lparr>fsys := fs_init (fsys s)\<rparr>)"
  by (auto simp: stage_def stage_view_def cursor_ok_def ring_ok_def queue_def ring_len_def)

lemma stage_idt: "stage (fs, i, c, l, h, b, t) q s \<Longrightarrow> stage (fs, i, c, l, h, True, t) q (idt_init s)"
  using idt_init_eq [of s] by (auto simp: stage_def stage_view_def cursor_ok_def ring_ok_def queue_def ring_len_def)

lemma stage_timer:
  assumes "stage (fs, i, c, l, h, b, t, f) q s"
  shows "runs (timer_init 100 s) (stage (fs, i, c, l, h[0 := Some Timer_handler], b, 0, 100) q)"
  using assms by (auto simp: timer_init_def irq_register_handler_def outb_def Let_def runs_def stage_def stage_view_def
      cursor_ok_def ring_ok_def queue_def ring_len_def)

lemma stage_keyboard: "stage (fs, i, c, l, h, v) q s \<Longrightarrow>
    stage (fs, i, c, l, h[1 := Some Keyboard_handler], v) [] (keyboard_init s)"
  by (auto simp: keyboard_init_def irq_register_handler_def stage_def stage_view_def cursor_ok_def ring_ok_def
      queue_def ring_len_def)

lemma init_system_runs:
  assumes "stage (fs, i, c, l, h, b, t) q s"
  shows "runs (init_system s) (stage (fs_init (fs\<lparr>mm := memory_init (mm fs)\<rparr>), i, c, l,
    h[0 := Some Timer_handler, 1 := Some Keyboard_handler], True, 0, 100) [])"
proof -
  obtain t1 t2 where t: "t = (t1, t2)" by (cases t)
  show ?thesis
    unfolding init_system_def
    by (rule runs_via [OF stage_say], simp, rule stage_color [OF assms [unfolded t]],
        rule runs_via [OF stage_say_ok [OF stage_memory]], assumption,
        rule runs_via [OF stage_say], simp, assumption,
        rule runs_via [OF stage_say_ok [OF stage_idt]], assumption,
        rule runs_via [OF stage_say], simp, assumption,
        rule runs_via [OF stage_timer], assumption, rule runs_via [OF stage_say_ok], assumption,
        rule runs_via [OF stage_say], simp, assumption,
        rule runs_via [OF stage_say_ok [OF stage_keyboard]], assumption,
        rule runs_via [OF stage_say], simp, assumption, rule stage_say_ok [OF stage_fs])
qed

lemma kernel_handlers_ticking:
  "int_flag st \<Longrightarrow> irq_handlers st = (replicate 16 None)[0 := Some Timer_handler] \<Longrightarrow> ticking st"
  by (simp add: ticking_def nth_list_update)

lemma early_init:
  assumes l: "loaded st" and t: "sum_list (map timers (irqs st)) < 2 ^ 32"
  obtains s where "timer_init 100 (idt_init (vga_clear (vga_init st))) = Some s" "splash_inv s 0 s"
    "fsys s = fsys st" "command_buffer s = command_buffer st" "list_buffer s = list_buffer st" "irqs s = irqs st"
    "irq_handlers s = (replicate 16 None)[0 := Some Timer_handler]"
proof -
  let ?s = "vga_clear (vga_init st)"
  have "console_step st ?s" by (rule console_step_trans [OF console_init console_clear])
  note m = console_step_machine [OF this]
  have "cursor_ok ?s" by (simp add: vga_clear_def vga_update_cursor_def outb_def Let_def cursor_ok_def)
  then have "stage (fsys st, irqs st, command_buffer st, list_buffer st, replicate 16 None, int_flag st,
      timer_ticks st, timer_frequency st) (queue st) ?s"
    using l m by (simp add: stage_def stage_view_def loaded_def)
  from stage_timer [OF stage_idt [OF this]] obtain s where s: "timer_init 100 (idt_init ?s) = Some s"
    "stage (fsys st, irqs st, command_buffer st, list_buffer st, (replicate 16 None)[0 := Some Timer_handler], True, 0, 100)
      (queue st) s" by (auto simp: runs_def)
  then have f: "fsys s = fsys st" "command_buffer s = command_buffer st" "list_buffer s = list_buffer st" "irqs s = irqs st"
    "irq_handlers s = (replicate 16 None)[0 := Some Timer_handler]" "int_flag s" "timer_ticks s = 0" "timer_frequency s = 100"
    "cursor_ok s" "ring_ok s" by (simp_all add: stage_def stage_view_def)
  have "splash_inv s 0 s" using f t kernel_handlers_ticking [OF f(6,5)] by (simp add: splash_inv_def)
  with that s(1) f(1-5) show thesis by blast
qed

lemma memory_init_outside: "agree_on (- arena) (ram st) (ram (memory_init st))"
proof -
  have u: "unat (of_nat HEAP_START :: addr) = HEAP_START" by (simp add: HEAP_START_def)
  have "ram (memory_init st) = set_next (set_used (set_size (ram st) (of_nat HEAP_START) (of_nat HEAP_SIZE))
      (of_nat HEAP_START) 0) (of_nat HEAP_START) NULL" by (simp add: memory_init_def Let_def)
  moreover have "agree_on (- arena) (ram st) (set_next (set_used (set_size (ram st) (of_nat HEAP_START) (of_nat HEAP_SIZE))
      (of_nat HEAP_START) 0) (of_nat HEAP_START) NULL)"
    unfolding set_next_def set_used_def set_size_def
    by (intro agree_on_store32 agree_on_upd agree_on_refl) (auto simp: arena_def HEAP_START_def HEAP_SIZE_def)
  ultimately show ?thesis by simp
qed

text \<open>The file system after \<^verbatim>\<open>memory_init\<close> and \<^verbatim>\<open>fs_init\<close>.\<close>

lemma fresh_fs:
  assumes "layout fs" "cstr (fs_ram fs) (Ptr (current_dir fs)) (bytes ''/'')"
  defines "fs1 \<equiv> fs\<lparr>mm := memory_init (mm fs)\<rparr>"
  shows "fs_rep (fs_init fs1) empty_fs" "file_table (fs_init fs1) = file_table fs" "current_dir (fs_init fs1) = current_dir fs"
proof -
  have ok: "heap_ok (mm fs1)" using memory_init_rep by (auto simp: heap_ok_def fs1_def)
  have lay: "layout fs1" using assms(1) by (simp add: layout_def fs1_def)
  have b: "unat (current_dir fs) + 32 \<le> 2 ^ 32" "range_of (unat (current_dir fs)) 32 \<inter> arena = {}"
    using assms(1) by (simp_all add: layout_def)
  have "range_of (unat (current_dir fs)) 2 \<subseteq> range_of (unat (current_dir fs)) 32" by (rule range_of_subset) simp_all
  then have "cspan (Ptr (current_dir fs)) (Suc (length (bytes ''/''))) \<subseteq> - arena" using b(2) by (auto simp: numeral_2_eq_2)
  from agree_on_mono [OF memory_init_outside this]
  have "cstr (fs_ram fs1) (Ptr (current_dir fs1)) (bytes ''/'')"
    using cstr_cong [of "Ptr (current_dir fs)" "bytes ''/''" "fs_ram fs" "fs_ram fs1"] assms(2) b(1) by (simp add: fs1_def)
  from fs_init_rep(1) [OF lay ok this] show "fs_rep (fs_init fs1) empty_fs" by (simp add: FS_MAX_FILENAME_def)
  show "file_table (fs_init fs1) = file_table fs" "current_dir (fs_init fs1) = current_dir fs"
    by (simp_all add: fs_init_def set_ram_def fs1_def)
qed

section \<open>The start of the system\<close>

lemma kernel_start_result:
  assumes l: "loaded st" and b: "timed_batches (irqs st)" "300 \<le> length (irqs st)" "sum_list (map timers (irqs st)) < 2 ^ 32"
  shows "\<exists>k\<le>300. runs (kernel_start st) (\<lambda>st'. shell_ok st' \<and> queue st' = [] \<and> int_flag st' \<and> timer_ticks st' = 0
    \<and> timer_frequency st' = 100 \<and> irq_handlers st' = [Some Timer_handler, Some Keyboard_handler] @ replicate 14 None
    \<and> fs_rep (fsys st') empty_fs \<and> irqs st' = drop k (irqs st))"
proof -
  obtain s where s: "timer_init 100 (idt_init (vga_clear (vga_init st))) = Some s" "splash_inv s 0 s"
    "fsys s = fsys st" "command_buffer s = command_buffer st" "list_buffer s = list_buffer st" "irqs s = irqs st"
    "irq_handlers s = (replicate 16 None)[0 := Some Timer_handler]" by (rule early_init [OF l b(3)]) blast
  from show_splash_runs [of s] b(1,2) s(2,6) obtain s3 where s3: "show_splash_screen s = Some s3" "splash_inv s 300 s3"
    by (auto simp: runs_def)
  then obtain k where k: "k \<le> 300" "irqs s3 = drop k (irqs st)" using s(6) by (auto simp: splash_inv_def)
  from s3(2) s have st3: "stage (fsys st, drop k (irqs st), command_buffer st, list_buffer st,
      (replicate 16 None)[0 := Some Timer_handler], int_flag s3, timer_ticks s3, timer_frequency s3) (queue s3) s3"
    using k(2) by (simp add: stage_def stage_view_def splash_inv_def)
  define fs where "fs = fs_init ((fsys st)\<lparr>mm := memory_init (mm (fsys st))\<rparr>)"
  from init_system_runs [OF st3, folded fs_def] obtain s4 where s4: "init_system s3 = Some s4"
    "stage (fs, drop k (irqs st), command_buffer st, list_buffer st,
      (replicate 16 None)[0 := Some Timer_handler, 0 := Some Timer_handler, 1 := Some Keyboard_handler], True, 0, 100) [] s4"
    by (auto simp: runs_def)
  have "layout (fsys st)" "cstr (mem_of st) (Ptr (current_dir (fsys st))) (bytes ''/'')" "buffers_ok st"
    using l by (simp_all add: loaded_def)
  note fr = fresh_fs [OF this(1,2), folded fs_def] and buf = this(3)
  have h: "(replicate 16 None)[0 := Some Timer_handler, 0 := Some Timer_handler, 1 := Some Keyboard_handler]
      = [Some Timer_handler, Some Keyboard_handler] @ replicate 14 None" by (simp add: eval_nat_numeral)
  have final: "shell_ok s' \<and> queue s' = [] \<and> int_flag s' \<and> timer_ticks s' = 0
    \<and> timer_frequency s' = 100 \<and> irq_handlers s' = [Some Timer_handler, Some Keyboard_handler] @ replicate 14 None
    \<and> fs_rep (fsys s') empty_fs \<and> irqs s' = drop k (irqs st)"
    if "stage (fs, drop k (irqs st), command_buffer st, list_buffer st,
      (replicate 16 None)[0 := Some Timer_handler, 0 := Some Timer_handler, 1 := Some Keyboard_handler], True, 0, 100) [] s'" for s'
  proof -
    from that have v: "cursor_ok s'" "ring_ok s'" "fsys s' = fs" "irqs s' = drop k (irqs st)"
      "command_buffer s' = command_buffer st" "list_buffer s' = list_buffer st" "int_flag s'" "timer_ticks s' = 0"
      "timer_frequency s' = 100" "queue s' = []"
      "irq_handlers s' = [Some Timer_handler, Some Keyboard_handler] @ replicate 14 None"
      unfolding h stage_def stage_view_def by simp_all
    have "buffers_ok s'" using buf v(3,5,6) fr(2,3) by (simp add: buffers_ok_def table_set_def cwd_set_def)
    with v fr(1) show ?thesis by (auto simp: shell_ok_def)
  qed
  have "runs (kernel_start st) (stage (fs, drop k (irqs st), command_buffer st, list_buffer st,
      (replicate 16 None)[0 := Some Timer_handler, 0 := Some Timer_handler, 1 := Some Keyboard_handler], True, 0, 100) [])"
    unfolding kernel_start_def Let_def
    by (rule runs_value [OF s(1)], rule runs_value [OF s3(1)], rule runs_value [OF s4(1)],
        rule runs_via [OF stage_say], simp, rule stage_color [OF s4(2)], rule stage_say, simp, rule stage_color)
  then have "runs (kernel_start st) (\<lambda>st'. shell_ok st' \<and> queue st' = [] \<and> int_flag st' \<and> timer_ticks st' = 0
    \<and> timer_frequency st' = 100 \<and> irq_handlers st' = [Some Timer_handler, Some Keyboard_handler] @ replicate 14 None
    \<and> fs_rep (fsys st') empty_fs \<and> irqs st' = drop k (irqs st))"
    using final by (auto simp: runs_def)
  with k(1) show ?thesis by blast
qed

text \<open>
  C2: From the state the loader leaves, with interrupts arriving that each time bring at least one
  timer tick, the kernel reaches its shell: \<^verbatim>\<open>kernel_main\<close> returns from the splash screen after at
  most 300 waits (the 40 steps of the bar take 7 ticks each, the pause at the end 20) and from the
  initialisation, with the shell's invariant in place, the tick and key handlers registered on lines
  0 and 1, interrupts on, the tick counter at 0 and an empty file system.
\<close>
theorem kernel_reaches_shell:
  assumes "loaded st" "timed_batches (irqs st)" "300 \<le> length (irqs st)" "sum_list (map timers (irqs st)) < 2 ^ 32"
  shows "\<exists>k\<le>300. \<exists>st'. kernel_start st = Some st' \<and> irqs st' = drop k (irqs st)
    \<and> shell_ok st' \<and> queue st' = [] \<and> int_flag st' \<and> timer_ticks st' = 0 \<and> timer_frequency st' = 100
    \<and> irq_handlers st' = [Some Timer_handler, Some Keyboard_handler] @ replicate 14 None
    \<and> fs_rep (fsys st') empty_fs"
  using kernel_start_result [OF assms] by (auto simp: runs_def)

lemma loaded_demo: "loaded ((demo_machine 0 [] bs)\<lparr>irq_handlers := replicate 16 None\<rparr>)"
proof -
  have "shell_ok (demo_machine 0 [] bs)" by (rule demo_machine_shell) simp
  then have "buffers_ok (demo_machine 0 [] bs)" "ring_ok (demo_machine 0 [] bs)" by (simp_all add: shell_ok_def)
  moreover have "fsys (demo_machine 0 [] bs) = boot_fs" by (simp add: demo_machine_def)
  ultimately show ?thesis
    using fs_repD(1,7) [OF boot_fs_rep(1)] by (simp add: loaded_def buffers_ok_def ring_ok_def)
qed

theorem kernel_reaches_shell_witness:
  "\<exists>st'. kernel_start ((demo_machine 0 [] (replicate 300 [frame_of 32]))\<lparr>irq_handlers := replicate 16 None\<rparr>) = Some st'
    \<and> shell_ok st'"
proof -
  let ?st = "(demo_machine 0 [] (replicate 300 [frame_of 32]))\<lparr>irq_handlers := replicate 16 None\<rparr>"
  have i: "irqs ?st = replicate 300 [frame_of 32]" by (simp add: demo_machine_def)
  have "timed_batches (irqs ?st)" "300 \<le> length (irqs ?st)" "sum_list (map timers (irqs ?st)) < 2 ^ 32"
    unfolding i by (simp_all add: sum_list_replicate)
  from kernel_reaches_shell [OF loaded_demo this] show ?thesis by blast
qed

end
