(* ===== verification/Key_Types.thy ===== *)
theory Key_Types
  imports Machine_Props
begin

text \<open>
  What travels from the keyboard to the program: nonzero 7-bit characters only, whatever the device
  sends and whenever the interrupts arrive. So a line that is read is a C string of its length.
\<close>

section \<open>Characters\<close>

definition key_code :: "u8 \<Rightarrow> bool" where
  "key_code c \<longleftrightarrow> c \<noteq> 0 \<and> c < 128"

lemma tables_7_bit:
  "k < 59 \<Longrightarrow> scancode_to_ascii ! k < 128" "k < 59 \<Longrightarrow> scancode_to_ascii_shift ! k < 128"
proof -
  have "list_all (\<lambda>c. c < 128) scancode_to_ascii" "list_all (\<lambda>c. c < 128) scancode_to_ascii_shift"
    by (simp_all add: scancode_to_ascii_def scancode_to_ascii_shift_def)
  then show "k < 59 \<Longrightarrow> scancode_to_ascii ! k < 128" "k < 59 \<Longrightarrow> scancode_to_ascii_shift ! k < 128"
    by (simp_all add: list_all_length length_scancode_to_ascii length_scancode_to_ascii_shift)
qed

lemma us_key_7_bit: "k < 59 \<Longrightarrow> us_key k s cp ct < 128"
proof -
  have "c - d < 128" if "c < 128" "d \<le> c" for c d :: u8
    using that by (simp add: word_less_nat_alt word_le_nat_alt unat_sub)
  moreover have "32 \<le> c" "96 \<le> c" if "is_letter c" for c :: u8
    using that by (simp_all add: is_letter_def word_le_nat_alt)
  moreover assume "k < 59"
  ultimately show ?thesis using tables_7_bit [of k] by (auto simp: us_key_def us_cap_table Let_def)
qed

lemma accepted_codes: "c \<in> set (accepted k) \<Longrightarrow> key_code c"
  using us_key_7_bit by (auto simp: accepted_def typed_char_def key_code_def Let_def word_less_nat_alt split: option.splits if_splits)

section \<open>The invariant\<close>

definition keys_typed :: "'a kbd_scheme \<Rightarrow> bool" where
  "keys_typed st \<longleftrightarrow> ring_ok st \<and> (\<forall>c\<in>set (queue st). key_code c)"

lemma keys_typed_same: "same_keys st st' \<Longrightarrow> keys_typed st' = keys_typed st"
  using same_keys_queue [of st st'] by (simp add: keys_typed_def)

lemma keys_typed_handler: "keys_typed st \<Longrightarrow> keys_typed (keyboard_handler st)"
  using keyboard_handler_spec [of st] accepted_codes [of _ st] by (auto simp: keys_typed_def)

lemma keys_typed_irq: "keys_typed st \<Longrightarrow> irq_handler f st = Some st' \<Longrightarrow> keys_typed st'"
proof -
  assume t: "keys_typed st" and r: "irq_handler f st = Some st'"
  have o: "keys_typed (outb p v s) = keys_typed s" for p v and s :: "'b kbd_scheme"
    by (rule keys_typed_same) (simp add: same_keys_def outb_def)
  have "keys_typed (timer_handler st) = keys_typed st"
    by (rule keys_typed_same) (simp add: same_keys_def timer_handler_def)
  with t r o keys_typed_handler [OF t] show ?thesis
    by (auto simp: irq_handler_def Let_def split: if_splits option.splits handler.splits)
qed

lemma keys_typed_deliver: "keys_typed st \<Longrightarrow> deliver fs st = Some st' \<Longrightarrow> keys_typed st'"
  by (induction fs arbitrary: st) (auto split: bind_splits dest: keys_typed_irq)

lemma keys_typed_halt:
  assumes "keys_typed st" "halt st = Some st'"
  shows "keys_typed st'"
proof -
  from assms(2) obtain b bs where "deliver b (st\<lparr>irqs := bs\<rparr>) = Some st'" by (auto simp: halt_def split: if_splits list.splits)
  moreover have "keys_typed (st\<lparr>irqs := bs\<rparr>)" using assms(1) keys_typed_same [of st "st\<lparr>irqs := bs\<rparr>"] by (simp add: same_keys_def)
  ultimately show ?thesis by (rule keys_typed_deliver [rotated])
qed

section \<open>Reading\<close>

lemma deliver_fsys: "deliver fs st = Some st' \<Longrightarrow> kbd.more st' = kbd.more st"
proof (induction fs arbitrary: st)
  case (Cons f fs)
  then obtain st1 where 1: "irq_handler f st = Some st1" "deliver fs st1 = Some st'" by (auto split: bind_splits)
  have "kbd.more (keyboard_handler st) = kbd.more st"
    by (auto simp: keyboard_handler_def keyboard_key_def buffer_put_def inb_def Let_def)
  with 1(1) have "kbd.more st1 = kbd.more st"
    by (auto simp: irq_handler_def Let_def outb_def timer_handler_def split: if_splits option.splits handler.splits)
  with Cons.IH [OF 1(2)] show ?case by simp
qed simp

lemma key_wait_typed:
  "key_wait st = Some st' \<Longrightarrow> keys_typed st \<longrightarrow> keys_typed st' \<and> queue st' \<noteq> [] \<and> fsys st' = fsys st"
proof (induction rule: key_wait.raw_induct [rotated, consumes 1, case_names step])
  case 1: (step w st st')
  show ?case
  proof (cases "keyboard_has_key st")
    case True
    with 1 show ?thesis using has_key_queue by (auto simp: keys_typed_def)
  next
    case False
    with 1(2) obtain st1 where h: "halt st = Some st1" "w st1 = Some st'" by (auto split: bind_splits)
    from h(1) obtain b bs where "deliver b (st\<lparr>irqs := bs\<rparr>) = Some st1" by (auto simp: halt_def split: if_splits list.splits)
    from deliver_fsys [OF this] have "fsys st1 = fsys st" by (cases st; cases st1; simp)
    with 1(1) [OF h(2)] keys_typed_halt [OF _ h(1)] show ?thesis by simp
  qed
qed

lemma getchar_typed:
  assumes "keys_typed st" "keyboard_getchar st = Some (c, st')"
  shows "key_code c" "keys_typed st'" "fsys st' = fsys st"
proof -
  from assms(2) obtain st1 where w: "key_wait st = Some st1" "buffer_take st1 = (c, st')"
    by (auto simp: keyboard_getchar_def split: bind_splits)
  with key_wait_typed [OF w(1)] assms(1) have k: "keys_typed st1" "queue st1 \<noteq> []" "fsys st1 = fsys st" by simp_all
  then obtain ks where q: "queue st1 = c # ks" "queue st' = ks" "ring_ok st'"
    using buffer_take_queue [of st1] buffer_take_ok [of st1] w(2) by (cases "queue st1") (auto simp: keys_typed_def)
  with k(1) show "key_code c" "keys_typed st'" by (simp_all add: keys_typed_def)
  show "fsys st' = fsys st" using buffer_take_sel(1) [of st1] w(2) k(3) by simp
qed

definition line_code :: "u8 \<Rightarrow> bool" where
  "line_code c \<longleftrightarrow> key_code c \<and> c \<noteq> 8 \<and> c \<noteq> 10"

abbreviation line_so_far :: "addr \<Rightarrow> u32 \<Rightarrow> u32 \<Rightarrow> 'a machine_scheme \<Rightarrow> bool" where
  "line_so_far buffer max_length i st \<equiv> keys_typed st \<and> unat i < unat max_length
     \<and> (\<forall>c\<in>set (bytes_at (mem_of st) buffer (unat i)). line_code c)"

lemma keys_typed_step [simp]:
  "keys_typed (vga_putchar c st) = keys_typed st" "keys_typed (put_mem m st) = keys_typed st"
  by (simp_all add: keys_typed_def putchar_sel)

text \<open>One key more in the buffer.\<close>

lemma line_next:
  assumes "unat buffer + unat max_length \<le> 2 ^ 32" "i < max_length - 1" "unat i < unat max_length"
    and "\<forall>c\<in>set (bytes_at m buffer (unat i)). line_code c" "line_code k"
  shows "unat (i + 1) < unat max_length" "\<forall>c\<in>set (bytes_at (m(buffer + i := k)) buffer (unat (i + 1))). line_code c"
proof -
  have lt: "unat i + 1 < unat max_length"
    using assms(2,3) by (simp add: word_less_nat_alt unat_sub word_le_nat_alt)
  then have u: "unat (i + 1) = unat i + 1" using unat_u32_lt [of max_length] by (intro unat_Suc_no_wrap) linarith
  show "unat (i + 1) < unat max_length" using lt u by simp
  have o: "unat (buffer + i) = unat buffer + unat i" using assms(1) lt by (simp add: unat_plus_no_wrap)
  have "bytes_at m buffer (unat i) = bytes_at (m(buffer + i := k)) buffer (unat i)"
    using assms(1) lt o by (intro bytes_at_cong agree_on_upd agree_on_refl) simp_all
  then have "bytes_at (m(buffer + i := k)) buffer (unat (i + 1)) = bytes_at m buffer (unat i) @ [k]"
    unfolding u bytes_at_add by (simp add: bytes_at_Suc)
  then show "\<forall>c\<in>set (bytes_at (m(buffer + i := k)) buffer (unat (i + 1))). line_code c" using assms(4,5) by simp
qed

lemma readline_loop_typed:
  "readline_loop buffer max_length i st = Some (n, st') \<Longrightarrow> unat buffer + unat max_length \<le> 2 ^ 32 \<longrightarrow>
    line_so_far buffer max_length i st \<longrightarrow> line_so_far buffer max_length n st'"
proof (induction buffer max_length i st "(n, st')" arbitrary: n st'
    rule: readline_loop.raw_induct [rotated, consumes 1, case_names step])
  case 1: (step loop buffer max_length i st)
  show ?case
  proof (intro impI)
    assume b: "unat buffer + unat max_length \<le> 2 ^ 32" and s: "line_so_far buffer max_length i st"
    show "line_so_far buffer max_length n st'"
    proof (cases "i < max_length - 1")
      case False
      with 1(2) s show ?thesis by simp
    next
      case True
      with 1(2) obtain c st1 where g: "keyboard_getchar st = Some (c, st1)" and r: "(if c = 10 then Some (i, vga_putchar 10 st1)
          else if c = 8 then (if 0 < i then loop buffer max_length (i - 1) (vga_putchar 8 st1) else loop buffer max_length i st1)
          else loop buffer max_length (i + 1) (vga_putchar c (put_mem ((mem_of st1)(buffer + i := c)) st1))) = Some (n, st')"
        by (auto split: bind_splits)
      have k: "key_code c" "keys_typed st1" "fsys st1 = fsys st" using getchar_typed [OF _ g] s by blast+
      show ?thesis
      proof (cases "c = 10 \<or> c = 8")
        case True
        show ?thesis
        proof (cases "c = 8 \<and> 0 < i")
          case del8: True
          then have u: "unat (i - 1) = unat i - 1" "unat (i - 1) \<le> unat i" by (simp_all add: unat_minus_no_wrap word_less_nat_alt)
          have "set (bytes_at (mem_of st) buffer (unat (i - 1))) \<subseteq> set (bytes_at (mem_of st) buffer (unat i))"
            using set_take_subset [of "unat (i - 1)" "bytes_at (mem_of st) buffer (unat i)"] u(2) by (simp add: take_bytes_at)
          moreover have "unat (i - 1) < unat max_length" using s u(2) by linarith
          ultimately have "line_so_far buffer max_length (i - 1) (vga_putchar 8 st1)"
            using s k(2,3) unfolding keys_typed_step putchar_sel k(3) by blast
          moreover have "loop buffer max_length (i - 1) (vga_putchar 8 st1) = Some (n, st')" using r del8 by simp
          from 1(1) [OF this] b have "line_so_far buffer max_length (i - 1) (vga_putchar 8 st1) \<longrightarrow> ?thesis" by simp
          ultimately show ?thesis by blast
        next
          case stay: False
          have e: "line_so_far buffer max_length i st1" "line_so_far buffer max_length i (vga_putchar 10 st1)"
            using s k(2,3) by (simp_all add: putchar_sel)
          show ?thesis
          proof (cases "c = 10")
            case True
            with r e(2) show ?thesis by simp
          next
            case False
            with r True stay have "loop buffer max_length i st1 = Some (n, st')" by (auto split: if_splits)
            from 1(1) [OF this] b e(1) show ?thesis by simp
          qed
        qed
      next
        case put: False
        have l: "line_code c" using put k(1) by (simp add: line_code_def)
        have "\<forall>c\<in>set (bytes_at (mem_of st1) buffer (unat i)). line_code c" using s k(3) by simp
        note ln = line_next [OF b True conjunct1 [OF conjunct2 [OF s]] this l]
        have "loop buffer max_length (i + 1) (vga_putchar c (put_mem ((mem_of st1)(buffer + i := c)) st1)) = Some (n, st')"
          using r put by simp
        from 1(1) [OF this] b have "line_so_far buffer max_length (i + 1)
            (vga_putchar c (put_mem ((mem_of st1)(buffer + i := c)) st1)) \<longrightarrow> ?thesis" by simp
        moreover have "line_so_far buffer max_length (i + 1) (vga_putchar c (put_mem ((mem_of st1)(buffer + i := c)) st1))"
          using ln k(2) by (simp add: putchar_sel del: fun_upd_apply)
        ultimately show ?thesis by blast
      qed
    qed
  qed
qed

text \<open>
  C39: What the program reads from the keyboard is typed right. If the ring holds key codes (nonzero
  7-bit characters), then whatever the keyboard sends and however many interrupts arrive meanwhile, a
  line that \<^verbatim>\<open>keyboard_readline\<close> returns is a C string of the returned length, shorter than the buffer,
  made of key codes other than Backspace and Enter; and the ring still holds key codes.
\<close>
theorem readline_type:
  assumes "keys_typed st" "unat buffer + unat max_length \<le> 2 ^ 32" "0 < max_length"
    and "keyboard_readline buffer max_length st = Some (n, st')"
  shows "\<exists>line. cstr (mem_of st') (Ptr buffer) line \<and> length line = unat n \<and> unat n < unat max_length
    \<and> (\<forall>c\<in>set line. line_code c) \<and> keys_typed st'"
proof -
  from assms(4) obtain st1 where r: "readline_loop buffer max_length 0 st = Some (n, st1)"
    "st' = put_mem ((mem_of st1)(buffer + n := 0)) st1" by (auto simp: keyboard_readline_def split: bind_splits)
  from readline_loop_typed [OF r(1)] assms(1-3) have s: "line_so_far buffer max_length n st1" by (simp add: word_less_nat_alt)
  let ?l = "bytes_at (mem_of st1) buffer (unat n)"
  have o: "unat (buffer + n) = unat buffer + unat n" using assms(2) s by (simp add: unat_plus_no_wrap)
  have "?l = bytes_at (mem_of st') buffer (unat n)"
    unfolding r(2) put_mem_sel(2) using assms(2) s o by (intro bytes_at_cong agree_on_upd agree_on_refl) simp_all
  moreover have "0 \<notin> set ?l" using s by (auto simp: line_code_def key_code_def)
  ultimately have "cstr (mem_of st') (Ptr buffer) (?l @ [])" unfolding cstr_append by (simp add: r(2))
  with s r(2) show ?thesis by (intro exI [of _ ?l]) simp
qed

theorem readline_type_witness:
  "\<exists>(st' :: machine) line. keyboard_readline 0x20000 256 (demo_machine 0 [108, 115, 10] []) = Some (2, st')
    \<and> cstr (mem_of st') (Ptr 0x20000) line \<and> length line = 2"
proof -
  let ?st = "demo_machine 0 [108, 115, 10] []"
  have l: "length [108, 115, 10 :: u8] < 256" by simp
  have t: "keys_typed ?st" using demo_machine_ok(1,2) [OF l, of 0 "[]"] by (simp add: keys_typed_def key_code_def)
  have "line_read 255 [] [108, 115, 10] = Some ([108, 115], [108, 115, 10], [])" by (simp add: echoing_def)
  from readline_spec [of 255 ?st _ _ _ 256 "0x20000", unfolded demo_machine_ok(2) [OF l], OF this demo_machine_ok(1,3) [OF l]]
  obtain st' where r: "keyboard_readline 0x20000 256 ?st = Some (2, st')" by auto
  from readline_type [OF t _ _ r] r show ?thesis by auto
qed

end
