(* ===== verification/Nano_Props.thy ===== *)
theory Nano_Props
  imports Nano Machine_Props
begin

text \<open>
  The keys of the editor on its text in memory: 100 lines of 80 bytes behind an array of pointers.
  Each editing key implements an editor on a list of lines, as long as no two lines are joined into
  one of 80 characters or more; what such a join does is in \<^theory_text>\<open>Nano_Join\<close>.
\<close>

section \<open>Lines in memory\<close>

abbreviation line_ptr :: "mem \<Rightarrow> addr \<Rightarrow> nat \<Rightarrow> addr" where
  "line_ptr m ls i \<equiv> line_at m ls (int i)"

abbreviation line_set :: "mem \<Rightarrow> addr \<Rightarrow> nat \<Rightarrow> addr set" where
  "line_set m ls i \<equiv> range_of (unat (line_ptr m ls i)) 80"

text \<open>The array of pointers and the blocks are apart from each other.\<close>

definition lines_ok :: "mem \<Rightarrow> addr \<Rightarrow> bool" where
  "lines_ok m ls \<longleftrightarrow> unat ls + 400 \<le> 2 ^ 32
     \<and> (\<forall>i<100. unat (line_ptr m ls i) + 80 \<le> 2 ^ 32 \<and> line_set m ls i \<inter> range_of (unat ls) 400 = {})
     \<and> (\<forall>i<100. \<forall>j<100. i \<noteq> j \<longrightarrow> line_set m ls i \<inter> line_set m ls j = {})"

text \<open>The lines in \<open>f\<close> hold their texts.\<close>

definition lines_hold :: "mem \<Rightarrow> addr \<Rightarrow> (nat \<rightharpoonup> u8 list) \<Rightarrow> bool" where
  "lines_hold m ls f \<longleftrightarrow> lines_ok m ls \<and>
     (\<forall>i t. f i = Some t \<longrightarrow> i < 100 \<and> length t < 80 \<and> cstr m (Ptr (line_ptr m ls i)) t)"

lemma lines_holdD:
  assumes "lines_hold m ls f" "f i = Some t"
  shows "i < 100" "length t < 80" "cstr m (Ptr (line_ptr m ls i)) t" "unat (line_ptr m ls i) + 80 \<le> 2 ^ 32"
  using assms by (auto simp: lines_hold_def lines_ok_def)

lemma lines_disjoint:
  "lines_hold m ls f \<Longrightarrow> i < 100 \<Longrightarrow> j < 100 \<Longrightarrow> i \<noteq> j \<Longrightarrow> line_set m ls i \<inter> line_set m ls j = {}"
  unfolding lines_hold_def lines_ok_def by blast

text \<open>A write into one block keeps the pointers and the other lines.\<close>

lemma line_ptr_kept:
  assumes "unat ls + 400 \<le> 2 ^ 32" "agree_on (range_of (unat ls) 400) m m'" "i < 100"
  shows "line_ptr m' ls i = line_ptr m ls i"
proof -
  have u: "unat (ls + of_nat (4 * i)) = unat ls + 4 * i" using assms(1,3) by (intro unat_offset) simp
  have "agree_on (range_of (unat (ls + of_nat (4 * i))) 4) m m'"
    by (rule agree_on_mono [OF assms(2)]) (use u assms(3) in auto)
  from load32_cong [OF this] u assms(1,3) show ?thesis by (simp add: line_at_def)
qed

lemma lines_store:
  assumes h: "lines_hold m ls f" and k: "k < 100" and w: "agree_on (- line_set m ls k) m m'"
    and t: "length t < 80" "cstr m' (Ptr (line_ptr m ls k)) t"
  shows "lines_hold m' ls (f(k \<mapsto> t))" "\<And>i. i < 100 \<Longrightarrow> line_ptr m' ls i = line_ptr m ls i"
proof -
  have ok: "unat ls + 400 \<le> 2 ^ 32" "\<And>i. i < 100 \<Longrightarrow> line_set m ls i \<inter> range_of (unat ls) 400 = {}"
    "\<And>i j. i < 100 \<Longrightarrow> j < 100 \<Longrightarrow> i \<noteq> j \<Longrightarrow> line_set m ls i \<inter> line_set m ls j = {}" "lines_ok m ls"
    using h by (auto simp: lines_hold_def lines_ok_def)
  have "agree_on (range_of (unat ls) 400) m m'" by (rule agree_on_mono [OF w]) (use ok(2) [OF k] in blast)
  from line_ptr_kept [OF ok(1) this] show p: "line_ptr m' ls i = line_ptr m ls i" if "i < 100" for i using that by blast
  then have "lines_ok m' ls" using ok(4) by (simp add: lines_ok_def)
  moreover have "cstr m' (Ptr (line_ptr m ls i)) u" if "f i = Some u" "i \<noteq> k" for i u
  proof -
    note d = lines_holdD [OF h that(1)]
    have "cspan (Ptr (line_ptr m ls i)) (Suc (length u)) \<subseteq> line_set m ls i" using d(2) by auto
    moreover have "line_set m ls i \<subseteq> - line_set m ls k" using ok(3) [OF d(1) k that(2)] by blast
    ultimately have "agree_on (cspan (Ptr (line_ptr m ls i)) (Suc (length u))) m m'"
      by (intro agree_on_mono [OF w]) blast
    from cstr_cong [OF this] d(2-4) show ?thesis by simp
  qed
  ultimately show "lines_hold m' ls (f(k \<mapsto> t))"
    using h t k p lines_holdD [OF h] by (auto simp: lines_hold_def)
qed

text \<open>Copying a line into a block, from position \<open>c\<close> of a line on.\<close>

lemma lines_strcpy:
  assumes h: "lines_hold m ls f" and k: "k < 100" and j: "f j = Some t" "j \<noteq> k" and c: "c \<le> length t"
  shows "\<exists>m'. strcpy m (line_ptr m ls k) (Ptr (line_ptr m ls j + of_nat c)) = Some m'
    \<and> lines_hold m' ls (f(k \<mapsto> drop c t)) \<and> agree_on (- line_set m ls k) m m'
    \<and> (\<forall>i<100. line_ptr m' ls i = line_ptr m ls i)"
proof -
  note d = lines_holdD [OF h j(1)]
  let ?p = "line_ptr m ls k" and ?q = "line_ptr m ls j"
  have b: "unat ?p + 80 \<le> 2 ^ 32" "line_set m ls j \<inter> line_set m ls k = {}"
    using h k d(1) j(2) by (simp_all add: lines_hold_def lines_ok_def)
  have u: "unat (?q + of_nat c) = unat ?q + c" using c d(2,4) by (intro unat_offset) simp
  have s: "cstr m (Ptr (?q + of_nat c)) (drop c t)"
    using d(3) cstr_append [of m ?q "take c t" "drop c t"] c by simp
  have "range_of (unat (?q + of_nat c)) (Suc (length (drop c t))) \<subseteq> line_set m ls j" using u c d(2) by auto
  moreover have "range_of (unat ?p) (Suc (length (drop c t))) \<subseteq> line_set m ls k" using d(2) by auto
  ultimately have "cspan (Ptr (?q + of_nat c)) (Suc (length (drop c t))) \<inter> range_of (unat ?p) (Suc (length (drop c t))) = {}"
    using b(2) by auto
  then have r: "strcpy m ?p (Ptr (?q + of_nat c)) = Some (put_bytes m ?p (drop c t @ [0]))"
    using s b(1) d(2,4) u c by (intro strcpy_eq) simp_all
  let ?m = "put_bytes m ?p (drop c t @ [0])"
  have w: "agree_on (- line_set m ls k) m ?m" using b(1) d(2) by (intro agree_on_put_bytes) auto
  have "cstr ?m (Ptr ?p) (drop c t)" using b(1) d(2) cstr_nonzero [OF s] by (intro cstr_put_bytes) simp_all
  with lines_store [OF h k w _ this] d(2) r w show ?thesis by auto
qed

section \<open>Moving lines\<close>

text \<open>What only the blocks of the lines are written by.\<close>

definition all_lines :: "mem \<Rightarrow> addr \<Rightarrow> addr set" where
  "all_lines m ls = (\<Union>i<100. line_set m ls i)"

lemma line_all: "i < 100 \<Longrightarrow> line_set m ls i \<subseteq> all_lines m ls"
  by (auto simp: all_lines_def)

definition lines_step :: "mem \<Rightarrow> addr \<Rightarrow> mem \<Rightarrow> bool" where
  "lines_step m ls m' \<longleftrightarrow> agree_on (- all_lines m ls) m m' \<and> (\<forall>i<100. line_ptr m' ls i = line_ptr m ls i)"

lemma lines_step_refl [simp]: "lines_step m ls m"
  by (simp add: lines_step_def)

lemma lines_step_trans: "lines_step m ls m1 \<Longrightarrow> lines_step m1 ls m2 \<Longrightarrow> lines_step m ls m2"
  by (auto simp: lines_step_def all_lines_def intro: agree_on_trans)

lemma lines_stepI:
  "k < 100 \<Longrightarrow> agree_on (- line_set m ls k) m m' \<Longrightarrow> \<forall>i<100. line_ptr m' ls i = line_ptr m ls i \<Longrightarrow> lines_step m ls m'"
  by (auto simp: lines_step_def all_lines_def elim!: agree_on_mono)

lemma lines_up_spec:
  assumes "lines_hold m ls f" "\<And>j. i \<le> j \<Longrightarrow> j \<le> i + n \<Longrightarrow> f j \<noteq> None" "i + n < 100"
  shows "\<exists>m'. lines_up ls m (int i) n = Some m' \<and> lines_step m ls m'
    \<and> lines_hold m' ls (\<lambda>j. if i \<le> j \<and> j < i + n then f (j + 1) else f j)"
  using assms
proof (induction n arbitrary: i m f)
  case (Suc n)
  obtain t where t: "f (i + 1) = Some t" using Suc.prems(2) [of "i + 1"] by auto
  have k: "i < 100" "i + 1 \<noteq> i" using Suc.prems(3) by simp_all
  from lines_strcpy [OF Suc.prems(1) k(1) t k(2), of 0] obtain m1 where
    m1: "strcpy m (line_ptr m ls i) (Ptr (line_ptr m ls (i + 1))) = Some m1" "lines_hold m1 ls (f(i \<mapsto> t))"
      "agree_on (- line_set m ls i) m m1" "\<forall>j<100. line_ptr m1 ls j = line_ptr m ls j" by auto
  have g: "\<And>j. i + 1 \<le> j \<Longrightarrow> j \<le> i + 1 + n \<Longrightarrow> (f(i \<mapsto> t)) j \<noteq> None" "i + 1 + n < 100"
    using Suc.prems(2,3) by auto
  obtain m' where
    m': "lines_up ls m1 (int (i + 1)) n = Some m'" "lines_step m1 ls m'"
      "lines_hold m' ls (\<lambda>j. if i + 1 \<le> j \<and> j < i + 1 + n then (f(i \<mapsto> t)) (j + 1) else (f(i \<mapsto> t)) j)"
    using Suc.IH [where i = "i + 1" and m = m1 and f = "f(i \<mapsto> t)", OF m1(2) g] by blast
  have "(\<lambda>j. if i + 1 \<le> j \<and> j < i + 1 + n then (f(i \<mapsto> t)) (j + 1) else (f(i \<mapsto> t)) j)
      = (\<lambda>j. if i \<le> j \<and> j < i + Suc n then f (j + 1) else f j)" using t by (auto simp: fun_eq_iff le_Suc_eq)
  moreover have "lines_up ls m (int i) (Suc n) = Some m'" using m1(1) m'(1) by (simp add: algebra_simps)
  ultimately show ?case
    using lines_step_trans [OF lines_stepI [OF k(1) m1(3,4)] m'(2)] m'(3) by auto
next
  case 0
  have "(\<lambda>j. if i \<le> j \<and> j < i + 0 then f (j + 1) else f j) = f" by (auto simp: fun_eq_iff)
  with 0 show ?case by simp
qed

lemma lines_down_spec:
  assumes "lines_hold m ls f" "\<And>j. i \<le> j + n \<Longrightarrow> j < i \<Longrightarrow> f j \<noteq> None" "n \<le> i" "i < 100"
  shows "\<exists>m'. lines_down ls m (int i) n = Some m' \<and> lines_step m ls m'
    \<and> lines_hold m' ls (\<lambda>j. if i < j + n \<and> j \<le> i then f (j - 1) else f j)"
  using assms
proof (induction n arbitrary: i m f)
  case (Suc n)
  then obtain i' where i: "i = Suc i'" by (cases i) auto
  obtain t where t: "f i' = Some t" using Suc.prems(2) [of i'] i by auto
  have k: "i < 100" "i' \<noteq> i" using Suc.prems(4) i by simp_all
  from lines_strcpy [OF Suc.prems(1) k(1) t k(2), of 0] obtain m1 where
    m1: "strcpy m (line_ptr m ls i) (Ptr (line_ptr m ls i')) = Some m1" "lines_hold m1 ls (f(i \<mapsto> t))"
      "agree_on (- line_set m ls i) m m1" "\<forall>j<100. line_ptr m1 ls j = line_ptr m ls j" by auto
  have g: "\<And>j. i' \<le> j + n \<Longrightarrow> j < i' \<Longrightarrow> (f(i \<mapsto> t)) j \<noteq> None" "n \<le> i'" "i' < 100"
    using Suc.prems(2-4) i by auto
  obtain m' where
    m': "lines_down ls m1 (int i') n = Some m'" "lines_step m1 ls m'"
      "lines_hold m' ls (\<lambda>j. if i' < j + n \<and> j \<le> i' then (f(i \<mapsto> t)) (j - 1) else (f(i \<mapsto> t)) j)"
    using Suc.IH [where i = i' and m = m1 and f = "f(i \<mapsto> t)", OF m1(2) g] by blast
  have "(\<lambda>j. if i' < j + n \<and> j \<le> i' then (f(i \<mapsto> t)) (j - 1) else (f(i \<mapsto> t)) j)
      = (\<lambda>j. if i < j + Suc n \<and> j \<le> i then f (j - 1) else f j)"
    using t i by (auto simp: fun_eq_iff le_Suc_eq)
  moreover have "lines_down ls m (int i) (Suc n) = Some m'" using m1(1) m'(1) i by simp
  ultimately show ?case
    using lines_step_trans [OF lines_stepI [OF k(1) m1(3,4)] m'(2)] m'(3) by auto
next
  case 0
  have "(\<lambda>j. if i < j + 0 \<and> j \<le> i then f (j - 1) else f j) = f" by (auto simp: fun_eq_iff)
  with 0 show ?case by simp
qed

section \<open>Moving characters\<close>

lemma shift_left_eq:
  assumes "unat ls + 400 \<le> 2 ^ 32" "l < 100" "line_ptr m ls l = p" "range_of (unat p) 80 \<inter> range_of (unat ls) 400 = {}"
    and "unat p + 80 \<le> 2 ^ 32" "i + n < 80"
  shows "shift_left ls (int l) m (of_nat i) n = put_bytes m (p + of_nat i) (bytes_at m (p + of_nat (i + 1)) n)"
  using assms
proof (induction n arbitrary: m i)
  case (Suc n)
  let ?m = "m(p + of_nat i := m (p + of_nat (i + 1)))"
  have u: "unat (p + of_nat i) = unat p + i"
    by (rule unat_offset) (use Suc.prems(5,6) in linarith)
  have "p + of_nat i \<in> range_of (unat p) 80" using Suc.prems(6) u by simp
  then have "p + of_nat i \<notin> range_of (unat ls) 400" using Suc.prems(4) by blast
  then have "agree_on (range_of (unat ls) 400) m ?m" by (intro agree_on_upd agree_on_refl)
  then have lp: "line_ptr ?m ls l = p" using line_ptr_kept [OF Suc.prems(1) _ Suc.prems(2)] Suc.prems(3) by simp
  have IH: "shift_left ls (int l) ?m (of_nat (i + 1)) n
      = put_bytes ?m (p + of_nat (i + 1)) (bytes_at ?m (p + of_nat (i + 1 + 1)) n)"
    by (rule Suc.IH [OF Suc.prems(1,2) lp Suc.prems(4,5)]) (use Suc.prems(6) in simp)
  have "bytes_at m (p + of_nat (i + 2)) n = bytes_at ?m (p + of_nat (i + 2)) n"
  proof (cases "n = 0")
    case False
    then have u2: "unat (p + of_nat (i + 2)) = unat p + (i + 2)"
      by (intro unat_offset) (use Suc.prems(5,6) in linarith)
    then have "agree_on (range_of (unat (p + of_nat (i + 2))) n) m ?m" using u by (intro agree_on_upd agree_on_refl) simp
    then show ?thesis using u2 Suc.prems(5,6) by (intro bytes_at_cong) linarith+
  qed simp
  with IH Suc.prems(3) show ?case by (simp add: bytes_at_Suc algebra_simps)
qed simp

lemma put_bytes_upd_after:
  "unat d + length bs \<le> unat a \<Longrightarrow> put_bytes (m(a := v)) d bs = (put_bytes m d bs)(a := v)"
proof (induction bs arbitrary: m d)
  case (Cons b bs)
  have "d \<noteq> a" using Cons.prems by auto
  then have "(m(a := v))(d := b) = (m(d := b))(a := v)" by (rule fun_upd_twist [symmetric])
  moreover have "put_bytes ((m(d := b))(a := v)) (d + 1) bs = (put_bytes (m(d := b)) (d + 1) bs)(a := v)"
  proof (cases "bs = []")
    case False
    then have "unat (d + 1) = unat d + 1" using Cons.prems unat_u32_lt [of a] by (intro unat_Suc_no_wrap) (cases bs, auto)
    with Cons.prems show ?thesis by (intro Cons.IH) simp
  qed simp
  ultimately show ?case by (simp del: fun_upd_apply)
qed simp

lemma shift_right_eq:
  assumes "unat ls + 400 \<le> 2 ^ 32" "l < 100" "line_ptr m ls l = p" "range_of (unat p) 80 \<inter> range_of (unat ls) 400 = {}"
    and "unat p + 80 \<le> 2 ^ 32" "k + n < 80"
  shows "shift_right ls (int l) m (of_nat (k + n)) n = put_bytes m (p + of_nat (k + 1)) (bytes_at m (p + of_nat k) n)"
  using assms
proof (induction n arbitrary: m)
  case (Suc n)
  let ?a = "p + of_nat (k + Suc n)" and ?b = "p + of_nat (k + n)"
  let ?m = "m(?a := m ?b)"
  have u: "unat ?a = unat p + (k + Suc n)" "unat (p + of_nat k) = unat p + k" "unat (p + of_nat (k + 1)) = unat p + (k + 1)"
    by (rule unat_offset, use Suc.prems(5,6) in linarith)+
  have "?a \<in> range_of (unat p) 80" using Suc.prems(6) u(1) by simp
  then have "?a \<notin> range_of (unat ls) 400" using Suc.prems(4) by blast
  then have "agree_on (range_of (unat ls) 400) m ?m" by (intro agree_on_upd agree_on_refl)
  then have lp: "line_ptr ?m ls l = p" using line_ptr_kept [OF Suc.prems(1) _ Suc.prems(2)] Suc.prems(3) by simp
  have IH: "shift_right ls (int l) ?m (of_nat (k + n)) n = put_bytes ?m (p + of_nat (k + 1)) (bytes_at ?m (p + of_nat k) n)"
    by (rule Suc.IH [OF Suc.prems(1,2) lp Suc.prems(4,5)]) (use Suc.prems(6) in simp)
  have "agree_on (range_of (unat (p + of_nat k)) n) m ?m" using u by (intro agree_on_upd agree_on_refl) simp
  then have b: "bytes_at ?m (p + of_nat k) n = bytes_at m (p + of_nat k) n"
    using u(2) Suc.prems(5,6) bytes_at_cong [of "p + of_nat k" n m ?m] by simp
  have "put_bytes ?m (p + of_nat (k + 1)) (bytes_at m (p + of_nat k) n)
      = (put_bytes m (p + of_nat (k + 1)) (bytes_at m (p + of_nat k) n))(?a := m ?b)"
    using u by (intro put_bytes_upd_after) simp
  also have "\<dots> = put_bytes m (p + of_nat (k + 1)) (bytes_at m (p + of_nat k) (Suc n))"
    using bytes_at_add [of m "p + of_nat k" n 1]
    by (simp add: put_bytes_append bytes_at_Suc algebra_simps)
  finally show ?case
    using IH b Suc.prems(3) by (simp add: algebra_simps)
qed simp

lemma tail_subset: "k < 80 \<Longrightarrow> range_of (a + k) (80 - k) \<subseteq> range_of a 80"
  by auto

text \<open>Rewriting a line from position \<open>k\<close> on.\<close>

lemma line_tail:
  assumes h: "lines_hold m ls f" and f: "f l = Some t" and k: "k \<le> length t" "k + length s < 80"
    and w: "agree_on (- range_of (unat (line_ptr m ls l) + k) (80 - k)) m m'"
    and s: "cstr m' (Ptr (line_ptr m ls l + of_nat k)) s"
  shows "lines_hold m' ls (f(l \<mapsto> take k t @ s)) \<and> (\<forall>i<100. line_ptr m' ls i = line_ptr m ls i) \<and> lines_step m ls m'"
proof -
  let ?p = "line_ptr m ls l"
  note d = lines_holdD [OF h f]
  have w1: "agree_on (- line_set m ls l) m m'" by (rule agree_on_mono [OF w]) auto
  have "agree_on (range_of (unat ?p) k) m m'" by (rule agree_on_mono [OF w]) auto
  then have "bytes_at m' ?p k = bytes_at m ?p k" using k d(4) by (intro bytes_at_cong [symmetric]) simp_all
  moreover have "bytes_at m ?p k = take k t" "0 \<notin> set (take k t)"
    using d(3) cstr_append [of m ?p "take k t" "drop k t"] k(1) by simp_all
  ultimately have c: "cstr m' (Ptr ?p) (take k t @ s)" using s k(1) by (simp add: cstr_append)
  have b: "length (take k t @ s) < 80" using k by simp
  note r = lines_store [OF h d(1) w1 b c]
  have "\<forall>i<100. line_ptr m' ls i = line_ptr m ls i" using r(2) by blast
  with r(1) lines_stepI [OF d(1) w1] show ?thesis by blast
qed

lemma line_strlen:
  assumes "lines_hold m ls f" "f l = Some t"
  shows "strlen m (Ptr (line_ptr m ls l)) = Some (of_nat (length t))"
  using lines_holdD(2,3) [OF assms] by (intro strlen_eq) simp_all

section \<open>The editor on lines\<close>

text \<open>A text: its lines, the cursor's line and the cursor's column.\<close>

type_synonym text_state = "u8 list list \<times> nat \<times> nat"

fun ed_insert :: "u8 \<Rightarrow> text_state \<Rightarrow> text_state" where
  "ed_insert c (ts, l, k) =
     (if length (ts ! l) < 79 then (ts[l := take k (ts ! l) @ c # drop k (ts ! l)], l, k + 1) else (ts, l, k))"

fun ed_backspace :: "text_state \<Rightarrow> text_state" where
  "ed_backspace (ts, l, k) =
     (if 0 < k then (ts[l := take (k - 1) (ts ! l) @ drop k (ts ! l)], l, k - 1)
      else if 0 < l then (take (l - 1) ts @ (ts ! (l - 1) @ ts ! l) # drop (l + 1) ts, l - 1, length (ts ! (l - 1)))
      else (ts, l, k))"

fun ed_enter :: "text_state \<Rightarrow> text_state" where
  "ed_enter (ts, l, k) =
     (if length ts < 100 then (take l ts @ take k (ts ! l) # drop k (ts ! l) # drop (l + 1) ts, l + 1, 0)
      else (ts, l, k))"

definition ed_key :: "u8 \<Rightarrow> text_state \<Rightarrow> text_state" where
  "ed_key c = (if c = 8 then ed_backspace else if c = 10 \<or> c = 13 then ed_enter
               else if 32 \<le> c \<and> c < 127 then ed_insert c else id)"

text \<open>The text of the editor's variables and the memory.\<close>

definition text_map :: "u8 list list \<Rightarrow> nat \<rightharpoonup> u8 list" where
  "text_map ts i = (if i < length ts then Some (ts ! i) else None)"

fun text_rep :: "mem \<Rightarrow> nano \<Rightarrow> text_state \<Rightarrow> bool" where
  "text_rep m e (ts, l, k) \<longleftrightarrow>
     lines_hold m (nlines e) (text_map ts) \<and> length ts \<le> 100 \<and> l < length ts \<and> k \<le> length (ts ! l)
     \<and> num_lines e = int (length ts) \<and> cur_line e = int l \<and> cur_col e = int k"

lemma text_map_update: "l < length ts \<Longrightarrow> (text_map ts)(l \<mapsto> t) = text_map (ts[l := t])"
  by (auto simp: text_map_def fun_eq_iff)

lemma lines_hold_cong: "lines_hold m ls f \<Longrightarrow> (\<And>i t. g i = Some t \<Longrightarrow> f i = Some t) \<Longrightarrow> lines_hold m ls g"
  by (auto simp: lines_hold_def)

lemma put_mem_same: "put_mem (mem_of st) st = st"
  by (simp add: put_mem_def set_ram_def)

text \<open>Every key keeps the cursor within the text, so that the loop's bounds check changes nothing.\<close>

lemma text_bounds:
  assumes "text_rep m e (ts, l, k)"
  shows "nano_bounds m e = Some e"
proof -
  have r: "lines_hold m (nlines e) (text_map ts)" "l < length ts" "k \<le> length (ts ! l)"
    "num_lines e = int (length ts)" "cur_line e = int l" "cur_col e = int k" using assms by simp_all
  have f: "text_map ts l = Some (ts ! l)" using r(2) by (simp add: text_map_def)
  have "sint (of_nat (length (ts ! l)) :: u32) = int (length (ts ! l))"
    using lines_holdD(2) [OF r(1) f] by (simp add: signed_of_nat signed_take_bit_int_eq_self)
  with line_strlen [OF r(1) f] r show ?thesis by (simp add: nano_bounds_def)
qed

section \<open>The keys\<close>

text \<open>What a key has done: the new variables and memory stand for the new text.\<close>

definition edited :: "nano \<Rightarrow> mem \<Rightarrow> (nano \<times> mem) option \<Rightarrow> text_state \<Rightarrow> bool" where
  "edited e m r t \<longleftrightarrow> (\<exists>e' m'. r = Some (e', m') \<and> text_rep m' e' t \<and> nlines e' = nlines e \<and> lines_step m (nlines e) m')"

lemma editedI:
  "r = Some (e', m') \<Longrightarrow> text_rep m' e' t \<Longrightarrow> nlines e' = nlines e \<Longrightarrow> lines_step m (nlines e) m' \<Longrightarrow> edited e m r t"
  unfolding edited_def by blast

lemma edited_same: "text_rep m e t \<Longrightarrow> edited e m (Some (e, m)) t"
  by (auto simp: edited_def)

text \<open>The cursor's line as an address, and the arithmetic of positions in it.\<close>

lemma cursor_line:
  assumes "text_rep m e (ts, l, k)"
  shows "lines_hold m (nlines e) (text_map ts)" "text_map ts l = Some (ts ! l)" "length ts \<le> 100" "l < length ts"
    "k \<le> length (ts ! l)" "num_lines e = int (length ts)" "cur_line e = int l" "cur_col e = int k"
    "length (ts ! l) < 80" "cstr m (Ptr (line_ptr m (nlines e) l)) (ts ! l)" "unat (line_ptr m (nlines e) l) + 80 \<le> 2 ^ 32"
    "unat (nlines e) + 400 \<le> 2 ^ 32" "range_of (unat (line_ptr m (nlines e) l)) 80 \<inter> range_of (unat (nlines e)) 400 = {}"
proof -
  show h: "lines_hold m (nlines e) (text_map ts)" "length ts \<le> 100" "l < length ts" "k \<le> length (ts ! l)"
    "num_lines e = int (length ts)" "cur_line e = int l" "cur_col e = int k"
    using assms by simp_all
  show f: "text_map ts l = Some (ts ! l)" using h(3) by (simp add: text_map_def)
  show "length (ts ! l) < 80" "cstr m (Ptr (line_ptr m (nlines e) l)) (ts ! l)"
    "unat (line_ptr m (nlines e) l) + 80 \<le> 2 ^ 32" using lines_holdD [OF h(1) f] by blast+
  have ok: "lines_ok m (nlines e)" "l < 100" using h(1-3) by (simp_all add: lines_hold_def)
  from ok(1) show "unat (nlines e) + 400 \<le> 2 ^ 32" by (simp only: lines_ok_def)
  from ok show "range_of (unat (line_ptr m (nlines e) l)) 80 \<inter> range_of (unat (nlines e)) 400 = {}"
    unfolding lines_ok_def by blast
qed

lemma line_bytes:
  assumes "cstr m (Ptr p) t" "k \<le> length t"
  shows "bytes_at m (p + of_nat k) (length t - k) = drop k t"
    and "bytes_at m (p + of_nat k) (Suc (length t - k)) = drop k t @ [0]"
    and "cstr m (Ptr (p + of_nat k)) (drop k t)"
proof -
  show c: "cstr m (Ptr (p + of_nat k)) (drop k t)"
    using assms cstr_append [of m p "take k t" "drop k t"] by simp
  then show "bytes_at m (p + of_nat k) (length t - k) = drop k t"
    "bytes_at m (p + of_nat k) (Suc (length t - k)) = drop k t @ [0]"
    using bytes_at_add [of m "p + of_nat k" "length t - k" 1] by (simp_all add: cstr_Ptr bytes_at_Suc)
qed

lemma insert_edited:
  assumes "text_rep m e (ts, l, k)" "c \<noteq> 0"
  shows "edited e m (nano_insert c e m) (ed_insert c (ts, l, k))"
proof (cases "length (ts ! l) < 79")
  case True
  note r = cursor_line [OF assms(1)]
  let ?p = "line_ptr m (nlines e) l" and ?t = "ts ! l"
  let ?n = "Suc (length ?t - k)"
  let ?m1 = "put_bytes m (?p + of_nat (k + 1)) (drop k ?t @ [0])"
  let ?m2 = "?m1(?p + of_nat k := c)"
  have u: "unat (?p + of_nat k) = unat ?p + k" "unat (?p + of_nat (k + 1)) = unat ?p + (k + 1)"
    by (rule unat_offset, use r(5,9,11) True in linarith)+
  have n: "k + ?n = length ?t + 1" using r(5) by simp
  have len: "unat (of_nat (length ?t) + 1 :: u32) = length ?t + 1"
    using unat_of_nat_lt [of "length ?t + 1"] r(9) by (simp add: algebra_simps)
  have "shift_right (nlines e) (int l) m (of_nat (k + ?n)) ?n
      = put_bytes m (?p + of_nat (k + 1)) (bytes_at m (?p + of_nat k) ?n)"
    by (rule shift_right_eq [OF r(12) _ refl r(13,11)]) (use r(3,4) n True in linarith)+
  then have sh: "shift_right (nlines e) (int l) m (of_nat (length ?t) + 1) (length ?t + 1 - k) = ?m1"
    using line_bytes(2) [OF r(10,5)] n by (simp add: Suc_diff_le r(5) algebra_simps)
  have a1: "agree_on (- range_of (unat ?p + k) (80 - k)) m ?m1"
    using u r(5,9,11) True by (intro agree_on_put_bytes) auto
  then have a2: "agree_on (- range_of (unat ?p + k) (80 - k)) m ?m2"
    using u(1) r(5,9) by (intro agree_on_upd) simp_all
  have "cstr ?m1 (Ptr (?p + of_nat (k + 1))) (drop k ?t)"
    using u(2) r(5,11) True cstr_nonzero [OF r(10)] by (intro cstr_put_bytes) (auto dest: in_set_dropD)
  then have "cstr ?m2 (Ptr (?p + of_nat (k + 1))) (drop k ?t)"
    using u r(5,11) True by (intro cstr_after_store) simp_all
  then have s: "cstr ?m2 (Ptr (?p + of_nat k)) (c # drop k ?t)" using assms(2) by (simp add: algebra_simps)
  have b: "k + length (c # drop k ?t) < 80" using True r(5) by simp
  note t1 = line_tail [OF r(1,2) r(5) b a2 s]
  have "line_ptr ?m1 (nlines e) l = ?p"
  proof (rule line_ptr_kept [OF r(12)])
    show "agree_on (range_of (unat (nlines e)) 400) m ?m1"
      by (rule agree_on_mono [OF a1]) (use r(13) tail_subset [of k "unat ?p"] r(5,9) in auto)
    show "l < 100" using r(3,4) by simp
  qed
  then have "nano_insert c e m = Some (e\<lparr>cur_col := int k + 1, modified := True\<rparr>, ?m2)"
    using sh len True r(5,9)
    by (simp add: nano_insert_def line_strlen [OF r(1,2)] r(7,8) NANO_LINE_LEN_def word_less_nat_alt Let_def del: fun_upd_apply)
  moreover have "text_rep ?m2 (e\<lparr>cur_col := int k + 1, modified := True\<rparr>) (ts[l := take k ?t @ c # drop k ?t], l, k + 1)"
    using t1 r by (simp add: text_map_update)
  ultimately show ?thesis using True t1 by (auto simp: edited_def simp del: fun_upd_apply)
next
  case False
  note r = cursor_line [OF assms(1)]
  have "nano_insert c e m = Some (e, m)"
    using False r(9) by (simp add: nano_insert_def line_strlen [OF r(1,2)] r(7) NANO_LINE_LEN_def word_less_nat_alt)
  with False edited_same [OF assms(1)] show ?thesis by simp
qed

lemma backspace_edited:
  assumes "text_rep m e (ts, l, k)" "0 < k"
  shows "edited e m (nano_backspace e m) (ed_backspace (ts, l, k))"
proof -
  note r = cursor_line [OF assms(1)]
  let ?p = "line_ptr m (nlines e) l" and ?t = "ts ! l"
  obtain k' where k: "k = Suc k'" using assms(2) by (cases k) auto
  let ?m = "put_bytes m (?p + of_nat k') (drop k ?t @ [0])"
  have u: "unat (?p + of_nat k') = unat ?p + k'" by (rule unat_offset) (use r(5,9,11) k in linarith)
  have n: "length ?t - k' = Suc (length ?t - k)" using r(5) k by simp
  have "shift_left (nlines e) (int l) m (of_nat k') (length ?t - k')
      = put_bytes m (?p + of_nat k') (bytes_at m (?p + of_nat (k' + 1)) (length ?t - k'))"
    by (rule shift_left_eq [OF r(12) _ refl r(13,11)]) (use r(3,4,5,9) k in linarith)+
  then have sh: "shift_left (nlines e) (int l) m (of_nat k') (length ?t - k') = ?m"
    using line_bytes(2) [OF r(10,5)] n k by simp
  have a: "agree_on (- range_of (unat ?p + k') (80 - k')) m ?m"
    using u r(5,9,11) k by (intro agree_on_put_bytes) auto
  have s: "cstr ?m (Ptr (?p + of_nat k')) (drop k ?t)"
    using u r(5,9,11) k cstr_nonzero [OF r(10)] by (intro cstr_put_bytes) (auto dest: in_set_dropD)
  have b: "k' \<le> length ?t" "k' + length (drop k ?t) < 80" using r(5,9) k by simp_all
  note t1 = line_tail [OF r(1,2) b a s]
  have "unat (of_nat k' :: u32) = k'" using r(5,9) k by simp
  then have "nano_backspace e m = Some (e\<lparr>cur_col := int k', modified := True\<rparr>, ?m)"
    using sh r(9) k by (simp add: nano_backspace_def line_strlen [OF r(1,2)] r(7,8) Let_def)
  moreover have "text_rep ?m (e\<lparr>cur_col := int k', modified := True\<rparr>) (ts[l := take k' ?t @ drop k ?t], l, k')"
    using t1 r k by (simp add: text_map_update)
  ultimately show ?thesis using t1 k by (auto simp: edited_def)
qed

lemma join_edited:
  assumes "text_rep m e (ts, Suc j, 0)" "length (ts ! j) + length (ts ! Suc j) < 80"
  shows "edited e m (nano_backspace e m) (ed_backspace (ts, Suc j, 0))"
proof -
  note r = cursor_line [OF assms(1)]
  let ?ls = "nlines e" and ?l = "Suc j" and ?N = "length ts - 1" and ?t1 = "ts ! j" and ?t2 = "ts ! Suc j"
  let ?p = "line_ptr m ?ls j" and ?q = "line_ptr m ?ls ?l"
  have f: "text_map ts j = Some ?t1" using r(4) by (simp add: text_map_def)
  note d = lines_holdD [OF r(1) f]
  have u: "unat (?p + of_nat (length ?t1)) = unat ?p + length ?t1" by (rule unat_offset) (use d(2,4) in linarith)
  have dj: "line_set m ?ls ?l \<inter> line_set m ?ls j = {}"
    by (rule lines_disjoint [OF r(1)]) (use r(3,4) in simp_all)
  have "range_of (unat ?q) (Suc (length ?t2)) \<subseteq> line_set m ?ls ?l"
    "range_of (unat ?p + length ?t1) (Suc (length ?t2)) \<subseteq> line_set m ?ls j"
    by (rule range_of_subset, use r(9) assms(2) in linarith, use r(9) assms(2) in linarith)+
  then have dd: "range_of (unat ?q) (Suc (length ?t2)) \<inter> range_of (unat ?p + length ?t1) (Suc (length ?t2)) = {}"
    using dj by blast
  let ?m1 = "put_bytes m (?p + of_nat (length ?t1)) (?t2 @ [0])"
  have cat: "strcat m ?p (Ptr ?q) = Some ?m1"
    by (rule strcat_eq [OF d(3) r(10)]) (use dd d(4) r(9,11) assms(2) in simp_all)
  have a: "agree_on (- range_of (unat ?p + length ?t1) (80 - length ?t1)) m ?m1"
    using u d(4) assms(2) by (intro agree_on_put_bytes) auto
  have s: "cstr ?m1 (Ptr (?p + of_nat (length ?t1))) ?t2"
    using u d(4) assms(2) cstr_nonzero [OF r(10)] by (intro cstr_put_bytes) simp_all
  note t1 = line_tail [OF r(1) f le_refl assms(2) a s, simplified]
  let ?f = "(text_map ts)(j \<mapsto> ?t1 @ ?t2)"
  have g: "\<And>i. ?l \<le> i \<Longrightarrow> i \<le> ?l + (?N - ?l) \<Longrightarrow> ?f i \<noteq> None" "?l + (?N - ?l) < 100"
    using r(3,4) by (auto simp: text_map_def)
  obtain m2 where m2: "lines_up ?ls ?m1 (int ?l) (?N - ?l) = Some m2" "lines_step ?m1 ?ls m2"
    "lines_hold m2 ?ls (\<lambda>i. if ?l \<le> i \<and> i < ?l + (?N - ?l) then ?f (i + 1) else ?f i)" (is "lines_hold m2 ?ls ?f2")
    using lines_up_spec [OF conjunct1 [OF t1] g] by blast
  have f2: "?f2 ?N = Some (ts ! ?N)" using r(4) by (auto simp: text_map_def)
  let ?m3 = "m2(line_ptr m2 ?ls ?N := 0)"
  have a3: "agree_on (- range_of (unat (line_ptr m2 ?ls ?N) + 0) (80 - 0)) m2 ?m3"
    by (intro agree_on_upd agree_on_refl) simp
  have s3: "cstr ?m3 (Ptr (line_ptr m2 ?ls ?N + of_nat 0)) []" by simp
  have b3: "0 + length ([] :: u8 list) < 80" by simp
  note t3 = line_tail [OF m2(3) f2 le0 b3 a3 s3]
  define us where "us = take j ts @ (?t1 @ ?t2) # drop (Suc ?l) ts"
  have us: "length us = ?N" "j < ?N" "us ! j = ?t1 @ ?t2"
    using r(4) by (simp_all add: us_def nth_append)
  have h: "lines_hold ?m3 ?ls (text_map us)"
    unfolding us_def
    by (rule lines_hold_cong [OF conjunct1 [OF t3]])
      (use r(4) in \<open>auto simp: text_map_def nth_append nth_Cons split: if_splits nat.splits intro!: arg_cong [where f = "(!) ts"]\<close>)
  have st: "lines_step m ?ls ?m3"
    using lines_step_trans [OF lines_step_trans [OF conjunct2 [OF conjunct2 [OF t1]] m2(2)]] t3 by blast
  have len: "strlen m (Ptr ?p) = Some (of_nat (length ?t1))" by (rule line_strlen [OF r(1) f])
  have sl: "sint (of_nat (length ?t1) :: u32) = int (length ?t1)"
    using d(2) by (simp add: signed_of_nat signed_take_bit_int_eq_self)
  let ?e = "e\<lparr>cur_line := int j, cur_col := int (length ?t1), num_lines := int ?N, modified := True\<rparr>"
  have i: "cur_line e - 1 = int j" "int j + 1 = int ?l" "nat (int ?N - int ?l) = ?N - ?l"
    "num_lines e - 1 = int ?N" "0 < cur_line e" "\<not> 0 < cur_col e"
    using r(4,6,7,8) by linarith+
  have "nano_backspace e m = Some (?e, ?m3)"
    unfolding nano_backspace_def Let_def i(1) i(2) i(4) i(3)
    using i(5,6) len cat m2(1) sl by (simp del: fun_upd_apply of_nat_Suc)
  moreover have "text_rep ?m3 ?e (us, j, length ?t1)"
    using h r(3) us by (simp del: fun_upd_apply)
  ultimately show ?thesis using st by (auto simp: edited_def us_def simp del: fun_upd_apply)
qed

lemma enter_edited:
  assumes "text_rep m e (ts, l, k)"
  shows "edited e m (nano_enter e m) (ed_enter (ts, l, k))"
proof (cases "length ts < 100")
  case True
  note r = cursor_line [OF assms]
  let ?ls = "nlines e" and ?N = "length ts" and ?n = "length ts - Suc l" and ?t = "ts ! l"
  have g: "\<And>i. ?N \<le> i + ?n \<Longrightarrow> i < ?N \<Longrightarrow> text_map ts i \<noteq> None" "?n \<le> ?N" "?N < 100"
    using True by (auto simp: text_map_def)
  obtain m1 where m1: "lines_down ?ls m (int ?N) ?n = Some m1" "lines_step m ?ls m1"
    "lines_hold m1 ?ls (\<lambda>i. if ?N < i + ?n \<and> i \<le> ?N then text_map ts (i - 1) else text_map ts i)"
    (is "lines_hold m1 ?ls ?f1")
    using lines_down_spec [OF r(1) g] by blast
  have f1: "?f1 l = Some ?t" "l \<noteq> Suc l" "Suc l < 100" using r(4) True by (auto simp: text_map_def)
  from lines_strcpy [OF m1(3) f1(3) f1(1,2) r(5)] obtain m2 where
    m2: "strcpy m1 (line_ptr m1 ?ls (Suc l)) (Ptr (line_ptr m1 ?ls l + of_nat k)) = Some m2"
      "lines_hold m2 ?ls (?f1(Suc l \<mapsto> drop k ?t))" "agree_on (- line_set m1 ?ls (Suc l)) m1 m2"
      "\<forall>i<100. line_ptr m2 ?ls i = line_ptr m1 ?ls i" by blast
  let ?f2 = "?f1(Suc l \<mapsto> drop k ?t)"
  let ?p = "line_ptr m2 ?ls l" and ?m3 = "m2(line_ptr m2 ?ls l + of_nat k := 0)"
  have f2: "?f2 l = Some ?t" using f1(1) by simp
  have u: "unat (?p + of_nat k) = unat ?p + k"
    by (rule unat_offset) (use lines_holdD [OF m2(2) f2] r(5) in linarith)
  have a: "agree_on (- range_of (unat ?p + k) (80 - k)) m2 ?m3"
    using u r(5,9) by (intro agree_on_upd agree_on_refl) simp
  have s: "cstr ?m3 (Ptr (?p + of_nat k)) []" by simp
  have b: "k + length ([] :: u8 list) < 80" using r(5,9) by simp
  note t3 = line_tail [OF m2(2) f2 r(5) b a s]
  define us where "us = take l ts @ take k ?t # drop k ?t # drop (l + 1) ts"
  have us: "length us = length ts + 1"
    using r(4) by (simp add: us_def)
  have h: "lines_hold ?m3 ?ls (text_map us)"
    unfolding us_def
    by (rule lines_hold_cong [OF conjunct1 [OF t3]])
      (use r(4) in \<open>auto simp: text_map_def nth_append nth_Cons split: if_splits nat.splits intro!: arg_cong [where f = "(!) ts"]\<close>)
  have st: "lines_step m ?ls ?m3"
    using lines_step_trans [OF lines_step_trans [OF m1(2) lines_stepI [OF f1(3) m2(3,4)]]] t3 by blast
  let ?e = "e\<lparr>num_lines := int ?N + 1, cur_line := int (Suc l), cur_col := 0, modified := True\<rparr>"
  have i: "cur_line e + 1 = int (Suc l)" "nat (num_lines e - int (Suc l)) = ?n" "int (length ts) < int NANO_MAX_LINES"
    using r(6,7) True by (simp_all add: NANO_MAX_LINES_def)
  have "nano_enter e m = Some (?e, ?m3)"
    unfolding nano_enter_def i(1) i(2)
    by (simp only: i(3) r(6-8) if_True m1(1) m2(1) bind.bind_lunit of_int_of_nat_eq)
  moreover have "text_rep ?m3 ?e (us, l + 1, 0)" using h r(4) us True by (simp del: fun_upd_apply)
  ultimately have "edited e m (nano_enter e m) (us, l + 1, 0)" by (rule editedI) (use st in simp)+
  then show ?thesis using True by (simp add: us_def)
next
  case False
  have "nano_enter e m = Some (e, m)" using cursor_line(6) [OF assms] False by (simp add: nano_enter_def NANO_MAX_LINES_def)
  with False edited_same [OF assms] show ?thesis by simp
qed

text \<open>A key on the machine.\<close>

lemma nano_key_edits:
  assumes "text_rep (mem_of st) e (ts, l, k)" "c \<noteq> 19" "c \<noteq> 24"
    and "c = 8 \<Longrightarrow> k = 0 \<Longrightarrow> 0 < l \<Longrightarrow> length (ts ! (l - 1)) + length (ts ! l) < 80"
  shows "\<exists>e' m'. nano_key filename c e st = Some (e', True, put_mem m' st)
    \<and> text_rep m' e' (ed_key c (ts, l, k)) \<and> nlines e' = nlines e \<and> nano_bounds m' e' = Some e'
    \<and> lines_step (mem_of st) (nlines e) m'"
proof -
  have b: "edited e (mem_of st) (nano_backspace e (mem_of st)) (ed_backspace (ts, l, k))" if "c = 8"
  proof (cases "k = 0 \<and> 0 < l")
    case True
    then obtain j where "l = Suc j" by (cases l) auto
    with True that assms(1,4) join_edited [of "mem_of st" e ts j] show ?thesis by simp
  next
    case False
    have "edited e (mem_of st) (nano_backspace e (mem_of st)) (ed_backspace (ts, l, k))" if "k = 0" "l = 0"
      using that assms(1) cursor_line(7,8) [OF assms(1)] edited_same [OF assms(1)] by (simp add: nano_backspace_def)
    with False backspace_edited [OF assms(1)] show ?thesis by blast
  qed
  let ?r = "\<lambda>f. edited e (mem_of st) (f e (mem_of st)) (ed_key c (ts, l, k))"
  consider (edit) f where "nano_key filename c e st = do { (e1, st1) \<leftarrow> nano_edit f e st; Some (e1, True, st1) }" "?r f"
    | (none) "nano_key filename c e st = Some (e, True, st)" "ed_key c (ts, l, k) = (ts, l, k)"
  proof -
    have "c \<noteq> 0" if "32 \<le> c" using that by auto
    then show thesis
      using b enter_edited [OF assms(1)] insert_edited [OF assms(1), of c] assms(2,3) that
      unfolding nano_key_def ed_key_def
      by (cases "c = 8"; cases "c = 10 \<or> c = 13"; cases "32 \<le> c \<and> c < 127") (simp_all del: ed_insert.simps ed_enter.simps)
  qed
  then have "\<exists>e' m'. nano_key filename c e st = Some (e', True, put_mem m' st)
    \<and> text_rep m' e' (ed_key c (ts, l, k)) \<and> nlines e' = nlines e \<and> lines_step (mem_of st) (nlines e) m'"
  proof cases
    case edit
    then show ?thesis by (auto simp: edited_def nano_edit_def)
  next
    case none
    then show ?thesis using assms(1) put_mem_same [of st] lines_step_refl by metis
  qed
  then show ?thesis using text_bounds by (metis prod_cases3)
qed

text \<open>
  C7: every editing key of \<^verbatim>\<open>nano\<close> implements the editor on a list of lines: a character goes in at the
  cursor unless the line is full, backspace takes the character before the cursor out or joins the line
  to the one above, Enter splits the line unless there are 100, every other key changes nothing. The
  cursor stays in the text (the bounds check changes nothing) and only the blocks of the lines are
  written, as long as a joined line is shorter than 80 characters.
\<close>

theorem nano_edits:
  assumes "text_rep (mem_of st) e (ts, l, k)" "c \<noteq> 19" "c \<noteq> 24"
    and "c = 8 \<Longrightarrow> k = 0 \<Longrightarrow> 0 < l \<Longrightarrow> length (ts ! (l - 1)) + length (ts ! l) < 80"
  shows "\<exists>e' m'. nano_key filename c e st = Some (e', True, put_mem m' st)
    \<and> text_rep m' e' (ed_key c (ts, l, k)) \<and> nlines e' = nlines e \<and> nano_bounds m' e' = Some e'
    \<and> lines_step (mem_of st) (nlines e) m'"
  by (rule nano_key_edits [OF assms])

text \<open>A text in memory: the array at \<open>0x1000\<close>, blocks from \<open>0x2000\<close> on, 92 bytes apart.\<close>

definition text_image :: "u8 list list \<Rightarrow> mem" where
  "text_image ts a =
     (if 0x1000 \<le> unat a \<and> unat a < 0x1190
      then ucast (drop_bit (8 * ((unat a - 0x1000) mod 4)) (of_nat (0x2000 + 92 * ((unat a - 0x1000) div 4)) :: u32))
      else let i = (unat a - 0x2000) div 92; k = (unat a - 0x2000) mod 92 in
        if 0x2000 \<le> unat a \<and> i < length ts \<and> k < length (ts ! i) then ts ! i ! k else 0)"

definition text_vars :: "text_state \<Rightarrow> nano" where
  "text_vars t = (case t of (ts, l, k) \<Rightarrow>
     \<lparr>nlines = 0x1000, num_lines = int (length ts), cur_line = int l, cur_col = int k, modified = False\<rparr>)"

lemma text_image_ptr:
  assumes "i < 100"
  shows "line_ptr (text_image ts) 0x1000 i = of_nat (0x2000 + 92 * i)"
proof -
  have u: "unat (0x1000 + of_nat (4 * i + j) :: u32) = 0x1000 + (4 * i + j)" if "j < 4" for j
    using unat_offset [of "0x1000 :: u32" "4 * i + j"] that assms by simp
  have b: "text_image ts (0x1000 + of_nat (4 * i + j)) = ucast (drop_bit (8 * j) (of_nat (0x2000 + 92 * i) :: u32))"
    if "j < 4" for j
    using u [OF that] that assms by (simp add: text_image_def)
  have a: "0x1000 + of_int (4 * int i) = (0x1000 + of_nat (4 * i + 0) :: u32)"
    "0x1000 + of_nat (4 * i + 0) + 1 = (0x1000 + of_nat (4 * i + 1) :: u32)"
    "0x1000 + of_nat (4 * i + 0) + 2 = (0x1000 + of_nat (4 * i + 2) :: u32)"
    "0x1000 + of_nat (4 * i + 0) + 3 = (0x1000 + of_nat (4 * i + 3) :: u32)" by simp_all
  show ?thesis
    unfolding line_at_def load32_def a
    using split_u32 [of "of_nat (0x2000 + 92 * i)"] by (simp only: b) simp
qed

lemma text_image_block:
  "i < 100 \<Longrightarrow> unat (of_nat (0x2000 + 92 * i) :: u32) = 0x2000 + 92 * i"
  by (intro unat_of_nat_lt) simp

lemma text_image_line:
  assumes "i < 100" "i < length ts" "length (ts ! i) < 80" "0 \<notin> set (ts ! i)"
  shows "cstr (text_image ts) (Ptr (of_nat (0x2000 + 92 * i))) (ts ! i)"
proof -
  have m: "text_image ts (of_nat (0x2000 + 92 * i) + of_nat k) = (if k < length (ts ! i) then ts ! i ! k else 0)" if "k < 80" for k
  proof -
    have u: "unat (of_nat (0x2000 + 92 * i) + of_nat k :: u32) = 0x2000 + (92 * i + k)"
      using text_image_block [OF assms(1)] assms(1) that
      by (subst unat_offset) (simp_all only:, simp_all)
    have "(92 * i + k) div 92 = i" "(92 * i + k) mod 92 = k" using that by simp_all
    then show ?thesis unfolding text_image_def u Let_def using assms(2) by simp
  qed
  have "bytes_at (text_image ts) (of_nat (0x2000 + 92 * i)) (length (ts ! i)) = ts ! i"
    by (rule nth_equalityI) (use m assms(3) in simp_all)
  with m [OF assms(3)] assms(4) show ?thesis by (simp only: cstr_Ptr) simp
qed

lemma text_image_rep:
  assumes "length ts \<le> 100" "\<And>i. i < length ts \<Longrightarrow> length (ts ! i) < 80 \<and> 0 \<notin> set (ts ! i)"
    and "l < length ts" "k \<le> length (ts ! l)"
  shows "text_rep (text_image ts) (text_vars (ts, l, k)) (ts, l, k)"
proof -
  have "lines_ok (text_image ts) 0x1000"
    unfolding lines_ok_def
  proof (intro conjI allI impI)
    fix i j :: nat assume i: "i < 100"
    show "unat (line_ptr (text_image ts) 0x1000 i) + 80 \<le> 2 ^ 32"
      using i by (simp only: text_image_ptr text_image_block) simp
    show "line_set (text_image ts) 0x1000 i \<inter> range_of (unat (0x1000 :: u32)) 400 = {}"
      using i by (simp only: text_image_ptr text_image_block) (rule range_of_disjoint, simp)
    assume j: "j < 100" "i \<noteq> j"
    then show "line_set (text_image ts) 0x1000 i \<inter> line_set (text_image ts) 0x1000 j = {}"
      using i by (simp only: text_image_ptr text_image_block) (rule range_of_disjoint, arith)
  qed simp
  moreover have "cstr (text_image ts) (Ptr (line_ptr (text_image ts) 0x1000 i)) (ts ! i)" if "i < length ts" for i
    using that assms(1) text_image_line [of i ts] assms(2) [OF that] text_image_ptr [of i ts] by (simp del: of_nat_add)
  ultimately have "lines_hold (text_image ts) 0x1000 (text_map ts)"
    using assms(1,2) by (simp add: lines_hold_def text_map_def)
  with assms show ?thesis by (simp add: text_vars_def)
qed

theorem nano_edits_witness:
  "\<exists>e' m'. nano_key 0 8 (text_vars ([[104], [105]], 1, 0)) (put_mem (text_image [[104], [105]]) (demo_machine 0 [] []))
      = Some (e', True, put_mem m' (put_mem (text_image [[104], [105]]) (demo_machine 0 [] [])))
    \<and> text_rep m' e' ([[104, 105]], 0, 1)"
proof -
  have "text_rep (mem_of (put_mem (text_image [[104], [105]]) (demo_machine 0 [] []))) (text_vars ([[104], [105]], 1, 0))
    ([[104], [105]], 1, 0)" unfolding put_mem_sel(2) by (rule text_image_rep) (auto simp: less_Suc_eq)
  from nano_edits [OF this, of 8 0] show ?thesis by (auto simp: ed_key_def simp del: text_rep.simps)
qed

end
