(* ===== verification/Nano_Desk.thy ===== *)
theory Nano_Desk
  imports Nano_Props Shell_Cat
begin

text \<open>
  The heap side of the editor: the blocks it borrows for the array of pointers and the lines, and that
  calls of the heap and the file system, and writes into the lines, keep them.
\<close>

section \<open>Borrowed blocks\<close>

definition has_block :: "ramfs \<Rightarrow> addr \<Rightarrow> nat \<Rightarrow> bool" where
  "has_block st p n \<longleftrightarrow> (\<exists>k\<ge>n. owns (mm st) p k) \<and> not_data st p"

lemma has_block_bounds:
  assumes "has_block st p n"
  shows "p \<noteq> NULL" "unat p + n \<le> 2 ^ 32" "range_of (unat p) n \<subseteq> arena"
proof -
  from assms obtain k where k: "n \<le> k" "owns (mm st) p k" by (auto simp: has_block_def)
  from heap.owns_bounds [OF k(2)] k(1) range_of_subset [of "unat p" "unat p" n k]
  show "p \<noteq> NULL" "unat p + n \<le> 2 ^ 32" "range_of (unat p) n \<subseteq> arena" by auto
qed

lemma has_block_disjoint:
  assumes "has_block st p n" "has_block st q k" "p \<noteq> q"
  shows "range_of (unat p) n \<inter> range_of (unat q) k = {}"
proof -
  from assms obtain i j where o: "n \<le> i" "owns (mm st) p i" "k \<le> j" "owns (mm st) q j" by (auto simp: has_block_def)
  have "range_of (unat p) n \<subseteq> range_of (unat p) i" "range_of (unat q) k \<subseteq> range_of (unat q) j"
    by (rule range_of_subset, use o(1,3) in simp, use o(1,3) in simp)+
  with heap.owns_disjoint [OF o(2,4) assms(3)] show ?thesis by blast
qed

lemma has_block_region:
  assumes "fs_rep st A" "has_block st p n"
  shows "client_region st (range_of (unat p) n)"
proof -
  note D = fs_repD [OF assms(1)]
  from assms(2) obtain k where k: "n \<le> k" "owns (mm st) p k" "not_data st p" by (auto simp: has_block_def)
  have "range_of (unat p) n \<subseteq> range_of (unat p) k" using k(1) by auto
  moreover have "range_of (unat p) n \<inter> table_set st = {}" "range_of (unat p) n \<inter> range_of (unat (current_dir st)) 32 = {}"
    using has_block_bounds(3) [OF assms(2)] D(1) by (auto simp: layout_def table_set_def)
  ultimately show ?thesis using k(2,3) unfolding client_region_def by blast
qed

text \<open>The table lies outside the heap.\<close>

lemma data_kept:
  assumes "layout st" "agree_on (- arena) (fs_ram st) m" "i < FS_MAX_FILES"
  shows "f_data m (slot (file_table st) i) = f_data (fs_ram st) (slot (file_table st) i)"
proof -
  have "agree_on (eset (slot (file_table st) i)) (fs_ram st) m"
    by (rule agree_on_mono [OF assms(2)]) (use slot_props(4) [OF assms(1,3)] in blast)
  from fields_cong(1) [OF slot_props(2) [OF assms(1,3)] this] show ?thesis by simp
qed

text \<open>A write into several regions of the caller.\<close>

lemma region_write:
  assumes rep: "fs_rep st A" and S: "client_region st S" and T: "client_region st T" and w: "agree_on (- S) (fs_ram st) m"
  shows "client_region (set_ram m st) T"
proof -
  note D = fs_repD [OF rep] and cw = client_write [OF rep S w]
  have "f_data m (slot (file_table st) i) = f_data (fs_ram st) (slot (file_table st) i)" if "i < FS_MAX_FILES" for i
  proof -
    have "agree_on (eset (slot (file_table st) i)) (fs_ram st) m"
      by (rule agree_on_mono [OF w]) (use slot_props(3) [OF D(1) that] S in \<open>auto simp: client_region_def\<close>)
    from fields_cong(1) [OF slot_props(2) [OF D(1) that] this] show ?thesis by simp
  qed
  with T show ?thesis by (simp add: client_region_def set_ram_def table_set_def cw(2))
qed

lemma client_writes:
  assumes "fs_rep st A" "\<forall>S\<in>set Ss. client_region st S" "agree_on (- \<Union> (set Ss)) (fs_ram st) m"
  shows "fs_rep (set_ram m st) A \<and> (\<forall>q k. owns ((mm st)\<lparr>ram := m\<rparr>) q k \<longleftrightarrow> owns (mm st) q k)"
  using assms
proof (induction Ss arbitrary: st)
  case Nil
  then have "m = fs_ram st" by (auto simp: agree_on_def)
  with Nil.prems(1) show ?case by simp
next
  case (Cons S Ss)
  define m1 where "m1 a = (if a \<in> S then m a else fs_ram st a)" for a
  have w: "agree_on (- S) (fs_ram st) m1" by (simp add: agree_on_def m1_def)
  have S: "client_region st S" using Cons.prems(2) by simp
  note cw = client_write [OF Cons.prems(1) S w]
  have "\<forall>T\<in>set Ss. client_region (set_ram m1 st) T"
    using region_write [OF Cons.prems(1) S _ w] Cons.prems(2) by simp
  moreover have "agree_on (- \<Union> (set Ss)) (fs_ram (set_ram m1 st)) m"
    using Cons.prems(3) by (auto simp: agree_on_def m1_def)
  ultimately show ?case using Cons.IH [OF cw(1)] cw(2) by (simp add: set_ram_def)
qed

section \<open>The editor's blocks\<close>

text \<open>The block of the array, and those of the lines in \<open>I\<close>.\<close>

definition blocks_of :: "mem \<Rightarrow> addr \<Rightarrow> nat set \<Rightarrow> addr set" where
  "blocks_of m ls I = insert ls (line_ptr m ls ` I)"

definition desk :: "ramfs \<Rightarrow> addr \<Rightarrow> nat set \<Rightarrow> bool" where
  "desk st ls I \<longleftrightarrow> I \<subseteq> {..<100} \<and> has_block st ls 400
     \<and> (\<forall>i\<in>I. has_block st (line_ptr (fs_ram st) ls i) 80 \<and> line_ptr (fs_ram st) ls i \<noteq> ls)
     \<and> inj_on (line_ptr (fs_ram st) ls) I"

lemma deskD:
  assumes "desk st ls I"
  shows "I \<subseteq> {..<100}" "has_block st ls 400" "\<And>i. i \<in> I \<Longrightarrow> has_block st (line_ptr (fs_ram st) ls i) 80"
    "\<And>i. i \<in> I \<Longrightarrow> line_ptr (fs_ram st) ls i \<noteq> ls"
    "\<And>i j. i \<in> I \<Longrightarrow> j \<in> I \<Longrightarrow> i \<noteq> j \<Longrightarrow> line_ptr (fs_ram st) ls i \<noteq> line_ptr (fs_ram st) ls j"
  using assms by (auto simp: desk_def inj_on_def)

lemma desk_lines_ok: "desk st ls {..<100} \<Longrightarrow> lines_ok (fs_ram st) ls"
proof -
  assume "desk st ls {..<100}"
  note D = deskD [OF this, unfolded lessThan_iff]
  show ?thesis
    unfolding lines_ok_def
    using has_block_bounds(2) [OF D(2)] has_block_bounds(2) [OF D(3)] has_block_disjoint [OF D(3) D(2) D(4)]
      has_block_disjoint [OF D(3) D(3) D(5)] by blast
qed

text \<open>What the rest of the program may do to the file system's state: the blocks of the editor stay.\<close>

definition keeps :: "ramfs \<Rightarrow> addr \<Rightarrow> nat set \<Rightarrow> ramfs \<Rightarrow> bool" where
  "keeps st ls I st' \<longleftrightarrow> (\<forall>q\<in>blocks_of (fs_ram st) ls I. block_kept (mm st) (mm st') q \<and> not_data st' q)"

lemma block_read:
  assumes "has_block st p n" "block_kept (mm st) (mm st') p"
  shows "agree_on (range_of (unat p) n) (fs_ram st) (fs_ram st')"
proof -
  from assms(1) obtain k where "n \<le> k" "owns (mm st) p k" by (auto simp: has_block_def)
  with assms(2) show ?thesis unfolding block_kept_def by (auto elim!: agree_on_mono)
qed

lemma has_block_kept: "has_block st p n \<Longrightarrow> block_kept (mm st) (mm st') p \<Longrightarrow> not_data st' p \<Longrightarrow> has_block st' p n"
  unfolding has_block_def block_kept_def by blast

lemma array_kept:
  assumes "has_block st ls 400" "block_kept (mm st) (mm st') ls" "i < 100"
  shows "line_ptr (fs_ram st') ls i = line_ptr (fs_ram st) ls i"
  by (rule line_ptr_kept [OF has_block_bounds(2) [OF assms(1)] block_read [OF assms(1,2)] assms(3)])

lemma desk_keeps:
  assumes d: "desk st ls I" and k: "keeps st ls I st'"
  shows "desk st' ls I" "\<And>i. i < 100 \<Longrightarrow> line_ptr (fs_ram st') ls i = line_ptr (fs_ram st) ls i"
    "blocks_of (fs_ram st') ls I = blocks_of (fs_ram st) ls I"
proof -
  note D = deskD [OF d]
  have l: "block_kept (mm st) (mm st') ls" "not_data st' ls" using k by (auto simp: keeps_def blocks_of_def)
  have b: "block_kept (mm st) (mm st') (line_ptr (fs_ram st) ls i)" "not_data st' (line_ptr (fs_ram st) ls i)" if "i \<in> I" for i
    using k that by (auto simp: keeps_def blocks_of_def)
  show p: "line_ptr (fs_ram st') ls i = line_ptr (fs_ram st) ls i" if "i < 100" for i
    by (rule array_kept [OF D(2) l(1) that])
  then have pI: "line_ptr (fs_ram st') ls i = line_ptr (fs_ram st) ls i" if "i \<in> I" for i using D(1) that by blast
  then show "blocks_of (fs_ram st') ls I = blocks_of (fs_ram st) ls I" by (simp add: blocks_of_def)
  show "desk st' ls I"
    using D(1,4,5) has_block_kept [OF D(2) l] has_block_kept [OF D(3) b] pI unfolding desk_def inj_on_def by metis
qed

lemma lines_keeps:
  assumes d: "desk st ls {..<100}" and k: "keeps st ls {..<100} st'" and h: "lines_hold (fs_ram st) ls f"
  shows "lines_hold (fs_ram st') ls f"
  unfolding lines_hold_def
proof (intro conjI allI impI desk_lines_ok [OF desk_keeps(1) [OF d k]])
  fix i t assume "f i = Some t"
  note D = lines_holdD [OF h this]
  show "i < 100" "length t < 80" by (fact D)+
  have b: "block_kept (mm st) (mm st') (line_ptr (fs_ram st) ls i)" using k D(1) by (auto simp: keeps_def blocks_of_def)
  have i: "has_block st (line_ptr (fs_ram st) ls i) 80" using deskD(3) [OF d] D(1) by simp
  have "cspan (Ptr (line_ptr (fs_ram st) ls i)) (Suc (length t)) \<subseteq> line_set (fs_ram st) ls i" using D(2) by auto
  from agree_on_mono [OF block_read [OF i b] this] D(2-4)
  show "cstr (fs_ram st') (Ptr (line_ptr (fs_ram st') ls i)) t"
    using cstr_cong [of "Ptr (line_ptr (fs_ram st) ls i)" t] desk_keeps(2) [OF d k D(1)] by simp
qed

lemma text_keeps:
  assumes "desk st (nlines e) {..<100}" "keeps st (nlines e) {..<100} st'" "text_rep (fs_ram st) e t"
  shows "text_rep (fs_ram st') e t"
  using assms(3) lines_keeps [OF assms(1,2)] by (cases t) auto

text \<open>Writing into the array and the lines.\<close>

lemma desk_write:
  assumes rep: "fs_rep st A" and d: "desk st ls I"
    and w: "agree_on (- (\<Union>i\<in>I. line_set (fs_ram st) ls i)) (fs_ram st) m"
  shows "fs_rep (set_ram m st) A" "desk (set_ram m st) ls I" "\<And>q k. owns ((mm st)\<lparr>ram := m\<rparr>) q k \<longleftrightarrow> owns (mm st) q k"
    "agree_on (- arena) (fs_ram st) m" "\<And>i. i < 100 \<Longrightarrow> line_ptr m ls i = line_ptr (fs_ram st) ls i"
proof -
  note R = fs_repD [OF rep] and D = deskD [OF d]
  have fin: "finite I" by (rule finite_subset [OF D(1)]) simp
  then obtain js where js: "set js = I" using finite_list by blast
  let ?Ss = "map (line_set (fs_ram st) ls) js"
  have c: "\<forall>S\<in>set ?Ss. client_region st S" using D(3) has_block_region [OF rep] js by auto
  have u: "\<Union> (set ?Ss) = (\<Union>i\<in>I. line_set (fs_ram st) ls i)" using js by simp
  note cw = client_writes [OF rep c, unfolded u, OF w]
  then show "fs_rep (set_ram m st) A" and o: "\<And>q k. owns ((mm st)\<lparr>ram := m\<rparr>) q k \<longleftrightarrow> owns (mm st) q k" by blast+
  have "(\<Union>i\<in>I. line_set (fs_ram st) ls i) \<subseteq> arena" using D(3) has_block_bounds(3) by blast
  then show aa: "agree_on (- arena) (fs_ram st) m" by (intro agree_on_mono [OF w]) blast
  have "range_of (unat ls) 400 \<inter> line_set (fs_ram st) ls i = {}" if "i \<in> I" for i
    using has_block_disjoint [OF D(2) D(3) [OF that]] D(4) [OF that] by auto
  then have "agree_on (range_of (unat ls) 400) (fs_ram st) m" by (intro agree_on_mono [OF w]) blast
  then show p: "\<And>i. i < 100 \<Longrightarrow> line_ptr m ls i = line_ptr (fs_ram st) ls i"
    using line_ptr_kept [OF has_block_bounds(2) [OF D(2)]] by blast
  have "has_block (set_ram m st) q n = has_block st q n" for q n
    using data_kept [OF R(1) aa] o by (simp add: has_block_def set_ram_def)
  moreover have "\<And>i. i \<in> I \<Longrightarrow> line_ptr m ls i = line_ptr (fs_ram st) ls i" using p D(1) by blast
  ultimately show "desk (set_ram m st) ls I" using d unfolding desk_def by (auto simp: inj_on_def)
qed

section \<open>The editor's hold on the file system's state\<close>

text \<open>
  The blocks of the editor are in place, \<open>X\<close> are further blocks it holds, there is room \<open>g\<close>; a live block
  was live at the start, holds a file, or is one of these: nothing else leaks.
\<close>

definition bench :: "ramfs \<Rightarrow> ramfs \<Rightarrow> addr \<Rightarrow> nat set \<Rightarrow> addr set \<Rightarrow> afs \<Rightarrow> nat \<Rightarrow> bool" where
  "bench fs0 fs ls I X A g \<longleftrightarrow> fs_rep fs A \<and> desk fs ls I \<and> gap (mm fs) g \<and> fs_frame fs0 fs
     \<and> (\<forall>q k. owns (mm fs) q k \<longrightarrow> owns (mm fs0) q k \<or> \<not> not_data fs q \<or> q \<in> blocks_of (fs_ram fs) ls I \<or> q \<in> X)"

lemma benchD:
  assumes "bench fs0 fs ls I X A g"
  shows "fs_rep fs A" "desk fs ls I" "gap (mm fs) g" "fs_frame fs0 fs" "heap_ok (mm fs)" "layout fs"
    "\<And>q k. owns (mm fs) q k \<Longrightarrow> owns (mm fs0) q k \<or> \<not> not_data fs q \<or> q \<in> blocks_of (fs_ram fs) ls I \<or> q \<in> X"
  using assms fs_repD(1,2) by (auto simp: bench_def)

lemma bench_less: "bench fs0 fs ls I X A g \<Longrightarrow> k \<le> g \<Longrightarrow> bench fs0 fs ls I X A k"
  unfolding bench_def using gap_mono by blast

lemma frame_arena: "agree_on (- arena) (fs_ram st) (ram h) \<Longrightarrow> fs_frame st (st\<lparr>mm := h\<rparr>)"
  unfolding fs_frame_def by (auto elim: agree_on_mono)

lemma not_data_heap:
  assumes "layout st" "agree_on (- arena) (fs_ram st) (ram h)"
  shows "not_data (st\<lparr>mm := h\<rparr>) q \<longleftrightarrow> not_data st q"
  using data_kept [OF assms] by simp

text \<open>A block from the heap.\<close>

lemma take_block:
  assumes rep: "fs_rep fs A" and g: "gap (mm fs) (malloc_total (unat sz) + g)" "28 \<le> g"
    and sz: "0 < unat sz" "unat sz \<le> 0xFFFFFFF0"
  obtains p h where "kmalloc sz (mm fs) = Some (p, h)" "fs_rep (fs\<lparr>mm := h\<rparr>) A" "gap h g"
    "agree_on (- arena) (fs_ram fs) (ram h)" "has_block (fs\<lparr>mm := h\<rparr>) p (unat sz)"
    "\<And>q k. owns h q k \<Longrightarrow> owns (mm fs) q k \<or> q = p" "\<And>k. \<not> owns (mm fs) p k" "\<And>q. block_kept (mm fs) h q"
proof -
  obtain p h where h: "kmalloc sz (mm fs) = Some (p, h)" "fs_rep (fs\<lparr>mm := h\<rparr>) A" "agree_on (- arena) (fs_ram fs) (ram h)"
    "p \<noteq> NULL \<Longrightarrow> \<exists>n. unat sz \<le> n \<and> (\<forall>q k. owns h q k \<longleftrightarrow> owns (mm fs) q k \<or> q = p \<and> k = n)
      \<and> not_data (fs\<lparr>mm := h\<rparr>) p \<and> (\<forall>k. \<not> owns (mm fs) p k)" "\<And>q. block_kept (mm fs) h q"
    by (rule borrow [OF rep sz]) blast
  have p: "p \<noteq> NULL" "gap h g"
    using roomy.room_law [OF fs_repD(2) [OF rep] sz _ g(2) h(1)] g(1) by simp_all
  from h(4) [OF p(1)] obtain n where n: "unat sz \<le> n" "\<And>q k. owns h q k \<longleftrightarrow> owns (mm fs) q k \<or> q = p \<and> k = n"
    "not_data (fs\<lparr>mm := h\<rparr>) p" "\<And>k. \<not> owns (mm fs) p k" by blast
  then have "has_block (fs\<lparr>mm := h\<rparr>) p (unat sz)" by (auto simp: has_block_def)
  with h(1-3,5) p(2) n(2,4) show thesis by (intro that [of p h]) blast+
qed

lemma bench_take:
  assumes b: "bench fs0 fs ls I X A (malloc_total (unat sz) + g)" and sz: "0 < unat sz" "unat sz \<le> 0xFFFFFFF0" "28 \<le> g"
  obtains p h where "kmalloc sz (mm fs) = Some (p, h)" "bench fs0 (fs\<lparr>mm := h\<rparr>) ls I (insert p X) A g"
    "has_block (fs\<lparr>mm := h\<rparr>) p (unat sz)" "p \<notin> blocks_of (ram h) ls I" "keeps fs ls I (fs\<lparr>mm := h\<rparr>)"
    "\<And>q n. has_block fs q n \<Longrightarrow> q \<noteq> p \<and> has_block (fs\<lparr>mm := h\<rparr>) q n" "fs_frame fs (fs\<lparr>mm := h\<rparr>)"
proof -
  note B = benchD [OF b]
  obtain p h where h: "kmalloc sz (mm fs) = Some (p, h)" "fs_rep (fs\<lparr>mm := h\<rparr>) A" "gap h g"
    "agree_on (- arena) (fs_ram fs) (ram h)" "has_block (fs\<lparr>mm := h\<rparr>) p (unat sz)"
    "\<And>q k. owns h q k \<Longrightarrow> owns (mm fs) q k \<or> q = p" "\<And>k. \<not> owns (mm fs) p k" "\<And>q. block_kept (mm fs) h q"
    by (rule take_block [OF B(1,3) sz(3,1,2)]) blast
  note nd = not_data_heap [OF B(6) h(4)]
  have hb: "q \<noteq> p \<and> has_block (fs\<lparr>mm := h\<rparr>) q n" if "has_block fs q n" for q n
    using that h(7,8) nd has_block_kept [OF that, of "fs\<lparr>mm := h\<rparr>"] by (auto simp: has_block_def)
  have k: "keeps fs ls I (fs\<lparr>mm := h\<rparr>)"
    using deskD(2,3) [OF B(2)] h(8) nd by (auto simp: keeps_def blocks_of_def has_block_def)
  note d = desk_keeps [OF B(2) k]
  have "p \<notin> blocks_of (fs_ram fs) ls I"
    using deskD(2,3) [OF B(2)] hb by (auto simp: blocks_of_def)
  with d have np: "p \<notin> blocks_of (ram h) ls I" by simp
  have fr: "fs_frame fs (fs\<lparr>mm := h\<rparr>)" by (rule frame_arena [OF h(4)])
  have "owns (mm fs0) q k \<or> \<not> not_data (fs\<lparr>mm := h\<rparr>) q \<or> q \<in> blocks_of (ram h) ls I \<or> q \<in> insert p X"
    if "owns h q k" for q k
    using h(6) [OF that] B(7) [of q k] d(3) unfolding nd by auto
  then have "bench fs0 (fs\<lparr>mm := h\<rparr>) ls I (insert p X) A g"
    unfolding bench_def using h(2,3) d(1) fs_frame_trans [OF B(4) fr] by simp
  with h(1,5) np k hb fr show thesis by (intro that [of p h]) blast+
qed

text \<open>A block back to the heap.\<close>

lemma bench_drop:
  assumes b: "bench fs0 fs ls I (insert p X) A g" and p: "has_block fs p n" "p \<notin> blocks_of (fs_ram fs) ls I"
  obtains h where "kfree p (mm fs) = Some h" "bench fs0 (fs\<lparr>mm := h\<rparr>) ls I X A g" "keeps fs ls I (fs\<lparr>mm := h\<rparr>)"
    "\<And>q n. has_block fs q n \<Longrightarrow> q \<noteq> p \<Longrightarrow> has_block (fs\<lparr>mm := h\<rparr>) q n" "fs_frame fs (fs\<lparr>mm := h\<rparr>)"
    "\<And>q. q \<noteq> p \<Longrightarrow> block_kept (mm fs) h q"
proof -
  note B = benchD [OF b]
  from p(1) obtain k where k: "owns (mm fs) p k" "not_data fs p" by (auto simp: has_block_def)
  obtain h where h: "kfree p (mm fs) = Some h" "fs_rep (fs\<lparr>mm := h\<rparr>) A" "agree_on (- arena) (fs_ram fs) (ram h)"
    "\<And>q k. owns h q k \<longleftrightarrow> owns (mm fs) q k \<and> q \<noteq> p" "\<And>q. q \<noteq> p \<Longrightarrow> block_kept (mm fs) h q"
    by (rule give_back [OF B(1) k]) blast
  note nd = not_data_heap [OF B(6) h(3)]
  have hb: "has_block (fs\<lparr>mm := h\<rparr>) q n" if "has_block fs q n" "q \<noteq> p" for q n
    using that h(5) nd has_block_kept [OF that(1), of "fs\<lparr>mm := h\<rparr>"] by (auto simp: has_block_def)
  have np: "q \<noteq> p" if "q \<in> blocks_of (fs_ram fs) ls I" for q using that p(2) by blast
  have kp: "keeps fs ls I (fs\<lparr>mm := h\<rparr>)"
    using deskD(2,3) [OF B(2)] h(5) np unfolding keeps_def nd by (auto simp: blocks_of_def has_block_def)
  note d = desk_keeps [OF B(2) kp]
  have fr: "fs_frame fs (fs\<lparr>mm := h\<rparr>)" by (rule frame_arena [OF h(3)])
  have "owns (mm fs0) q k \<or> \<not> not_data (fs\<lparr>mm := h\<rparr>) q \<or> q \<in> blocks_of (ram h) ls I \<or> q \<in> X"
    if "owns h q k" for q k
    using that h(4) B(7) [of q k] d(3) unfolding nd by auto
  moreover have "gap h g" by (rule roomy.room_free [OF B(5) k(1) h(1) B(3)])
  ultimately have "bench fs0 (fs\<lparr>mm := h\<rparr>) ls I X A g"
    unfolding bench_def using h(2) d(1) fs_frame_trans [OF B(4) fr] by simp
  with h(1,5) kp hb fr show thesis by (intro that [of h]) blast+
qed

text \<open>Writes of the editor: into a further block, into the lines, and of a pointer into the array.\<close>

lemma frame_write: "agree_on (- arena) (fs_ram st) m \<Longrightarrow> fs_frame st (set_ram m st)"
  unfolding fs_frame_def by (auto simp: set_ram_def elim: agree_on_mono)

text \<open>Any write into the caller's own regions that keeps the array.\<close>

lemma bench_writes:
  assumes b: "bench fs0 fs ls I X A g" and rep: "fs_rep (set_ram m fs) A"
    and o: "\<And>q k. owns ((mm fs)\<lparr>ram := m\<rparr>) q k \<longleftrightarrow> owns (mm fs) q k" and w: "agree_on (- arena) (fs_ram fs) m"
    and d: "desk (set_ram m fs) ls J" and bl: "blocks_of (fs_ram fs) ls I \<union> X \<subseteq> blocks_of m ls J \<union> Y"
  shows "bench fs0 (set_ram m fs) ls J Y A g" "\<And>q n. has_block fs q n \<Longrightarrow> has_block (set_ram m fs) q n"
    "fs_frame fs (set_ram m fs)"
proof -
  note B = benchD [OF b]
  have nd: "not_data (set_ram m fs) q \<longleftrightarrow> not_data fs q" for q using data_kept [OF B(6) w] by (simp add: set_ram_def)
  show fr: "fs_frame fs (set_ram m fs)" by (rule frame_write [OF w])
  have m: "mm (set_ram m fs) = (mm fs)\<lparr>ram := m\<rparr>" by (simp add: set_ram_def)
  have "gap (mm (set_ram m fs)) g" unfolding m by (rule gap_kept [OF B(3)]) (simp add: o)
  moreover have "owns (mm fs0) q k \<or> \<not> not_data (set_ram m fs) q \<or> q \<in> blocks_of m ls J \<or> q \<in> Y"
    if "owns (mm (set_ram m fs)) q k" for q k
    using that [unfolded m o] B(7) [of q k] bl unfolding nd by blast
  ultimately show "bench fs0 (set_ram m fs) ls J Y A g"
    unfolding bench_def using rep d fs_frame_trans [OF B(4) fr] by simp
  show "has_block (set_ram m fs) q n" if "has_block fs q n" for q n
    using that nd [of q] by (simp add: has_block_def m o del: not_all)
qed

lemma bench_region:
  assumes b: "bench fs0 fs ls I X A g" and p: "has_block fs p n" "p \<notin> blocks_of (fs_ram fs) ls I"
    and w: "agree_on (- range_of (unat p) n) (fs_ram fs) m"
  shows "bench fs0 (set_ram m fs) ls I X A g" "\<And>q n. has_block fs q n \<Longrightarrow> has_block (set_ram m fs) q n"
    "fs_frame fs (set_ram m fs)" "keeps fs ls I (set_ram m fs)"
proof -
  note B = benchD [OF b] and D = deskD [OF benchD(2) [OF b]]
  note cw = client_write [OF B(1) has_block_region [OF B(1) p(1)] w]
  have aa: "agree_on (- arena) (fs_ram fs) m" by (rule agree_on_mono [OF w]) (use has_block_bounds(3) [OF p(1)] in blast)
  have nd: "not_data (set_ram m fs) q \<longleftrightarrow> not_data fs q" for q using data_kept [OF B(6) aa] by (simp add: set_ram_def)
  from p(1) obtain j where j: "n \<le> j" "owns (mm fs) p j" by (auto simp: has_block_def)
  have wj: "agree_on (- range_of (unat p) j) (fs_ram fs) m" by (rule agree_on_mono [OF w]) (use j(1) in auto)
  have bk: "block_kept (mm fs) (mm (set_ram m fs)) q" if "q \<noteq> p" for q
    unfolding block_kept_def
  proof (intro allI impI conjI)
    fix k assume q: "owns (mm fs) q k"
    then show "owns (mm (set_ram m fs)) q k" using cw(2) by (simp add: set_ram_def)
    from heap.owns_disjoint [OF q j(2) that]
    show "agree_on (range_of (unat q) k) (fs_ram fs) (fs_ram (set_ram m fs))"
      using agree_on_mono [OF wj, of "range_of (unat q) k"] by (simp add: disjoint_eq_subset_Compl)
  qed
  have np: "q \<noteq> p" if "q \<in> blocks_of (fs_ram fs) ls I" for q using that p(2) by blast
  show k: "keeps fs ls I (set_ram m fs)"
    using D(2,3) bk np unfolding keeps_def nd by (auto simp: blocks_of_def has_block_def)
  note d = desk_keeps [OF B(2) k]
  have "blocks_of (fs_ram fs) ls I \<union> X \<subseteq> blocks_of m ls I \<union> X" using d(3) by simp
  from bench_writes [OF b cw aa d(1) this] show "bench fs0 (set_ram m fs) ls I X A g"
    "\<And>q n. has_block fs q n \<Longrightarrow> has_block (set_ram m fs) q n" "fs_frame fs (set_ram m fs)" by blast+
qed

lemma bench_lines:
  assumes b: "bench fs0 fs ls I X A g" and w: "agree_on (- (\<Union>i\<in>I. line_set (fs_ram fs) ls i)) (fs_ram fs) m"
  shows "bench fs0 (set_ram m fs) ls I X A g" "\<And>q n. has_block fs q n \<Longrightarrow> has_block (set_ram m fs) q n"
    "fs_frame fs (set_ram m fs)" "\<And>i. i < 100 \<Longrightarrow> line_ptr m ls i = line_ptr (fs_ram fs) ls i"
proof -
  note B = benchD [OF b] and dw = desk_write [OF benchD(1,2) [OF b] w]
  have "blocks_of m ls I = blocks_of (fs_ram fs) ls I"
    using dw(5) deskD(1) [OF B(2)] unfolding blocks_of_def by (intro arg_cong2 [where f = insert] image_cong) auto
  then have "blocks_of (fs_ram fs) ls I \<union> X \<subseteq> blocks_of m ls I \<union> X" by simp
  from bench_writes [OF b dw(1,3,4,2) this] show "bench fs0 (set_ram m fs) ls I X A g"
    "\<And>q n. has_block fs q n \<Longrightarrow> has_block (set_ram m fs) q n" "fs_frame fs (set_ram m fs)" by blast+
  show "\<And>i. i < 100 \<Longrightarrow> line_ptr m ls i = line_ptr (fs_ram fs) ls i" by (rule dw(5))
qed

text \<open>A block becomes a line: its address goes into the array.\<close>

lemma array_store:
  assumes "unat ls + 400 \<le> 2 ^ 32" "i < 100"
  shows "line_ptr (store32 m (ls + of_nat (4 * i)) p) ls i = p"
    "\<And>j. j < 100 \<Longrightarrow> j \<noteq> i \<Longrightarrow> line_ptr (store32 m (ls + of_nat (4 * i)) p) ls j = line_ptr m ls j"
    "agree_on (- range_of (unat ls) 400) m (store32 m (ls + of_nat (4 * i)) p)"
proof -
  have u: "unat (ls + of_nat (4 * j)) = unat ls + 4 * j" if "j < 100" for j
    using assms(1) that by (intro unat_offset) simp
  show "line_ptr (store32 m (ls + of_nat (4 * i)) p) ls i = p"
    by (simp add: line_at_def)
  show "line_ptr (store32 m (ls + of_nat (4 * i)) p) ls j = line_ptr m ls j" if j: "j < 100" "j \<noteq> i" for j
  proof -
    have "load32 (store32 m (ls + of_nat (4 * i)) p) (ls + of_nat (4 * j)) = load32 m (ls + of_nat (4 * j))"
      by (rule load32_store32_other) (use u [OF j(1)] u [OF assms(2)] j assms in auto)
    then show ?thesis by (simp add: line_at_def)
  qed
  show "agree_on (- range_of (unat ls) 400) m (store32 m (ls + of_nat (4 * i)) p)"
    by (rule agree_on_store32 [OF _ _ agree_on_refl]) (use u [OF assms(2)] assms in auto)
qed

lemma bench_array:
  assumes b: "bench fs0 fs ls I (insert p X) A g" and p: "has_block fs p 80" "p \<notin> blocks_of (fs_ram fs) ls I"
    and i: "i < 100" "i \<notin> I"
  defines "m \<equiv> store32 (fs_ram fs) (ls + of_nat (4 * i)) p"
  shows "bench fs0 (set_ram m fs) ls (insert i I) X A g" "fs_frame fs (set_ram m fs)" "line_ptr m ls i = p"
    "\<And>j. j \<in> I \<Longrightarrow> line_ptr m ls j = line_ptr (fs_ram fs) ls j" "agree_on (- range_of (unat ls) 400) (fs_ram fs) m"
proof -
  note B = benchD [OF b] and D = deskD [OF benchD(2) [OF b]]
  note st = array_store [OF has_block_bounds(2) [OF D(2)] i(1), where m = "fs_ram fs" and p = p, folded m_def]
  show w: "agree_on (- range_of (unat ls) 400) (fs_ram fs) m" by (rule st(3))
  show pi: "line_ptr m ls i = p" by (rule st(1))
  show pj: "line_ptr m ls j = line_ptr (fs_ram fs) ls j" if "j \<in> I" for j
    by (rule st(2)) (use that D(1) i(2) in auto)
  note cw = client_write [OF B(1) has_block_region [OF B(1) D(2)] w]
  have aa: "agree_on (- arena) (fs_ram fs) m" by (rule agree_on_mono [OF w]) (use has_block_bounds(3) [OF D(2)] in blast)
  have hb: "has_block (set_ram m fs) q n \<longleftrightarrow> has_block fs q n" for q n
    using data_kept [OF B(6) aa] cw(2) by (simp add: has_block_def set_ram_def)
  have "inj_on (line_ptr m ls) (insert i I)"
    using D(5) p(2) pi pj i(2) by (auto simp: inj_on_def blocks_of_def image_iff)
  then have d: "desk (set_ram m fs) ls (insert i I)"
    using D(1-4) p pi pj i(1) unfolding desk_def hb by (auto simp: blocks_of_def)
  have "blocks_of (fs_ram fs) ls I \<union> insert p X \<subseteq> blocks_of m ls (insert i I) \<union> X"
    using pi pj by (auto simp: blocks_of_def image_iff)
  from bench_writes [OF b cw aa d this] show "bench fs0 (set_ram m fs) ls (insert i I) X A g" "fs_frame fs (set_ram m fs)" by blast+
qed

text \<open>A line stops being one of the editor's.\<close>

lemma bench_line:
  assumes b: "bench fs0 fs ls (insert i I) X A g" and i: "i \<notin> I"
  shows "bench fs0 fs ls I (insert (line_ptr (fs_ram fs) ls i) X) A g" "has_block fs (line_ptr (fs_ram fs) ls i) 80"
    "line_ptr (fs_ram fs) ls i \<notin> blocks_of (fs_ram fs) ls I"
proof -
  note B = benchD [OF b] and D = deskD [OF benchD(2) [OF b]]
  have d: "desk fs ls I" using D unfolding desk_def by (auto simp: inj_on_def)
  show "has_block fs (line_ptr (fs_ram fs) ls i) 80" using D(3) by simp
  show "line_ptr (fs_ram fs) ls i \<notin> blocks_of (fs_ram fs) ls I"
  proof
    assume "line_ptr (fs_ram fs) ls i \<in> blocks_of (fs_ram fs) ls I"
    then obtain j where "j \<in> I" "line_ptr (fs_ram fs) ls j = line_ptr (fs_ram fs) ls i"
      using D(4) [of i] by (auto simp: blocks_of_def)
    with D(5) [of j i] i show False by auto
  qed
  have "blocks_of (fs_ram fs) ls (insert i I) = insert (line_ptr (fs_ram fs) ls i) (blocks_of (fs_ram fs) ls I)"
    by (auto simp: blocks_of_def)
  with b d show "bench fs0 fs ls I (insert (line_ptr (fs_ram fs) ls i) X) A g" by (auto simp: bench_def)
qed

text \<open>\<^verbatim>\<open>fs_write\<close> from a block of the editor: with room it stores the bytes.\<close>

lemma bench_save:
  assumes b: "bench fs0 fs ls I X A (malloc_total (unat n) + g)" "28 \<le> g" and i: "i < FS_MAX_FILES" and e: "slots A ! i = Some e"
    and p: "has_block fs p k" "unat n \<le> k" "n \<le> FS_MAX_FILESIZE"
  obtains r fs' where "fs_write (slot (file_table fs) i) p n fs = Some (r, fs')"
    "bench fs0 fs' ls I X (set_cont i (Stored (bytes_at (fs_ram fs) p (unat n))) A) g"
    "keeps fs ls I fs'" "fs_frame fs fs'" "\<And>q n. has_block fs q n \<Longrightarrow> has_block fs' q n"
proof -
  note B = benchD [OF b(1)] and D = deskD [OF benchD(2) [OF b(1)]]
  let ?f = "slot (file_table fs) i" and ?B = "bytes_at (fs_ram fs) p (unat n)"
  have sub: "range_of (unat p) (unat n) \<subseteq> range_of (unat p) k" using p(2) by auto
  have src: "client_region fs (range_of (unat p) (unat n))"
    using has_block_region [OF B(1) p(1)] sub unfolding client_region_def by blast
  have nb: "unat p + unat n \<le> 2 ^ 32" using has_block_bounds(2) [OF p(1)] p(2) by simp
  from fs_write_full [OF B(1) i e has_block_bounds(1) [OF p(1)] p(3) nb src] B(3) b(2) obtain r h where
    w: "fs_write ?f p n fs = Some (r, fs\<lparr>mm := h\<rparr>)" "fs_rep (fs\<lparr>mm := h\<rparr>) (set_cont i (Stored ?B) A)"
    "\<And>q. q \<noteq> f_data (fs_ram fs) ?f \<Longrightarrow> block_kept (mm fs) h q"
    "agree_on (- (eset ?f \<union> arena)) (fs_ram fs) (ram h)"
    "\<And>q k. owns h q k \<Longrightarrow> owns (mm fs) q k \<and> q \<noteq> f_data (fs_ram fs) ?f \<or> q = f_data (ram h) ?f"
    "f_data (ram h) ?f = f_data (fs_ram fs) ?f \<or> (\<forall>k. \<not> owns (mm fs) (f_data (ram h) ?f) k)"
    "gap h g" by blast
  have fd: "f_data (ram h) (slot (file_table fs) j) = f_data (fs_ram fs) (slot (file_table fs) j)"
    if j: "j < FS_MAX_FILES" "j \<noteq> i" for j
  proof -
    have "eset (slot (file_table fs) j) \<inter> eset ?f = {}" using slot_props(6) [OF B(6) j(1) i j(2)] .
    then have "agree_on (eset (slot (file_table fs) j)) (fs_ram fs) (ram h)"
      by (intro agree_on_mono [OF w(4)]) (use slot_props(4) [OF B(6) j(1)] in blast)
    from fields_cong(1) [OF slot_props(2) [OF B(6) j(1)] this] show ?thesis by simp
  qed
  have nd: "not_data (fs\<lparr>mm := h\<rparr>) q" if q: "not_data fs q" "owns (mm fs) q k" for q k
  proof (intro allI impI)
    fix j assume j: "j < FS_MAX_FILES"
    show "f_data (fs_ram (fs\<lparr>mm := h\<rparr>)) (slot (file_table (fs\<lparr>mm := h\<rparr>)) j) \<noteq> q"
      using q fd [OF j] w(6) i j by (cases "j = i") auto
  qed
  have hb: "has_block (fs\<lparr>mm := h\<rparr>) q n" "block_kept (mm fs) h q" if "has_block fs q n" for q n
  proof -
    from that obtain j where j: "n \<le> j" "owns (mm fs) q j" "not_data fs q" by (auto simp: has_block_def)
    then show bk: "block_kept (mm fs) h q" using w(3) i by metis
    show "has_block (fs\<lparr>mm := h\<rparr>) q n"
      by (rule has_block_kept [OF that]) (use bk nd [OF j(3,2)] in simp_all)
  qed
  have kp: "keeps fs ls I (fs\<lparr>mm := h\<rparr>)"
    using hb [OF D(2)] hb [OF D(3)] unfolding keeps_def by (auto simp: blocks_of_def has_block_def)
  note d = desk_keeps [OF B(2) kp]
  have "agree_on (- (table_set fs \<union> cwd_set fs \<union> arena)) (fs_ram fs) (ram h)"
    by (rule agree_on_mono [OF w(4)]) (use slot_props(3) [OF B(6) i] in blast)
  then have fr: "fs_frame fs (fs\<lparr>mm := h\<rparr>)" by (simp add: fs_frame_def)
  have "owns (mm fs0) q k \<or> \<not> not_data (fs\<lparr>mm := h\<rparr>) q \<or> q \<in> blocks_of (ram h) ls I \<or> q \<in> X"
    if "owns h q k" for q k
  proof (cases "q = f_data (ram h) ?f")
    case True
    then show ?thesis using i by auto
  next
    case False
    with w(5) [OF that] have o: "owns (mm fs) q k" "q \<noteq> f_data (fs_ram fs) ?f" by blast+
    have "\<not> not_data (fs\<lparr>mm := h\<rparr>) q" if nf: "\<not> not_data fs q"
    proof -
      from nf obtain j where j: "j < FS_MAX_FILES" "f_data (fs_ram fs) (slot (file_table fs) j) = q" by blast
      with o(2) fd [of j] have "f_data (ram h) (slot (file_table fs) j) = q" by (cases "j = i") auto
      with j(1) show ?thesis by auto
    qed
    with B(7) [OF o(1)] d(3) show ?thesis by auto
  qed
  then have "bench fs0 (fs\<lparr>mm := h\<rparr>) ls I X (set_cont i (Stored ?B) A) g"
    unfolding bench_def using w(2,7) d(1) fs_frame_trans [OF B(4) fr] by simp
  with w(1) kp fr hb(1) show thesis by (intro that [of r "fs\<lparr>mm := h\<rparr>"]) blast+
qed

end
