(* ===== verification/Nano_Session.thy ===== *)
theory Nano_Session
  imports Nano_Desk
begin

text \<open>
  The editor at work: what its steps may do to the machine, the screen, saving a text, and the loop over
  the keys up to Ctrl-X.
\<close>

section \<open>Drawing\<close>

lemma cursor_prints [prints]: "console_step st s \<Longrightarrow> console_step st (vga_set_cursor r k s)"
  and hide_prints [prints]: "console_step st s \<Longrightarrow> console_step st (vga_hide_cursor s)"
  and show_prints [prints]: "console_step st s \<Longrightarrow> console_step st (vga_show_cursor s)"
  and clear_prints [prints]: "console_step st s \<Longrightarrow> console_step st (vga_clear s)"
  and pow_prints [prints]: "console_step st s \<Longrightarrow> console_step st ((vga_putchar c ^^ n) s)"
  by (auto intro: console_step_trans console)

lemma nano_rows_prints:
  assumes "\<And>j. int j < num \<Longrightarrow> \<exists>w. cstr (mem_of st) (Ptr (line_ptr (mem_of st) ls j)) w" "console_step st s"
  shows "runs (nano_rows ls num i n s) (console_step st)"
  using assms(2)
proof (induction n arbitrary: i s)
  case (Suc n)
  let ?s1 = "vga_set_cursor (of_nat (i + 1)) 0 s"
  show ?case
  proof (cases "int i < num")
    case True
    have s1: "console_step st ?s1" by (rule cursor_prints [OF Suc.prems])
    have m1: "mem_of ?s1 = mem_of st" using console_step_machine(1) [OF s1] by simp
    obtain w where "cstr (mem_of st) (Ptr (line_ptr (mem_of st) ls i)) w" using assms(1) [OF True] by blast
    from say_at_prints [OF this s1] have
      "runs (if line_ptr (mem_of ?s1) ls i \<noteq> NULL then say_at (line_ptr (mem_of ?s1) ls i) ?s1 else Some ?s1) (console_step st)"
      unfolding m1 using s1 by (simp add: runs_Some)
    then show ?thesis
      unfolding nano_rows.simps Let_def if_P [OF True] by (rule runs_bind) (rule Suc.IH)
  qed (use Suc.prems in \<open>simp add: runs_Some\<close>)
qed (simp add: runs_Some)

lemma nano_draw_prints:
  assumes f: "cstr (mem_of st) (Ptr filename) w" "length w < 2 ^ 32"
    and l: "\<And>j. int j < num_lines e \<Longrightarrow> \<exists>w. cstr (mem_of st) (Ptr (line_ptr (mem_of st) (nlines e) j)) w"
  shows "runs (nano_draw filename e st) (console_step st)"
proof -
  have len: "strlen (mem_of s) (Ptr filename) = Some (of_nat (length w))" if "console_step st s" for s
    using strlen_eq [OF f] console_step_machine(1) [OF that] by simp
  show ?thesis
    unfolding nano_draw_def Let_def
    by (intro runs_bind [where P = "console_step st"] runs_Some runs_if runs_value [OF len] say_at_prints [OF f(1)]
        nano_rows_prints [OF l] prints console_step_refl; (assumption | simp)?)
qed

section \<open>What the editor may do to the machine\<close>

text \<open>A \<open>shell_step\<close> but for the keys it reads.\<close>

definition edit_step :: "'a machine_scheme \<Rightarrow> 'a machine_scheme \<Rightarrow> bool" where
  "edit_step st st' \<longleftrightarrow> shell_ok st' \<and> same_drivers st st' \<and> off_screen_same st st'
     \<and> file_table (fsys st') = file_table (fsys st) \<and> current_dir (fsys st') = current_dir (fsys st)
     \<and> agree_on (cmd_set st) (mem_of st) (mem_of st')"

lemma shell_step_edit: "shell_step st st' \<longleftrightarrow> edit_step st st' \<and> queue st' = queue st"
  by (auto simp: shell_step_def edit_step_def)

lemma edit_step_trans [trans]: "edit_step st s \<Longrightarrow> edit_step s s' \<Longrightarrow> edit_step st s'"
  unfolding edit_step_def
  by (elim conjE, intro conjI)
    (auto intro: same_drivers_trans off_screen_trans agree_on_trans simp: same_drivers_def)

lemma getchar_edit:
  assumes "shell_ok st" "queue st = c # ks"
  shows "\<exists>st'. keyboard_getchar st = Some (c, st') \<and> edit_step st st' \<and> queue st' = ks \<and> fsys st' = fsys st"
proof -
  have r: "ring_ok st" "cursor_ok st" "timer_frequency st \<noteq> 0" "buffers_ok st" "\<exists>A. fs_rep (fsys st) A"
    using assms(1) by (simp_all add: shell_ok_def)
  from getchar_ready [OF r(1) assms(2)] obtain st' where g: "keyboard_getchar st = Some (c, st')" "ring_ok st'"
    "queue st' = ks" "fsys st' = fsys st" "same_drivers st st'" "cursor_ok st'" using r(2) by auto
  have "key_wait st = Some st" using assms(2) has_key_queue [OF r(1)] by (subst key_wait.simps) simp
  with g(1) have "st' = snd (buffer_take st)" by (auto simp: keyboard_getchar_def)
  then have "off_screen_same st st'" by (simp add: off_screen_same_def buffer_take_def Let_def)
  moreover have "shell_ok st'" using g r by (simp add: shell_ok_def buffers_ok_def same_drivers_def)
  ultimately show ?thesis using g by (auto simp: edit_step_def agree_on_refl)
qed

text \<open>A change of the file system's state within its frame.\<close>

lemma frame_step:
  assumes "shell_step st s" "fs_rep fs' A'" "fs_frame (fsys s) fs'"
  shows "shell_step st (s\<lparr>fsys := fs'\<rparr>)"
  using assms(3) fs_frame_cmd [OF shell_step_ok [OF assms(1)] assms(3) shell_step_sel(1) [OF assms(1)]]
  by (intro shell_step_fs [OF assms(1,2)]) (simp_all add: fs_frame_def)

section \<open>The heap and the lines from the machine\<close>

text \<open>\<^verbatim>\<open>kmalloc\<close> with room, \<^verbatim>\<open>kfree\<close> of a block of the editor, writes into one and into the lines.\<close>

lemma mach_take:
  assumes ok: "shell_ok s" and b: "bench fs0 (fsys s) ls I X A (malloc_total n + g)" and g: "28 \<le> g"
    and n: "unat sz = n" "0 < n" "n \<le> 0xFFFFFFF0"
  obtains p s1 where "mach_malloc sz s = Some (p, s1)" "p \<noteq> NULL" "shell_step s s1" "bench fs0 (fsys s1) ls I (insert p X) A g"
    "has_block (fsys s1) p n" "p \<notin> blocks_of (mem_of s1) ls I" "keeps (fsys s) ls I (fsys s1)"
proof -
  have b': "bench fs0 (fsys s) ls I X A (malloc_total (unat sz) + g)" and sz: "0 < unat sz" "unat sz \<le> 0xFFFFFFF0"
    using b n by simp_all
  obtain p h where T: "kmalloc sz (mm (fsys s)) = Some (p, h)" "bench fs0 ((fsys s)\<lparr>mm := h\<rparr>) ls I (insert p X) A g"
    "has_block ((fsys s)\<lparr>mm := h\<rparr>) p n" "p \<notin> blocks_of (ram h) ls I" "keeps (fsys s) ls I ((fsys s)\<lparr>mm := h\<rparr>)"
    "fs_frame (fsys s) ((fsys s)\<lparr>mm := h\<rparr>)"
    by (rule bench_take [OF b' sz g, unfolded n(1)]) blast
  from frame_step [OF shell_step_refl [OF ok] benchD(1) [OF T(2)] T(6)]
  show thesis using T(1-5) has_block_bounds(1) [OF T(3)] by (intro that [of p "s\<lparr>fsys := (fsys s)\<lparr>mm := h\<rparr>\<rparr>"]) (simp_all add: mach_malloc_def)
qed

lemma mach_drop:
  assumes ok: "shell_ok s" and b: "bench fs0 (fsys s) ls I (insert p X) A g"
    and p: "has_block (fsys s) p n" "p \<notin> blocks_of (mem_of s) ls I"
  obtains s1 where "mach_free p s = Some s1" "shell_step s s1" "bench fs0 (fsys s1) ls I X A g" "keeps (fsys s) ls I (fsys s1)"
proof -
  obtain h where F: "kfree p (mm (fsys s)) = Some h" "bench fs0 ((fsys s)\<lparr>mm := h\<rparr>) ls I X A g"
    "keeps (fsys s) ls I ((fsys s)\<lparr>mm := h\<rparr>)" "fs_frame (fsys s) ((fsys s)\<lparr>mm := h\<rparr>)"
    by (rule bench_drop [OF b p]) blast
  from frame_step [OF shell_step_refl [OF ok] benchD(1) [OF F(2)] F(4)]
  show thesis using F(1-3) by (intro that [of "s\<lparr>fsys := (fsys s)\<lparr>mm := h\<rparr>\<rparr>"]) (simp_all add: mach_free_def)
qed

lemma mach_region:
  assumes ok: "shell_ok s" and b: "bench fs0 (fsys s) ls I X A g" and p: "has_block (fsys s) p n" "p \<notin> blocks_of (mem_of s) ls I"
    and w: "agree_on (- range_of (unat p) n) (mem_of s) m"
  shows "shell_step s (put_mem m s)" "bench fs0 (fsys (put_mem m s)) ls I X A g" "keeps (fsys s) ls I (fsys (put_mem m s))"
    "has_block (fsys (put_mem m s)) p n" "p \<notin> blocks_of m ls I"
proof -
  note R = bench_region [OF b p w] and eq = put_mem_def [of m s]
  from frame_step [OF shell_step_refl [OF ok] benchD(1) [OF R(1)] R(3)] show "shell_step s (put_mem m s)" by (simp add: eq)
  show "bench fs0 (fsys (put_mem m s)) ls I X A g" "keeps (fsys s) ls I (fsys (put_mem m s))" using R(1,4) by (simp_all add: eq)
  show "has_block (fsys (put_mem m s)) p n" using R(2) [OF p(1)] by (simp add: eq)
  show "p \<notin> blocks_of m ls I" using p(2) desk_keeps(3) [OF benchD(2) [OF b] R(4)] by simp
qed

lemma mach_lines:
  assumes ok: "shell_ok s" and b: "bench fs0 (fsys s) ls {..<100} X A g" and w: "lines_step (mem_of s) ls m"
  shows "shell_step s (put_mem m s)" "bench fs0 (fsys (put_mem m s)) ls {..<100} X A g"
    "\<And>q n. has_block (fsys s) q n \<Longrightarrow> has_block (fsys (put_mem m s)) q n"
    "blocks_of m ls {..<100} = blocks_of (mem_of s) ls {..<100}"
proof -
  have "agree_on (- (\<Union>i\<in>{..<100}. line_set (mem_of s) ls i)) (mem_of s) m" using w by (simp add: lines_step_def all_lines_def)
  note L = bench_lines [OF b this] and eq = put_mem_def [of m s]
  from frame_step [OF shell_step_refl [OF ok] benchD(1) [OF L(1)] L(3)] show "shell_step s (put_mem m s)" by (simp add: eq)
  show "bench fs0 (fsys (put_mem m s)) ls {..<100} X A g" "\<And>q n. has_block (fsys s) q n \<Longrightarrow> has_block (fsys (put_mem m s)) q n"
    using L(1,2) by (simp_all add: eq)
  show "blocks_of m ls {..<100} = blocks_of (mem_of s) ls {..<100}" using w by (simp add: blocks_of_def lines_step_def)
qed

section \<open>Saving\<close>

lemma lines_hold_agree:
  assumes h: "lines_hold m ls f" and w: "agree_on (range_of (unat ls) 400 \<union> all_lines m ls) m m'"
  shows "lines_hold m' ls f" "\<And>i. i < 100 \<Longrightarrow> line_ptr m' ls i = line_ptr m ls i"
proof -
  have ok: "lines_ok m ls" using h by (simp add: lines_hold_def)
  have "agree_on (range_of (unat ls) 400) m m'" by (rule agree_on_mono [OF w]) blast
  then show p: "\<And>i. i < 100 \<Longrightarrow> line_ptr m' ls i = line_ptr m ls i"
    using line_ptr_kept ok unfolding lines_ok_def by blast
  have "lines_ok m' ls" using ok p by (simp add: lines_ok_def)
  moreover have "cstr m' (Ptr (line_ptr m' ls i)) t" if "f i = Some t" for i t
  proof -
    note D = lines_holdD [OF h that]
    have "cspan (Ptr (line_ptr m ls i)) (Suc (length t)) \<subseteq> line_set m ls i" using D(2) by auto
    with line_all [OF D(1)] have "agree_on (cspan (Ptr (line_ptr m ls i)) (Suc (length t))) m m'"
      by (intro agree_on_mono [OF w]) blast
    from cstr_cong [OF this] D p [OF D(1)] show ?thesis by simp
  qed
  ultimately show "lines_hold m' ls f" using lines_holdD(1,2) [OF h] by (simp add: lines_hold_def)
qed

text \<open>The size, and the lines one after the other.\<close>

lemma nano_total_eq:
  assumes "lines_hold m ls (text_map ts)" "i + n \<le> length ts"
  shows "nano_total ls m (int i) n tot = Some (tot + of_nat (length (as_lines (take n (drop i ts)))))"
  using assms(2)
proof (induction n arbitrary: i tot)
  case (Suc n)
  have f: "text_map ts i = Some (ts ! i)" using Suc.prems by (simp add: text_map_def)
  have d: "take (Suc n) (drop i ts) = ts ! i # take n (drop (Suc i) ts)"
    using Suc.prems by (simp add: Cons_nth_drop_Suc [symmetric])
  have "nano_total ls m (int i) (Suc n) tot = nano_total ls m (int (Suc i)) n (tot + (of_nat (length (ts ! i)) + 1))"
    by (simp add: line_strlen [OF assms(1) f] algebra_simps)
  also have "\<dots> = Some (tot + (of_nat (length (ts ! i)) + 1) + of_nat (length (as_lines (take n (drop (Suc i) ts)))))"
    by (rule Suc.IH) (use Suc.prems in simp)
  finally show ?case unfolding d by (simp add: algebra_simps)
qed simp

lemma nano_concat_eq:
  assumes "lines_hold m ls (text_map ts)" "i + n \<le> length ts" "cstr m (Ptr p) acc"
    and "length acc + length (as_lines (take n (drop i ts))) < k" "unat p + k \<le> 2 ^ 32"
    and "range_of (unat p) k \<inter> (range_of (unat ls) 400 \<union> all_lines m ls) = {}"
  shows "\<exists>m'. nano_concat p ls m (int i) n = Some m' \<and> cstr m' (Ptr p) (acc @ as_lines (take n (drop i ts)))
    \<and> agree_on (- range_of (unat p) k) m m'"
  using assms
proof (induction n arbitrary: i m acc)
  case 0
  then show ?case by (simp add: agree_on_refl)
next
  case (Suc n)
  let ?t = "ts ! i" and ?q = "line_ptr m ls i" and ?R = "range_of (unat p) k"
  have f: "text_map ts i = Some ?t" using Suc.prems(2) by (simp add: text_map_def)
  note D = lines_holdD [OF Suc.prems(1) f]
  have d: "take (Suc n) (drop i ts) = ?t # take n (drop (Suc i) ts)"
    using Suc.prems(2) by (simp add: Cons_nth_drop_Suc [symmetric])
  have len: "length acc + length ?t + 1 + length (as_lines (take n (drop (Suc i) ts))) < k"
    using Suc.prems(4) unfolding d by simp
  have "range_of (unat ?q) (Suc (length ?t)) \<subseteq> line_set m ls i" using D(2) by auto
  moreover have "range_of (unat p + length acc) (Suc (length ?t)) \<subseteq> ?R" using len by auto
  ultimately have dis: "cspan (Ptr ?q) (Suc (length ?t)) \<inter> range_of (unat p + length acc) (Suc (length ?t)) = {}"
    using Suc.prems(6) line_all [OF D(1), of m ls] by auto
  have b1: "unat p + length acc + length ?t < 2 ^ 32" using len Suc.prems(5) by linarith
  let ?m1 = "put_bytes m (p + of_nat (length acc)) (?t @ [0])"
  have c1: "strcat m p (Ptr ?q) = Some ?m1"
    by (rule strcat_eq [OF Suc.prems(3) D(3) b1 _ dis]) (use D(2,4) in simp)
  note s1 = strcat_cstr [OF Suc.prems(3) D(3) b1]
  have b2: "unat p + length (acc @ ?t) + length (bytes ''\<newline>'') < 2 ^ 32" using len Suc.prems(5) by simp
  have nl: "cstr ?m1 (Lit ''\<newline>'') (bytes ''\<newline>'')" by (rule cstr_Lit) simp
  let ?m2 = "put_bytes ?m1 (p + of_nat (length (acc @ ?t))) (bytes ''\<newline>'' @ [0])"
  have c2: "strcat ?m1 p (Lit ''\<newline>'') = Some ?m2"
    by (rule strcat_eq [OF s1 nl b2]) simp_all
  have s2: "cstr ?m2 (Ptr p) (acc @ ?t @ [10])" using strcat_cstr [OF s1 nl b2] by simp
  have u: "unat (p + of_nat j) = unat p + j" if "j < k" for j using that Suc.prems(5) by (intro unat_offset) simp
  have w1: "agree_on (- ?R) m ?m1"
    by (rule agree_on_put_bytes) (use u [of "length acc"] len Suc.prems(5) in auto)
  have w2: "agree_on (- ?R) ?m1 ?m2"
    by (rule agree_on_put_bytes) (use u [of "length (acc @ ?t)"] len Suc.prems(5) in auto)
  note w = agree_on_trans [OF w1 w2]
  have "agree_on (range_of (unat ls) 400 \<union> all_lines m ls) m ?m2"
    by (rule agree_on_mono [OF w]) (use Suc.prems(6) in blast)
  note h2 = lines_hold_agree [OF Suc.prems(1) this]
  have al: "all_lines ?m2 ls = all_lines m ls" using h2(2) by (simp add: all_lines_def)
  have n2: "Suc i + n \<le> length ts" "length (acc @ ?t @ [10]) + length (as_lines (take n (drop (Suc i) ts))) < k"
    "?R \<inter> (range_of (unat ls) 400 \<union> all_lines ?m2 ls) = {}"
    using Suc.prems(2,6) len al by simp_all
  from Suc.IH [OF h2(1) n2(1) s2 n2(2) Suc.prems(5) n2(3)] obtain m' where
    m': "nano_concat p ls ?m2 (int (Suc i)) n = Some m'"
      "cstr m' (Ptr p) ((acc @ ?t @ [10]) @ as_lines (take n (drop (Suc i) ts)))" "agree_on (- ?R) ?m2 m'" by blast
  have "nano_concat p ls m (int i) (Suc n) = Some m'" using c1 c2 m'(1) by (simp add: algebra_simps)
  then show ?case using m'(2) agree_on_trans [OF w m'(3)] unfolding d by simp
qed

text \<open>The editor at work on a text: where it began, where it is, and the file system's contents.\<close>

definition editing :: "'a machine_scheme \<Rightarrow> 'a machine_scheme \<Rightarrow> nano \<Rightarrow> text_state \<Rightarrow> afs \<Rightarrow> nat \<Rightarrow> bool" where
  "editing st0 s e t A g \<longleftrightarrow> edit_step st0 s \<and> bench (fsys st0) (fsys s) (nlines e) {..<100} {} A g
     \<and> text_rep (mem_of s) e t"

text \<open>A word of the command line, throughout.\<close>

lemma arg_stays:
  assumes "shell_ok st" "edit_step st s" "arg_ok (mem_of st) (unat (command_buffer st)) 255 a w"
  shows "cstr (mem_of s) (Ptr a) w" "length w < 2 ^ 32"
proof -
  have b: "unat (command_buffer st) + 256 \<le> 2 ^ 32" using assms(1) by (simp add: shell_ok_def buffers_ok_def)
  from assms(3) have "cspan (Ptr a) (Suc (length w)) \<subseteq> cmd_set st" by (auto simp: arg_ok_def)
  moreover have "agree_on (cmd_set st) (mem_of st) (mem_of s)" using assms(2) by (simp add: edit_step_def)
  ultimately have "agree_on (cspan (Ptr a) (Suc (length w))) (mem_of st) (mem_of s)" by (rule agree_on_mono [rotated])
  from cstr_cong [OF this] b assms(3) show "cstr (mem_of s) (Ptr a) w" by (simp add: arg_ok_def)
  show "length w < 2 ^ 32" using b assms(3) by (simp add: arg_ok_def)
qed

definition save_in :: "u8 list \<Rightarrow> u8 list list \<Rightarrow> afs \<Rightarrow> afs" where
  "save_in name ts A = (case find_slot name (slots A) of None \<Rightarrow> A | Some i \<Rightarrow> set_cont i (Stored (as_lines ts)) A)"

text \<open>What one save takes from the heap at most.\<close>

definition SAVE_ROOM :: nat where "SAVE_ROOM = 16100"

lemma as_lines_length: "(\<And>t. t \<in> set ts \<Longrightarrow> length t < n) \<Longrightarrow> length (as_lines ts) \<le> n * length ts"
  by (induction ts) (fastforce simp: Suc_le_eq)+

lemma as_lines_nonzero: "(\<And>t. t \<in> set ts \<Longrightarrow> 0 \<notin> set t) \<Longrightarrow> 0 \<notin> set (as_lines ts)"
  by (induction ts) auto

lemma text_lines:
  assumes "text_rep m e (ts, l, k)" "t \<in> set ts"
  shows "length t < 80" "0 \<notin> set t"
proof -
  from assms(2) obtain i where i: "i < length ts" "t = ts ! i" by (auto simp: in_set_conv_nth)
  have "lines_hold m (nlines e) (text_map ts)" "text_map ts i = Some t" using assms(1) i by (simp_all add: text_map_def)
  note D = lines_holdD [OF this]
  show "length t < 80" by (rule D(2))
  show "0 \<notin> set t" by (rule cstr_nonzero [OF D(3)])
qed

lemma text_size: "text_rep m e (ts, l, k) \<Longrightarrow> length (as_lines ts) \<le> 8000"
  using as_lines_length [of ts 80] text_lines(1) [of m e ts l k] by fastforce

text \<open>The text gathered in the new block.\<close>

lemma gather:
  assumes b: "bench fs0 fs ls {..<100} X A g" and h: "lines_hold (fs_ram fs) ls (text_map ts)"
    and p: "has_block fs p (Suc (length (as_lines ts)))" "p \<notin> blocks_of (fs_ram fs) ls {..<100}"
  obtains m where "nano_concat p ls ((fs_ram fs)(p := 0)) 0 (length ts) = Some m" "cstr m (Ptr p) (as_lines ts)"
    "agree_on (- range_of (unat p) (Suc (length (as_lines ts)))) (fs_ram fs) m"
proof -
  note D = deskD [OF benchD(2) [OF b], unfolded lessThan_iff]
  let ?n = "Suc (length (as_lines ts))" and ?m = "(fs_ram fs)(p := 0)"
  let ?R = "range_of (unat p) (Suc (length (as_lines ts)))"
  have "?R \<inter> range_of (unat ls) 400 = {}"
    using has_block_disjoint [OF p(1) D(2)] p(2) by (simp add: blocks_of_def)
  moreover have "?R \<inter> line_set (fs_ram fs) ls i = {}" if "i < 100" for i
    using has_block_disjoint [OF p(1) D(3) [OF that]] p(2) that by (auto simp: blocks_of_def)
  ultimately have dis: "?R \<inter> (range_of (unat ls) 400 \<union> all_lines (fs_ram fs) ls) = {}" by (auto simp: all_lines_def)
  have w: "agree_on (- ?R) (fs_ram fs) ?m" by (rule agree_on_upd [OF _ agree_on_refl]) simp
  have "agree_on (range_of (unat ls) 400 \<union> all_lines (fs_ram fs) ls) (fs_ram fs) ?m"
    by (rule agree_on_mono [OF w]) (use dis in blast)
  note h2 = lines_hold_agree [OF h this]
  have "all_lines ?m ls = all_lines (fs_ram fs) ls" using h2(2) by (simp add: all_lines_def)
  with dis have dis2: "?R \<inter> (range_of (unat ls) 400 \<union> all_lines ?m ls) = {}" by simp
  have "cstr ?m (Ptr p) []" by simp
  from nano_concat_eq [OF h2(1) _ this, of 0 "length ts" ?n] has_block_bounds(2) [OF p(1)] dis2 obtain m where
    "nano_concat p ls ?m 0 (length ts) = Some m" "cstr m (Ptr p) (as_lines ts)" "agree_on (- ?R) ?m m" by auto
  then show thesis using agree_on_trans [OF w] by (intro that [of m]) blast+
qed

text \<open>Steps of the editor on the file system's state that keep its text.\<close>

lemma editing_frame:
  assumes "edit_step st0 s" "bench (fsys st0) fs' ls I X A g" "fs_frame (fsys s) fs'"
  shows "edit_step st0 (s\<lparr>fsys := fs'\<rparr>)" "shell_step s (s\<lparr>fsys := fs'\<rparr>)"
proof -
  have "shell_ok s" using assms(1) by (simp add: edit_step_def)
  from frame_step [OF shell_step_refl [OF this] benchD(1) [OF assms(2)] assms(3)]
  show "shell_step s (s\<lparr>fsys := fs'\<rparr>)" .
  then show "edit_step st0 (s\<lparr>fsys := fs'\<rparr>)" using edit_step_trans [OF assms(1)] by (simp add: shell_step_edit)
qed

lemma queue_fsys [simp]: "queue (s\<lparr>fsys := f\<rparr>) = queue (s :: 'a machine_scheme)"
  by (simp add: queue_def ring_len_def)

lemma save_write:
  assumes E: "edit_step st0 s" "bench (fsys st0) (fsys s) ls {..<100} X A (malloc_total (length (as_lines ts)) + g)" "28 \<le> g"
    and n: "cstr (mem_of s) (Ptr fn) name" and len: "length (as_lines ts) \<le> 8000"
    and p: "has_block (fsys s) p (Suc (length (as_lines ts)))" "cstr (mem_of s) (Ptr p) (as_lines ts)"
  obtains e1 s1 where "(do { f \<leftarrow> fs_open (Ptr fn) (fsys s);
      if f \<noteq> NULL then do {
           len \<leftarrow> strlen (mem_of s) (Ptr p);
           (r, st') \<leftarrow> mach_fs (fs_write f p len) s;
           Some (e\<lparr>modified := False\<rparr>, st')
         }
      else Some (e, s) }) = Some (e1, s1)"
    "e1 = e \<or> e1 = e\<lparr>modified := False\<rparr>" "shell_step s s1" "keeps (fsys s) ls {..<100} (fsys s1)"
    "bench (fsys st0) (fsys s1) ls {..<100} X (save_in name ts A) g" "has_block (fsys s1) p (Suc (length (as_lines ts)))"
proof -
  note B = benchD [OF E(2)]
  let ?L = "length (as_lines ts)"
  have ok: "shell_ok s" using E(1) by (simp add: edit_step_def)
  note op = fs_open_eq [OF B(1) n]
  show thesis
  proof (cases "find_slot name (slots A)")
    case None
    have "bench (fsys st0) (fsys s) ls {..<100} X A g" by (rule bench_less [OF E(2)]) simp
    moreover have "keeps (fsys s) ls {..<100} (fsys s)"
      using deskD(2,3) [OF B(2)] by (auto simp: keeps_def blocks_of_def has_block_def)
    ultimately show thesis using op None shell_step_refl [OF ok] p(1) by (intro that [of e s]) (simp_all add: save_in_def)
  next
    case (Some i)
    note i = find_slot_lt [OF B(1) Some]
    from find_slot_Some [OF Some] obtain x where x: "slots A ! i = Some x" by blast
    have u: "unat (of_nat ?L :: u32) = ?L" using len by simp
    have n: "of_nat ?L \<le> FS_MAX_FILESIZE" using u len by (simp add: word_le_nat_alt FS_MAX_FILESIZE_def)
    have E2: "bench (fsys st0) (fsys s) ls {..<100} X A (malloc_total (unat (of_nat ?L :: u32)) + g)" using E(2) u by simp
    have uk: "unat (of_nat ?L :: u32) \<le> Suc ?L" using u by simp
    obtain r fs' where w: "fs_write (slot (file_table (fsys s)) i) p (of_nat ?L) (fsys s) = Some (r, fs')"
      "bench (fsys st0) fs' ls {..<100} X (set_cont i (Stored (bytes_at (mem_of s) p (unat (of_nat ?L :: u32)))) A) g"
      "keeps (fsys s) ls {..<100} fs'" "fs_frame (fsys s) fs'" "\<And>q n. has_block (fsys s) q n \<Longrightarrow> has_block fs' q n"
      by (rule bench_save [OF E2 E(3) i x p(1) uk n]) blast
    have bs: "bytes_at (mem_of s) p ?L = as_lines ts" using p(2) by (simp add: cstr_Ptr)
    have sl: "strlen (mem_of s) (Ptr p) = Some (of_nat ?L)" using p(2) len by (intro strlen_eq) simp_all
    show thesis
    proof (rule that [of "e\<lparr>modified := False\<rparr>" "s\<lparr>fsys := fs'\<rparr>"])
      show "shell_step s (s\<lparr>fsys := fs'\<rparr>)" by (rule editing_frame(2) [OF E(1) w(2,4)])
      show "bench (fsys st0) (fsys (s\<lparr>fsys := fs'\<rparr>)) ls {..<100} X (save_in name ts A) g"
        using w(2) u bs Some by (simp add: save_in_def)
    qed (use op Some sl w(1,3,5) p(1) slot_props(1) [OF B(6) i] in \<open>simp_all add: mach_fs_def\<close>)
  qed
qed

lemma nano_save_spec:
  assumes E: "editing st0 s e (ts, l, k) A (SAVE_ROOM + g)" "28 \<le> g"
    and ok0: "shell_ok st0" and fn: "arg_ok (mem_of st0) (unat (command_buffer st0)) 255 fn name"
  shows "\<exists>e' s'. nano_save fn e s = Some (e', s') \<and> editing st0 s' e' (ts, l, k) (save_in name ts A) g
    \<and> queue s' = queue s \<and> nlines e' = nlines e"
proof -
  let ?ls = "nlines e" and ?L = "length (as_lines ts)" and ?I = "{..<100::nat}" and ?n = "Suc (length (as_lines ts))"
  have S: "edit_step st0 s" "bench (fsys st0) (fsys s) ?ls ?I {} A (SAVE_ROOM + g)" "text_rep (mem_of s) e (ts, l, k)"
    using E(1) by (simp_all add: editing_def)
  have r: "lines_hold (mem_of s) ?ls (text_map ts)" "nat (num_lines e) = length ts" using S(3) by simp_all
  have len: "?L \<le> 8000" by (rule text_size [OF S(3)])
  have ok: "shell_ok s" using S(1) by (simp add: edit_step_def)
  have tot: "nano_total ?ls (mem_of s) 0 (length ts) 0 = Some (of_nat ?L)"
    using nano_total_eq [OF r(1), of 0 "length ts" 0] by simp
  let ?sz = "of_nat ?L + 1 :: u32"
  have usz: "unat ?sz = ?n" "0 < ?n" "?n \<le> 0xFFFFFFF0" using len unat_of_nat_lt [of ?n] by (simp_all add: add.commute)
  have "malloc_total ?n + (malloc_total ?L + g) \<le> SAVE_ROOM + g"
    using len by (simp add: malloc_total_def SAVE_ROOM_def)
  note b0 = bench_less [OF S(2) this] and g = le_trans [OF E(2) le_add2]
  obtain p s1 where T: "mach_malloc ?sz s = Some (p, s1)" "p \<noteq> NULL" "shell_step s s1"
    "bench (fsys st0) (fsys s1) ?ls ?I {p} A (malloc_total ?L + g)" "has_block (fsys s1) p ?n"
    "p \<notin> blocks_of (mem_of s1) ?ls ?I" "keeps (fsys s) ?ls ?I (fsys s1)"
    by (rule mach_take [OF ok b0 g usz]) blast
  have t1: "text_rep (mem_of s1) e (ts, l, k)" by (rule text_keeps [OF benchD(2) [OF S(2)] T(7) S(3)])
  then have h1: "lines_hold (mem_of s1) ?ls (text_map ts)" by simp
  obtain m where m: "nano_concat p ?ls ((mem_of s1)(p := 0)) 0 (length ts) = Some m" "cstr m (Ptr p) (as_lines ts)"
    "agree_on (- range_of (unat p) ?n) (mem_of s1) m"
    by (rule gather [OF T(4) h1 T(5,6)])
  note R = mach_region [OF shell_step_ok [OF T(3)] T(4-6) m(3)]
  define s2 where "s2 = put_mem m s1"
  note R = R [folded s2_def]
  have m2: "mem_of s2 = m" by (simp add: s2_def)
  have t2: "text_rep (mem_of s2) e (ts, l, k)" by (rule text_keeps [OF benchD(2) [OF T(4)] R(3) t1])
  have st2: "edit_step st0 s2" using edit_step_trans [OF S(1)] shell_step_trans [OF T(3) R(1)] by (simp add: shell_step_edit)
  obtain e1 s3 where W: "(do { f \<leftarrow> fs_open (Ptr fn) (fsys s2);
      if f \<noteq> NULL then do {
           len \<leftarrow> strlen (mem_of s2) (Ptr p);
           (r, st') \<leftarrow> mach_fs (fs_write f p len) s2;
           Some (e\<lparr>modified := False\<rparr>, st')
         }
      else Some (e, s2) }) = Some (e1, s3)"
    "e1 = e \<or> e1 = e\<lparr>modified := False\<rparr>" "shell_step s2 s3" "keeps (fsys s2) ?ls ?I (fsys s3)"
    "bench (fsys st0) (fsys s3) ?ls ?I {p} (save_in name ts A) g" "has_block (fsys s3) p ?n"
    by (rule save_write [OF st2 R(2) E(2) arg_stays(1) [OF ok0 st2 fn] len R(4) m(2) [folded m2]]) blast
  have t3: "text_rep (mem_of s3) e (ts, l, k)" by (rule text_keeps [OF benchD(2) [OF R(2)] W(4) t2])
  have p3: "p \<notin> blocks_of (mem_of s3) ?ls ?I"
    using R(5) desk_keeps(3) [OF benchD(2) [OF R(2)] W(4)] by (simp add: m2)
  obtain s4 where F: "mach_free p s3 = Some s4" "shell_step s3 s4"
    "bench (fsys st0) (fsys s4) ?ls ?I {} (save_in name ts A) g" "keeps (fsys s3) ?ls ?I (fsys s4)"
    by (rule mach_drop [OF shell_step_ok [OF W(3)] W(5,6) p3]) blast
  have ne: "nlines e1 = ?ls" "text_rep (mem_of s4) e1 (ts, l, k)"
    using W(2) text_keeps [OF benchD(2) [OF W(5)] F(4) t3] by auto
  from shell_step_trans [OF T(3) shell_step_trans [OF R(1) shell_step_trans [OF W(3) F(2)]]] have st: "shell_step s s4" .
  from W(1) obtain f where W1: "fs_open (Ptr fn) (fsys s2) = Some f"
    "(if f \<noteq> NULL then do {
           len \<leftarrow> strlen (mem_of s2) (Ptr p);
           (r, st') \<leftarrow> mach_fs (fs_write f p len) s2;
           Some (e\<lparr>modified := False\<rparr>, st')
         }
      else Some (e, s2)) = Some (e1, s3)" by (auto simp: bind_eq_Some_conv)
  have "nano_save fn e s = Some (e1, s4)"
    unfolding nano_save_def Let_def using tot m(1) T(1,2) W1 F(1) r(2)
    by (simp only: s2_def [symmetric] bind.bind_lunit case_prod_conv if_True) simp
  then show ?thesis
    using edit_step_trans [OF S(1)] st F(3) ne by (simp add: editing_def shell_step_edit)
qed

section \<open>The loop\<close>

text \<open>What keys up to Ctrl-X make of a text and the files; Ctrl-S saves.\<close>

primrec nano_keys :: "u8 list \<Rightarrow> u8 list \<Rightarrow> text_state \<Rightarrow> afs \<Rightarrow> text_state \<times> afs" where
  "nano_keys name [] t A = (t, A)"
| "nano_keys name (c # ks) t A =
     (if c = 19 then nano_keys name ks t (save_in name (fst t) A) else nano_keys name ks (ed_key c t) A)"

text \<open>No key joins two lines into one of 80 characters or more.\<close>

fun join_ok :: "u8 \<Rightarrow> text_state \<Rightarrow> bool" where
  "join_ok c (ts, l, k) \<longleftrightarrow> (c = 8 \<longrightarrow> k = 0 \<longrightarrow> 0 < l \<longrightarrow> length (ts ! (l - 1)) + length (ts ! l) < 80)"

primrec joins_ok :: "u8 list \<Rightarrow> text_state \<Rightarrow> bool" where
  "joins_ok [] t \<longleftrightarrow> True"
| "joins_ok (c # ks) t \<longleftrightarrow> join_ok c t \<and> joins_ok ks (if c = 19 then t else ed_key c t)"

lemma editing_console:
  assumes "editing st0 s e t A g" "console_step s s1"
  shows "editing st0 s1 e t A g" "queue s1 = queue s"
proof -
  have "shell_ok s" using assms(1) by (simp add: editing_def edit_step_def)
  from shell_step_console [OF shell_step_refl [OF this] assms(2)] have "shell_step s s1" .
  then show "editing st0 s1 e t A g" "queue s1 = queue s"
    using assms edit_step_trans [of st0 s s1] console_step_machine(1) [OF assms(2)] by (simp_all add: editing_def shell_step_edit)
qed

lemma editing_draw:
  assumes E: "editing st0 s e (ts, l, k) A g" and ok0: "shell_ok st0"
    and fn: "arg_ok (mem_of st0) (unat (command_buffer st0)) 255 fn name"
  shows "\<exists>s1. nano_draw fn e s = Some s1 \<and> console_step s s1"
proof -
  have S: "edit_step st0 s" "text_rep (mem_of s) e (ts, l, k)" using E by (simp_all add: editing_def)
  have "\<exists>w. cstr (mem_of s) (Ptr (line_ptr (mem_of s) (nlines e) j)) w" if "int j < num_lines e" for j
  proof -
    have "text_map ts j = Some (ts ! j)" using that S(2) by (simp add: text_map_def)
    with lines_holdD(3) [of "mem_of s" "nlines e" "text_map ts" j] S(2) show ?thesis by auto
  qed
  from nano_draw_prints [OF arg_stays [OF ok0 S(1) fn] this] show ?thesis by (auto simp: runs_def)
qed

text \<open>One key but Ctrl-X.\<close>

lemma editing_key:
  assumes E: "editing st0 s e (ts, l, k) A ((if c = 19 then SAVE_ROOM else 0) + g)" "28 \<le> g" and ok0: "shell_ok st0"
    and fn: "arg_ok (mem_of st0) (unat (command_buffer st0)) 255 fn name" and c: "c \<noteq> 24" "join_ok c (ts, l, k)"
  shows "\<exists>e' s'. nano_key fn c e s = Some (e', True, s')
    \<and> editing st0 s' e' (if c = 19 then (ts, l, k) else ed_key c (ts, l, k)) (if c = 19 then save_in name ts A else A) g
    \<and> queue s' = queue s \<and> nlines e' = nlines e \<and> nano_bounds (mem_of s') e' = Some e'"
proof (cases "c = 19")
  case True
  with nano_save_spec [OF _ E(2) ok0 fn, of s e ts l k A] E(1) obtain e' s' where
    v: "nano_save fn e s = Some (e', s')" "editing st0 s' e' (ts, l, k) (save_in name ts A) g"
      "queue s' = queue s" "nlines e' = nlines e" by auto
  have "text_rep (mem_of s') e' (ts, l, k)" using v(2) by (simp add: editing_def del: text_rep.simps)
  from text_bounds [OF this] v True c(1) show ?thesis by (simp add: nano_key_def)
next
  case False
  have S: "edit_step st0 s" "bench (fsys st0) (fsys s) (nlines e) {..<100} {} A g" "text_rep (mem_of s) e (ts, l, k)"
    using E(1) False by (simp_all add: editing_def del: text_rep.simps)
  from nano_key_edits [OF S(3) False c(1), of fn] c(2) obtain e' m' where
    r: "nano_key fn c e s = Some (e', True, put_mem m' s)" "text_rep m' e' (ed_key c (ts, l, k))"
      "nlines e' = nlines e" "nano_bounds m' e' = Some e'" "lines_step (mem_of s) (nlines e) m'" by auto
  have "agree_on (- (\<Union>i\<in>{..<100}. line_set (mem_of s) (nlines e) i)) (mem_of s) m'"
    using r(5) by (simp add: lines_step_def all_lines_def)
  note b = bench_lines [OF S(2) this]
  have "put_mem m' s = s\<lparr>fsys := set_ram m' (fsys s)\<rparr>" by (simp add: put_mem_def)
  with editing_frame [OF S(1) b(1,3)] b(1) r False show ?thesis
    by (simp add: editing_def shell_step_def del: text_rep.simps)
qed

lemma nano_loop_spec:
  assumes "editing st0 s e t A (count_list ks 19 * SAVE_ROOM + g)" "28 \<le> g" "shell_ok st0"
    and "arg_ok (mem_of st0) (unat (command_buffer st0)) 255 fn name"
    and "queue s = ks @ 24 # rest" "24 \<notin> set ks" "joins_ok ks t"
  shows "\<exists>e' s'. nano_loop fn e s = Some (e', s')
    \<and> editing st0 s' e' (fst (nano_keys name ks t A)) (snd (nano_keys name ks t A)) g
    \<and> queue s' = rest \<and> nlines e' = nlines e"
  using assms
proof (induction ks arbitrary: s e t A)
  case Nil
  obtain ts l k where t: "t = (ts, l, k)" by (cases t)
  from editing_draw [OF Nil.prems(1) [unfolded t] Nil.prems(3,4)] obtain s1 where
    d: "nano_draw fn e s = Some s1" "console_step s s1" by blast
  note e1 = editing_console [OF Nil.prems(1) d(2)]
  have "shell_ok s1" using e1(1) by (simp add: editing_def edit_step_def)
  from getchar_edit [OF this, of 24 rest] e1(2) Nil.prems(5) obtain s2 where
    c: "keyboard_getchar s1 = Some (24, s2)" "edit_step s1 s2" "queue s2 = rest" "fsys s2 = fsys s1" by auto
  have e2: "editing st0 s2 e t A g"
    using e1(1) c(2,4) edit_step_trans [of st0 s1 s2] by (simp add: editing_def)
  then have "text_rep (mem_of s2) e (ts, l, k)" by (simp add: editing_def t del: text_rep.simps)
  from text_bounds [OF this] d(1) c(1) have "nano_loop fn e s = Some (e, s2)"
    by (subst nano_loop.simps) (simp add: nano_key_def)
  with e2 c(3) show ?case by simp
next
  case (Cons c ks)
  obtain ts l k where t: "t = (ts, l, k)" by (cases t)
  from editing_draw [OF Cons.prems(1) [unfolded t] Cons.prems(3,4)] obtain s1 where
    d: "nano_draw fn e s = Some s1" "console_step s s1" by blast
  note e1 = editing_console [OF Cons.prems(1) d(2)]
  have "shell_ok s1" using e1(1) by (simp add: editing_def edit_step_def)
  from getchar_edit [OF this, of c "ks @ 24 # rest"] e1(2) Cons.prems(5) obtain s2 where
    g: "keyboard_getchar s1 = Some (c, s2)" "edit_step s1 s2" "queue s2 = ks @ 24 # rest" "fsys s2 = fsys s1" by auto
  let ?g = "count_list ks 19 * SAVE_ROOM + g"
  have "count_list (c # ks) 19 * SAVE_ROOM + g = (if c = 19 then SAVE_ROOM else 0) + ?g" by simp
  then have e2: "editing st0 s2 e (ts, l, k) A ((if c = 19 then SAVE_ROOM else 0) + ?g)"
    using e1(1) g(2,4) edit_step_trans [of st0 s1 s2] unfolding t by (simp only: editing_def)
  have cc: "c \<noteq> 24" "24 \<notin> set ks" "join_ok c (ts, l, k)" "joins_ok ks (if c = 19 then t else ed_key c t)" "28 \<le> ?g"
    using Cons.prems(2,6,7) t by auto
  from editing_key [OF e2 cc(5) Cons.prems(3,4) cc(1,3)] obtain e' s3 where
    k: "nano_key fn c e s2 = Some (e', True, s3)"
      "editing st0 s3 e' (if c = 19 then t else ed_key c t) (if c = 19 then save_in name ts A else A) ?g"
      "queue s3 = queue s2" "nlines e' = nlines e" "nano_bounds (mem_of s3) e' = Some e'" unfolding t by blast
  have run: "nano_loop fn e s = nano_loop fn e' s3"
    by (subst nano_loop.simps) (simp add: d(1) g(1) k(1,5))
  have q: "queue s3 = ks @ 24 # rest" using k(3) g(3) by simp
  from Cons.IH [OF k(2) Cons.prems(2,3,4) q cc(2,4)] show ?case unfolding run using k(4) t by (cases "c = 19") simp_all
qed

end
