(* ===== verification/Nano_Lines.thy ===== *)
theory Nano_Lines
  imports Nano_Desk
begin

text \<open>
  The lines of a file as the editor loads them: at most 100, each of at most 79 characters; the rest of
  a longer line is dropped.
\<close>

primrec to_lines :: "nat \<Rightarrow> u8 list \<Rightarrow> u8 list list" where
  "to_lines 0 t = []"
| "to_lines (Suc k) t =
     (if t = [] then [] else take 79 (takeWhile (\<lambda>c. c \<noteq> 10) t) # to_lines k (drop 1 (dropWhile (\<lambda>c. c \<noteq> 10) t)))"

lemma to_lines_Nil [simp]: "to_lines k [] = []"
  by (cases k) simp_all

lemma to_lines_length: "length (to_lines k t) \<le> k"
  by (induction k arbitrary: t) simp_all

text \<open>The lines so far, the others empty.\<close>

definition filled :: "u8 list list \<Rightarrow> u8 list list" where
  "filled us = us @ replicate (100 - length us) []"

lemma filled_next: "length us < 100 \<Longrightarrow> (text_map (filled us))(length us \<mapsto> w) = text_map (filled (us @ [w]))"
proof -
  assume l: "length us < 100"
  then have "replicate (100 - length us) [] = ([] :: u8 list) # replicate (100 - Suc (length us)) []"
    by (metis Suc_diff_Suc replicate_Suc)
  then have "(filled us)[length us := w] = filled (us @ [w])" by (simp add: filled_def)
  moreover have "length us < length (filled us)" using l by (simp add: filled_def)
  ultimately show ?thesis using text_map_update by metis
qed

lemma put_bytes_end: "put_bytes m p (xs @ [c]) = (put_bytes m p xs)(p + of_nat (length xs) := c)"
  by (simp add: put_bytes_append)

text \<open>One line.\<close>

lemma split_line:
  assumes h: "lines_hold m ls f" and n: "n < 100" and t: "cstr m (Ptr p) t" and b: "unat p + Suc (length t) \<le> 2 ^ 32"
    and dis: "range_of (unat p) (Suc (length t)) \<inter> all_lines m ls = {}"
  defines "w \<equiv> takeWhile (\<lambda>c. c \<noteq> 10) t" and "r \<equiv> dropWhile (\<lambda>c. c \<noteq> 10) t"
  defines "q \<equiv> p + of_nat (length w)"
  obtains m2 where "line_end m p = Some q"
    "(let len = (if NANO_LINE_LEN \<le> q - p then NANO_LINE_LEN - 1 else q - p); m1 = strncpy m (line_ptr m ls n) (Ptr p) len
      in m1(line_at m1 ls (int n) + len := 0)) = m2"
    "lines_hold m2 ls (f(n \<mapsto> take 79 w))" "lines_step m ls m2"
    "r = [] \<Longrightarrow> m2 q = 0" "r \<noteq> [] \<Longrightarrow> m2 q = 10 \<and> cstr m2 (Ptr (q + 1)) (drop 1 r)" "unat q = unat p + length w"
proof -
  let ?d = "line_ptr m ls n" and ?L = "min 79 (length w)"
  have wr: "w @ r = t" by (simp add: w_def r_def)
  have lt: "length w \<le> length t" using wr by (metis length_append le_add1)
  have uq: "unat q = unat p + length w" unfolding q_def using b lt by (intro unat_offset) simp
  have ul: "unat (of_nat (length w) :: u32) = length w" using b lt by (intro unat_of_nat_lt) simp
  have d: "unat ?d + 80 \<le> 2 ^ 32" using h n by (simp add: lines_hold_def lines_ok_def)
  define len where "len = (if NANO_LINE_LEN \<le> q - p then NANO_LINE_LEN - 1 else q - p)"
  have len: "len = of_nat ?L" "unat len = ?L"
    using ul by (cases "length w = 79"; simp add: len_def q_def NANO_LINE_LEN_def word_le_nat_alt min_def)+
  have R: "range_of (unat ?d) ?L \<subseteq> line_set m ls n" by auto
  have sub: "line_set m ls n \<subseteq> all_lines m ls" by (rule line_all [OF n])
  have "cspan (Ptr p) (Suc (length t)) \<inter> range_of (unat ?d) (unat len) = {}" using dis R sub unfolding len(2) by auto
  then have s: "strncpy m ?d (Ptr p) len = put_bytes m ?d (take ?L t)"
    using strncpy_long [OF t, of len ?d] len(2) lt d b by simp
  have tk: "take ?L t = take 79 w" unfolding wr [symmetric] by (simp add: min_def)
  have tl: "length (take 79 w) = ?L" by simp
  let ?m1 = "put_bytes m ?d (take 79 w)" and ?m2 = "put_bytes m ?d (take 79 w @ [0])"
  have w1: "agree_on (- line_set m ls n) m ?m1" and w2: "agree_on (- line_set m ls n) m ?m2"
    using d by (auto intro!: agree_on_put_bytes)
  have ok: "lines_ok m ls" using h by (simp add: lines_hold_def)
  then have "agree_on (range_of (unat ls) 400) m ?m1" using n by (intro agree_on_mono [OF w1]) (auto simp: lines_ok_def)
  from line_ptr_kept [OF _ this n] ok have l1: "line_at ?m1 ls (int n) = ?d" by (simp add: lines_ok_def)
  have m2: "?m1(line_at ?m1 ls (int n) + len := 0) = ?m2" unfolding l1 len(1) put_bytes_end tl ..
  have nz: "0 \<notin> set (take 79 w)" using cstr_nonzero [OF t] wr by (metis UnCI in_set_takeD set_append)
  then have "cstr ?m2 (Ptr ?d) (take 79 w)" using d by (intro cstr_put_bytes) simp_all
  note st = lines_store [OF h n w2 _ this]
  have step: "lines_step m ls ?m2" using st(2) by (intro lines_stepI [OF n w2]) simp
  have out: "agree_on (range_of (unat p) (Suc (length t))) m ?m2" by (rule agree_on_mono [OF w2]) (use dis sub in blast)
  then have "agree_on (cspan (Ptr p) (Suc (length t))) m ?m2" by simp
  from cstr_cong [OF this] t b have t2: "cstr ?m2 (Ptr p) (w @ r)" unfolding wr by simp
  then have t3: "cstr ?m2 (Ptr q) r" by (simp add: cstr_append q_def)
  show thesis
  proof (rule that [of ?m2])
    show "line_end m p = Some q" using line_end_eq [OF t] by (simp add: q_def w_def)
    show "(let len = (if NANO_LINE_LEN \<le> q - p then NANO_LINE_LEN - 1 else q - p); m1 = strncpy m ?d (Ptr p) len
      in m1(line_at m1 ls (int n) + len := 0)) = ?m2"
      unfolding len_def [symmetric] Let_def s tk by (rule m2)
    show "lines_hold ?m2 ls (f(n \<mapsto> take 79 w))" by (rule st(1)) simp
    show "r = [] \<Longrightarrow> ?m2 q = 0" using t3 by simp
    show "?m2 q = 10 \<and> cstr ?m2 (Ptr (q + 1)) (drop 1 r)" if nz: "r \<noteq> []"
    proof -
      obtain r' where "r = 10 # r'" using nz hd_dropWhile [of "\<lambda>c. c \<noteq> 10" t] unfolding r_def by (cases "dropWhile (\<lambda>c. c \<noteq> 10) t") auto
      with t3 show ?thesis by simp
    qed
  qed (use step uq in simp_all)
qed

lemma nano_split_spec:
  assumes "lines_hold m ls (text_map (filled us))" "length us \<le> 100" "cstr m (Ptr p) t" "unat p + Suc (length t) \<le> 2 ^ 32"
    and "range_of (unat p) (Suc (length t)) \<inter> all_lines m ls = {}"
  shows "\<exists>m'. nano_split ls m p (int (length us)) = Some (m', int (length us + length (to_lines (100 - length us) t)))
    \<and> lines_hold m' ls (text_map (filled (us @ to_lines (100 - length us) t))) \<and> lines_step m ls m'"
  using assms
proof (induction "100 - length us" arbitrary: m p t us)
  case 0
  then have "length us = 100" by simp
  with "0.prems" show ?case by (subst nano_split.simps) (simp add: NANO_MAX_LINES_def)
next
  case (Suc k)
  have n: "length us < 100" and k: "100 - length us = Suc k" "k = 100 - Suc (length us)" using Suc.hyps(2) by simp_all
  show ?case
  proof (cases "t = []")
    case True
    with Suc.prems show ?thesis by (subst nano_split.simps) simp
  next
    case False
    then have p: "m p \<noteq> 0" using Suc.prems(3) by (cases t) auto
    define w where "w = takeWhile (\<lambda>c. c \<noteq> 10) t"
    define r where "r = dropWhile (\<lambda>c. c \<noteq> 10) t"
    define q where "q = p + of_nat (length w)"
    have wr: "length w + length r = length t" unfolding w_def r_def by (metis length_append takeWhile_dropWhile_id)
    obtain m2 where L: "line_end m p = Some q"
      "(let len = (if NANO_LINE_LEN \<le> q - p then NANO_LINE_LEN - 1 else q - p); m1 = strncpy m (line_ptr m ls (length us)) (Ptr p) len
        in m1(line_at m1 ls (int (length us)) + len := 0)) = m2"
      "lines_hold m2 ls ((text_map (filled us))(length us \<mapsto> take 79 w))" "lines_step m ls m2"
      "r = [] \<Longrightarrow> m2 q = 0" "r \<noteq> [] \<Longrightarrow> m2 q = 10 \<and> cstr m2 (Ptr (q + 1)) (drop 1 r)" "unat q = unat p + length w"
      by (rule split_line [OF Suc.prems(1) n Suc.prems(3-5), folded w_def r_def q_def]) blast
    let ?q = "if m2 q = 10 then q + 1 else q" and ?us = "us @ [take 79 w]"
    have run: "nano_split ls m p (int (length us)) = nano_split ls m2 ?q (int (length ?us))"
    proof -
      have "nano_split ls m p (int (length us)) = nano_split ls m2 ?q (int (length us) + 1)"
        unfolding nano_split.simps [of ls m p] L(1) bind.bind_lunit Let_def L(2) [unfolded Let_def]
        using p n by (simp only: NANO_MAX_LINES_def) simp
      then show ?thesis by (simp add: add.commute)
    qed
    have al: "all_lines m2 ls = all_lines m ls" using L(4) by (simp add: lines_step_def all_lines_def)
    have next_text: "cstr m2 (Ptr ?q) (drop 1 r) \<and> unat ?q + Suc (length (drop 1 r)) \<le> 2 ^ 32
      \<and> range_of (unat ?q) (Suc (length (drop 1 r))) \<subseteq> range_of (unat p) (Suc (length t))"
    proof (cases "r = []")
      case True
      with L(5,7) wr Suc.prems(4) show ?thesis by auto
    next
      case nz: False
      then have "unat (q + 1) = unat q + 1"
        using L(7) wr Suc.prems(4) unat_offset [of q 1] by (cases r) simp_all
      with L(6) [OF nz] L(7) wr Suc.prems(4) nz show ?thesis by (cases r) auto
    qed
    have "k = 100 - length ?us" "length ?us \<le> 100" using k n by simp_all
    from Suc.hyps(1) [OF this(1) _ this(2)] L(3) [unfolded filled_next [OF n]] next_text Suc.prems(5) al
    obtain m' where m': "nano_split ls m2 ?q (int (length ?us)) = Some (m', int (length ?us + length (to_lines (100 - length ?us) (drop 1 r))))"
      "lines_hold m' ls (text_map (filled (?us @ to_lines (100 - length ?us) (drop 1 r))))" "lines_step m2 ls m'" by blast
    have tl: "to_lines (100 - length us) t = take 79 w # to_lines (100 - length ?us) (drop 1 r)"
      unfolding k(1) using False k(2) by (simp add: w_def r_def)
    show ?thesis unfolding run tl using m' lines_step_trans [OF L(4) m'(3)] by (simp add: algebra_simps)
  qed
qed

end
