(* ===== verification/Nano_Load.thy ===== *)
theory Nano_Load
  imports Nano_Session Nano_Lines
begin

text \<open>
  The beginning of an editor session: the 101 blocks, and the lines of the file.
\<close>

section \<open>The blocks\<close>

lemma line_in_set: "unat (line_ptr m ls i) + 80 \<le> 2 ^ 32 \<Longrightarrow> line_ptr m ls i \<in> line_set m ls i"
  by simp

text \<open>One line: a block, its address in the array, its first byte 0.\<close>

lemma alloc_line:
  assumes ok: "shell_ok s" and b: "bench fs0 (fsys s) ls {..<i} {} A (malloc_total 80 + g)" and g: "28 \<le> g" and i: "i < 100"
    and z: "\<forall>j<i. mem_of s (line_ptr (mem_of s) ls j) = 0"
  obtains p s1 m2 where "mach_malloc NANO_LINE_LEN s = Some (p, s1)"
    "m2 = (store32 (mem_of s1) (ls + of_nat (4 * i)) p)(p := 0)"
    "line_at (store32 (mem_of s1) (ls + of_nat (4 * i)) p) ls (int i) = p" "p \<noteq> NULL"
    "shell_step s (put_mem m2 s1)" "bench fs0 (fsys (put_mem m2 s1)) ls {..<Suc i} {} A g"
    "\<forall>j<Suc i. m2 (line_ptr m2 ls j) = 0"
proof -
  note B = benchD [OF b] and D = deskD [OF benchD(2) [OF b]]
  have u80: "unat NANO_LINE_LEN = 80" "0 < (80 :: nat)" "80 \<le> (0xFFFFFFF0 :: nat)" by (simp_all add: NANO_LINE_LEN_def)
  obtain p s1 where T: "mach_malloc NANO_LINE_LEN s = Some (p, s1)" "p \<noteq> NULL" "shell_step s s1"
    "bench fs0 (fsys s1) ls {..<i} {p} A g" "has_block (fsys s1) p 80" "p \<notin> blocks_of (mem_of s1) ls {..<i}"
    "keeps (fsys s) ls {..<i} (fsys s1)"
    by (rule mach_take [OF ok b g u80]) blast
  define m1 where "m1 = store32 (mem_of s1) (ls + of_nat (4 * i)) p"
  have ni: "i \<notin> {..<i}" by simp
  note R = bench_array [OF T(4-6) i ni, folded m1_def]
  have ins: "insert i {..<i} = {..<Suc i}" by auto
  define m2 where "m2 = m1(p := 0)"
  have lp: "line_ptr m1 ls i = p" by (rule R(3))
  have pu: "p \<in> line_set m1 ls i" unfolding lp using has_block_bounds(2) [OF T(5)] by simp
  have w2: "agree_on (- (\<Union>j\<in>{..<Suc i}. line_set (fs_ram (set_ram m1 (fsys s1))) ls j)) (fs_ram (set_ram m1 (fsys s1))) m2"
    unfolding m2_def set_ram_set_ram(3) by (rule agree_on_upd [OF _ agree_on_refl]) (use pu in auto)
  note L = bench_lines [OF R(1) [unfolded ins] w2, unfolded set_ram_set_ram]
  have "shell_step s1 (put_mem m2 s1)"
    using frame_step [OF shell_step_refl [OF shell_step_ok [OF T(3)]] benchD(1) [OF L(1)] fs_frame_trans [OF R(2) L(3)]]
    by (simp add: put_mem_def)
  note st = shell_step_trans [OF T(3) this]
  have "m2 (line_ptr m2 ls j) = 0" if j: "j < Suc i" for j
  proof (cases "j = i")
    case True
    then show ?thesis using L(4) [OF i] lp by (simp add: m2_def)
  next
    case False
    then have ji: "j \<in> {..<i}" using j by simp
    have jl: "j < 100" using j i by simp
    have p2: "line_ptr m2 ls j = line_ptr (mem_of s) ls j"
      using L(4) [OF jl] R(4) [OF ji] desk_keeps(2) [OF B(2) T(7) jl] by simp
    have bk: "block_kept (mm (fsys s)) (mm (fsys s1)) (line_ptr (mem_of s) ls j)"
      using T(7) ji by (auto simp: keeps_def blocks_of_def)
    have mem: "line_ptr (mem_of s) ls j \<in> line_set (mem_of s) ls j" using has_block_bounds(2) [OF D(3) [OF ji]] by simp
    have "mem_of s (line_ptr (mem_of s) ls j) = mem_of s1 (line_ptr (mem_of s) ls j)"
      using block_read [OF D(3) [OF ji] bk] mem unfolding agree_on_def by blast
    then have "mem_of s1 (line_ptr (mem_of s) ls j) = 0" using z ji by simp
    moreover have "line_ptr (mem_of s) ls j \<notin> range_of (unat ls) 400"
      using has_block_disjoint [OF D(3) [OF ji] D(2) D(4) [OF ji]] mem by blast
    ultimately have "m1 (line_ptr (mem_of s) ls j) = 0" using R(5) by (simp add: agree_on_def)
    then show ?thesis unfolding p2 by (simp add: m2_def)
  qed
  then show thesis
    using T(1,2) lp st L(1) by (intro that [of p s1 m2]) (simp_all add: m2_def m1_def put_mem_def)
qed

lemma nano_alloc_spec:
  assumes "shell_ok s" "bench fs0 (fsys s) ls {..<i} {} A (n * malloc_total 80 + g)" "28 \<le> g" "i + n \<le> 100"
    and "\<forall>j<i. mem_of s (line_ptr (mem_of s) ls j) = 0"
  shows "\<exists>s'. nano_alloc ls i n s = Some s' \<and> shell_step s s' \<and> bench fs0 (fsys s') ls {..<i + n} {} A g
    \<and> (\<forall>j<i + n. mem_of s' (line_ptr (mem_of s') ls j) = 0)"
  using assms
proof (induction n arbitrary: i s)
  case 0
  then show ?case using shell_step_refl by simp
next
  case (Suc n)
  have b: "bench fs0 (fsys s) ls {..<i} {} A (malloc_total 80 + (n * malloc_total 80 + g))"
    using Suc.prems(2) by (simp add: algebra_simps)
  have g: "28 \<le> n * malloc_total 80 + g" "i < 100" using Suc.prems(3,4) by simp_all
  obtain p s1 m2 where a: "mach_malloc NANO_LINE_LEN s = Some (p, s1)"
    "m2 = (store32 (mem_of s1) (ls + of_nat (4 * i)) p)(p := 0)"
    "line_at (store32 (mem_of s1) (ls + of_nat (4 * i)) p) ls (int i) = p" "p \<noteq> NULL"
    "shell_step s (put_mem m2 s1)" "bench fs0 (fsys (put_mem m2 s1)) ls {..<Suc i} {} A (n * malloc_total 80 + g)"
    "\<forall>j<Suc i. m2 (line_ptr m2 ls j) = 0"
    by (rule alloc_line [OF Suc.prems(1) b g Suc.prems(5)]) blast
  have "nano_alloc ls i (Suc n) s = nano_alloc ls (Suc i) n (put_mem m2 s1)"
    using a(1-4) by (simp add: Let_def del: fun_upd_apply)
  moreover have "Suc i + n \<le> 100" "\<forall>j<Suc i. mem_of (put_mem m2 s1) (line_ptr (mem_of (put_mem m2 s1)) ls j) = 0"
    using Suc.prems(4) a(7) by simp_all
  note Suc.IH [OF shell_step_ok [OF a(5)] a(6) Suc.prems(3) this]
  ultimately show ?case using shell_step_trans [OF a(5)] by auto
qed

section \<open>The lines of the file\<close>

text \<open>What the editor shows of a file: its bytes up to the first NUL, as lines; an empty text is one line.\<close>

definition file_lines :: "u8 list \<Rightarrow> u8 list list" where
  "file_lines bs = (let us = to_lines 100 (takeWhile (\<lambda>c. c \<noteq> 0) bs) in if us = [] then [[]] else us)"

definition stored_in :: "u8 list \<Rightarrow> afs \<Rightarrow> u8 list \<Rightarrow> bool" where
  "stored_in name A bs \<longleftrightarrow> (case find_slot name (slots A) of None \<Rightarrow> bs = []
     | Some i \<Rightarrow> \<exists>e. slots A ! i = Some e \<and> econt e = Stored bs)"

definition LOAD_ROOM :: nat where "LOAD_ROOM = 65600"

lemma filled_lines:
  assumes "lines_hold m ls (text_map (filled (to_lines 100 (takeWhile (\<lambda>c. c \<noteq> 0) bs))))"
  shows "lines_hold m ls (text_map (file_lines bs))"
proof (rule lines_hold_cong [OF assms])
  fix i t assume "text_map (file_lines bs) i = Some t"
  then show "text_map (filled (to_lines 100 (takeWhile (\<lambda>c. c \<noteq> 0) bs))) i = Some t"
    by (auto simp: file_lines_def filled_def text_map_def Let_def nth_append split: if_splits)
qed

lemma blank_lines:
  assumes "desk st ls {..<100}" "\<forall>j<100. fs_ram st (line_ptr (fs_ram st) ls j) = 0"
  shows "lines_hold (fs_ram st) ls (text_map (filled []))"
  using desk_lines_ok [OF assms(1)] assms(2)
  by (auto simp: lines_hold_def text_map_def filled_def split: if_splits)

text \<open>The contents of the file in a block of the editor, and the NUL behind them.\<close>

lemma read_block:
  assumes b: "bench fs0 fs ls {..<100} (insert p X) A g" and i: "i < FS_MAX_FILES"
    and e: "slots A ! i = Some e" "econt e = Stored bs"
    and p: "has_block fs p (Suc (length bs))" "p \<notin> blocks_of (fs_ram fs) ls {..<100}"
  obtains m where "snd (fs_read (slot (file_table fs) i) p (of_nat (length bs)) 0 fs) = set_ram m fs"
    "agree_on (- range_of (unat p) (Suc (length bs))) (fs_ram fs) (m(p + of_nat (length bs) := 0))"
    "cstr (m(p + of_nat (length bs) := 0)) (Ptr p) (takeWhile (\<lambda>c. c \<noteq> 0) bs)"
proof -
  note B = benchD [OF b] and pb = has_block_bounds [OF p(1)]
  let ?n = "length bs"
  from p(1) obtain k where k: "Suc ?n \<le> k" "owns (mm fs) p k" "not_data fs p" by (auto simp: has_block_def)
  have "content_rep (mm fs) (f_data (fs_ram fs) (slot (file_table fs) i)) (f_size (fs_ram fs) (slot (file_table fs) i)) (econt e)"
    using fs_repD(4) [OF B(1) i] e(1) by (simp add: entry_rep_def)
  from content_size [OF this] e(2) have sz: "f_size (fs_ram fs) (slot (file_table fs) i) = of_nat ?n" by simp
  have c: "csize (econt e) \<le> k" using k(1) e(2) by simp
  obtain m where m: "snd (fs_read (slot (file_table fs) i) p (of_nat ?n) 0 fs) = set_ram m fs"
    "agree_on (- range_of (unat p) (csize (econt e))) (fs_ram fs) m"
    "\<And>bs. econt e = Stored bs \<Longrightarrow> bytes_at m p (length bs) = bs"
    by (rule read_whole [OF B(1) i e(1) k(2,3) c, unfolded sz]) blast
  let ?m = "m(p + of_nat ?n := 0)"
  have up: "unat (p + of_nat ?n) = unat p + ?n" using pb(2) by (intro unat_offset) simp
  have "agree_on (- range_of (unat p) (Suc ?n)) (fs_ram fs) m" using e(2) by (intro agree_on_mono [OF m(2)]) auto
  then have w: "agree_on (- range_of (unat p) (Suc ?n)) (fs_ram fs) ?m" by (rule agree_on_upd [rotated]) (use up in simp)
  have "bytes_at m p ?n = bytes_at ?m p ?n"
    using pb(2) up by (intro bytes_at_cong agree_on_upd agree_on_refl) simp_all
  with m(3) [OF e(2)] have "bytes_at ?m p ?n = bs" by simp
  from cstr_upto [OF this] have "cstr ?m (Ptr p) (takeWhile (\<lambda>c. c \<noteq> 0) bs)" by simp
  with m(1) w show thesis by (rule that)
qed

text \<open>An empty or missing file.\<close>

lemma load_nothing:
  assumes rep: "fs_rep (fsys s) A" and n: "cstr (mem_of s) (Ptr fn) name" and st: "stored_in name A []"
  shows "nano_load fn ls s = Some (1, s)"
proof (cases "find_slot name (slots A)")
  case None
  then show ?thesis using fs_open_eq [OF rep n] by (simp add: nano_load_def)
next
  case (Some i)
  note i = find_slot_lt [OF rep Some]
  from st Some obtain e where e: "slots A ! i = Some e" "econt e = Stored []" by (auto simp: stored_in_def)
  have "content_rep (mm (fsys s)) (f_data (mem_of s) (slot (file_table (fsys s)) i))
      (f_size (mem_of s) (slot (file_table (fsys s)) i)) (econt e)"
    using fs_repD(4) [OF rep i] e(1) by (simp add: entry_rep_def)
  from content_size [OF this] e(2) have "fs_get_size (slot (file_table (fsys s)) i) (fsys s) = 0"
    by (simp add: fs_get_size_def)
  then show ?thesis using fs_open_eq [OF rep n] Some by (simp add: nano_load_def)
qed

text \<open>The block with the contents is cut into the lines.\<close>

lemma split_block_text:
  assumes ok: "shell_ok s" and b: "bench fs0 (fsys s) ls {..<100} X A g" and h: "lines_hold (mem_of s) ls (text_map (filled []))"
    and p: "has_block (fsys s) p n" "p \<notin> blocks_of (mem_of s) ls {..<100}"
    and t: "cstr (mem_of s) (Ptr p) t" "Suc (length t) \<le> n"
  obtains m where "nano_split ls (mem_of s) p 0 = Some (m, int (length (to_lines 100 t)))"
    "lines_hold m ls (text_map (filled (to_lines 100 t)))" "lines_step (mem_of s) ls m"
proof -
  note D = deskD [OF benchD(2) [OF b], unfolded lessThan_iff]
  have "range_of (unat p) n \<inter> line_set (mem_of s) ls j = {}" if "j < 100" for j
    using has_block_disjoint [OF p(1) D(3) [OF that]] p(2) that by (auto simp: blocks_of_def)
  moreover have "range_of (unat p) (Suc (length t)) \<subseteq> range_of (unat p) n" using t(2) by auto
  ultimately have dis: "range_of (unat p) (Suc (length t)) \<inter> all_lines (mem_of s) ls = {}" by (auto simp: all_lines_def)
  have pb: "unat p + Suc (length t) \<le> 2 ^ 32" using has_block_bounds(2) [OF p(1)] t(2) by linarith
  show thesis using nano_split_spec [OF h _ t(1) pb dis] that by auto
qed

lemma nano_load_spec:
  assumes ok: "shell_ok s" and b: "bench fs0 (fsys s) ls {..<100} {} A (LOAD_ROOM + g)" and g: "28 \<le> g"
    and n: "cstr (mem_of s) (Ptr fn) name" and st: "stored_in name A bs"
    and z: "\<forall>j<100. mem_of s (line_ptr (mem_of s) ls j) = 0"
  shows "\<exists>s'. nano_load fn ls s = Some (int (length (file_lines bs)), s') \<and> shell_step s s'
    \<and> bench fs0 (fsys s') ls {..<100} {} A g \<and> lines_hold (mem_of s') ls (text_map (file_lines bs))"
proof (cases "bs = []")
  case True
  have "file_lines bs = [[]]" using True by (simp add: file_lines_def)
  moreover have "lines_hold (mem_of s) ls (text_map (file_lines bs))"
    by (rule filled_lines) (use blank_lines [OF benchD(2) [OF b] z] True in simp)
  moreover have "bench fs0 (fsys s) ls {..<100} {} A g" by (rule bench_less [OF b]) simp
  ultimately show ?thesis using load_nothing [OF benchD(1) [OF b] n] st True shell_step_refl [OF ok] by simp
next
  case ne: False
  note B = benchD [OF b]
  have h0: "lines_hold (mem_of s) ls (text_map (filled []))" by (rule blank_lines [OF B(2) z])
  obtain i e where F: "find_slot name (slots A) = Some i" "slots A ! i = Some e" "econt e = Stored bs"
    using st ne by (auto simp: stored_in_def split: option.splits)
  note i = find_slot_lt [OF B(1) F(1)]
  let ?f = "slot (file_table (fsys s)) i" and ?n = "length bs" and ?t = "takeWhile (\<lambda>c. c \<noteq> 0) bs"
  let ?sz = "of_nat ?n :: u32"
  have f: "fs_open (Ptr fn) (fsys s) = Some ?f" "?f \<noteq> NULL"
    using fs_open_eq [OF B(1) n] F(1) slot_props(1) [OF B(6) i] by simp_all
  have "content_rep (mm (fsys s)) (f_data (mem_of s) ?f) (f_size (mem_of s) ?f) (econt e)"
    using fs_repD(4) [OF B(1) i] F(2) by (simp add: entry_rep_def)
  from content_size [OF this] F(3) have c: "f_size (mem_of s) ?f = ?sz" "unat ?sz = ?n" "?n \<le> 65536"
    by (simp_all add: FS_MAX_FILESIZE_def)
  have sz: "fs_get_size ?f (fsys s) = ?sz" "0 < ?sz" using c ne f(2) by (auto simp: fs_get_size_def word_less_nat_alt)
  have u: "unat (?sz + 1) = Suc ?n" "0 < Suc ?n" "Suc ?n \<le> 0xFFFFFFF0" using c by (simp_all add: unat_plus_no_wrap)
  have "malloc_total (Suc ?n) + g \<le> LOAD_ROOM + g" using c(3) by (simp add: malloc_total_def LOAD_ROOM_def)
  note b0 = bench_less [OF b this]
  obtain p s1 where T: "mach_malloc (?sz + 1) s = Some (p, s1)" "p \<noteq> NULL" "shell_step s s1"
    "bench fs0 (fsys s1) ls {..<100} {p} A g" "has_block (fsys s1) p (Suc ?n)" "p \<notin> blocks_of (mem_of s1) ls {..<100}"
    "keeps (fsys s) ls {..<100} (fsys s1)"
    by (rule mach_take [OF ok b0 g u]) blast
  have tab: "file_table (fsys s1) = file_table (fsys s)" using T(3) by (simp add: shell_step_def)
  obtain m where m: "snd (fs_read ?f p ?sz 0 (fsys s1)) = set_ram m (fsys s1)"
    "agree_on (- range_of (unat p) (Suc ?n)) (mem_of s1) (m(p + ?sz := 0))" "cstr (m(p + ?sz := 0)) (Ptr p) ?t"
    by (rule read_block [OF T(4) i F(2,3) T(5,6), unfolded tab]) blast
  define s2 where "s2 = put_mem (m(p + ?sz := 0)) s1"
  note R = mach_region [OF shell_step_ok [OF T(3)] T(4-6) m(2), folded s2_def]
  have m2: "mem_of s2 = m(p + ?sz := 0)" by (simp add: s2_def)
  have h2: "lines_hold (mem_of s2) ls (text_map (filled []))"
    by (rule lines_keeps [OF benchD(2) [OF T(4)] R(3) lines_keeps [OF B(2) T(7) h0]])
  have t: "Suc (length ?t) \<le> Suc ?n" by (simp add: length_takeWhile_le)
  obtain m3 where S: "nano_split ls (mem_of s2) p 0 = Some (m3, int (length (to_lines 100 ?t)))"
    "lines_hold m3 ls (text_map (filled (to_lines 100 ?t)))" "lines_step (mem_of s2) ls m3"
    by (rule split_block_text [OF shell_step_ok [OF R(1)] R(2) h2 R(4) R(5) [folded m2] m(3) [folded m2] t]) blast
  note L = mach_lines [OF shell_step_ok [OF R(1)] R(2) S(3)]
  have p3: "p \<notin> blocks_of (mem_of (put_mem m3 s2)) ls {..<100}" using L(4) R(5) by (simp add: m2)
  obtain s4 where K: "mach_free p (put_mem m3 s2) = Some s4" "shell_step (put_mem m3 s2) s4"
    "bench fs0 (fsys s4) ls {..<100} {} A g" "keeps (fsys (put_mem m3 s2)) ls {..<100} (fsys s4)"
    by (rule mach_drop [OF shell_step_ok [OF L(1)] L(2) L(3) [OF R(4)] p3]) blast
  have "lines_hold (mem_of s4) ls (text_map (file_lines bs))"
    by (rule filled_lines) (use lines_keeps [OF benchD(2) [OF L(2)] K(4)] S(2) in simp)
  moreover have "nano_load fn ls s = Some (int (length (file_lines bs)), s4)"
  proof -
    have "put_mem m3 s2 = put_mem m3 (s1\<lparr>fsys := set_ram m (fsys s1)\<rparr>)" by (simp add: s2_def put_mem_def)
    moreover have "(if int (length (to_lines 100 ?t)) = 0 then 1 else int (length (to_lines 100 ?t))) = int (length (file_lines bs))"
      by (simp add: file_lines_def Let_def)
    ultimately show ?thesis
      using f sz T(1,2) m(1) S(1) K(1) by (simp add: nano_load_def m2)
  qed
  ultimately show ?thesis
    using shell_step_trans [OF T(3) shell_step_trans [OF R(1) shell_step_trans [OF L(1) K(2)]]] K(3) by blast
qed

end
