(* ===== verification/Nano_Command.thy ===== *)
theory Nano_Command
  imports Nano_Load Shell_Props
begin

text \<open>
  The command \<^verbatim>\<open>nano\<close> from the prompt to the prompt: the line read and parsed, the file made when it is
  missing, the blocks, the lines, the keys up to Ctrl-X, and every block given back.
\<close>

section \<open>Giving the blocks back\<close>

lemma nano_free_spec:
  assumes "shell_ok s" "bench fs0 (fsys s) ls {i..<i + n} X A g" "i + n \<le> 100"
  shows "\<exists>s'. nano_free ls i n s = Some s' \<and> shell_step s s' \<and> bench fs0 (fsys s') ls {} X A g"
  using assms
proof (induction n arbitrary: i s)
  case 0
  then show ?case using shell_step_refl by simp
next
  case (Suc n)
  have I: "{i..<i + Suc n} = insert i {Suc i..<Suc i + n}" "i \<notin> {Suc i..<Suc i + n}" by auto
  let ?p = "line_ptr (mem_of s) ls i"
  note L = bench_line [OF Suc.prems(2) [unfolded I(1)] I(2)]
  obtain s1 where F: "mach_free ?p s = Some s1" "shell_step s s1" "bench fs0 (fsys s1) ls {Suc i..<Suc i + n} X A g"
    by (rule mach_drop [OF Suc.prems(1) L]) blast
  have "nano_free ls i (Suc n) s = nano_free ls (Suc i) n s1" using F(1) has_block_bounds(1) [OF L(2)] by simp
  moreover have "Suc i + n \<le> 100" using Suc.prems(3) by simp
  note Suc.IH [OF shell_step_ok [OF F(2)] F(3) this]
  ultimately show ?case using shell_step_trans [OF F(2)] by auto
qed

text \<open>The array itself.\<close>

lemma free_array:
  assumes ok: "shell_ok s" and b: "bench fs0 (fsys s) ls {} {} A g"
  obtains s' where "mach_free ls s = Some s'" "shell_step s s'" "fs_rep (fsys s') A" "gap (mm (fsys s')) g"
    "\<And>q k. owns (mm (fsys s')) q k \<Longrightarrow> owns (mm fs0) q k \<or> \<not> not_data (fsys s') q"
proof -
  note B = benchD [OF b]
  from deskD(2) [OF B(2)] obtain k where k: "owns (mm (fsys s)) ls k" "not_data (fsys s) ls" by (auto simp: has_block_def)
  obtain h where h: "kfree ls (mm (fsys s)) = Some h" "fs_rep ((fsys s)\<lparr>mm := h\<rparr>) A" "agree_on (- arena) (mem_of s) (ram h)"
    "\<And>q k. owns h q k \<longleftrightarrow> owns (mm (fsys s)) q k \<and> q \<noteq> ls"
    by (rule give_back [OF B(1) k]) blast
  let ?s = "s\<lparr>fsys := (fsys s)\<lparr>mm := h\<rparr>\<rparr>"
  note nd = not_data_heap [OF B(6) h(3)]
  have "shell_step s ?s" by (rule frame_step [OF shell_step_refl [OF ok] h(2) frame_arena [OF h(3)]])
  moreover have "gap h g" by (rule roomy.room_free [OF B(5) k(1) h(1) B(3)])
  moreover have "owns (mm fs0) q k \<or> \<not> not_data (fsys ?s) q" if "owns h q k" for q k
    using that h(4) B(7) [of q k] nd [of q] by (auto simp: blocks_of_def)
  ultimately show thesis using h(1,2) by (intro that [of ?s]) (simp_all add: mach_free_def del: not_all)
qed

section \<open>The file and the array\<close>

lemma nano_opens:
  assumes ok: "shell_ok st" and fn: "arg_ok (mem_of st) (unat (command_buffer st)) 255 fn name" and rep: "fs_rep (fsys st) A"
  obtains s where "(do { exists \<leftarrow> fs_exists (Ptr fn) (fsys st);
      if \<not> exists then do { (r, st') \<leftarrow> mach_fs (fs_create (Ptr fn)) st; Some st' } else Some st }) = Some s"
    "shell_step st s" "fs_rep (fsys s) (snd (a_add False name A))" "fs_frame (fsys st) (fsys s)"
    "\<And>q k. owns (mm (fsys s)) q k \<longleftrightarrow> owns (mm (fsys st)) q k"
proof -
  note na = arg_name [OF ok fn]
  note fi = fs_find_eq [OF rep name_argD(2) [OF na]]
  show thesis
  proof (cases "find_slot name (slots A)")
    case None
    from fs_create_refines [OF rep na] obtain fs1 where c: "fs_create (Ptr fn) (fsys st) = Some (fst (a_add False name A), fs1)"
      "fs_rep fs1 (snd (a_add False name A))" "\<And>q k. owns (mm fs1) q k \<longleftrightarrow> owns (mm (fsys st)) q k" by blast
    have fr: "fs_frame (fsys st) fs1"
      using fs_add_frame [OF rep na, of False] c(1) by (simp add: fs_create_def flags_of_def)
    from frame_step [OF shell_step_refl [OF ok] c(2) fr] have "shell_step st (st\<lparr>fsys := fs1\<rparr>)" .
    with None fi c fr show thesis by (intro that [of "st\<lparr>fsys := fs1\<rparr>"]) (simp_all add: fs_exists_def mach_fs_def)
  next
    case (Some i)
    then have "snd (a_add False name A) = A" by (simp add: a_add_def)
    with Some fi rep shell_step_refl [OF ok] fs_frame_refl show thesis by (intro that [of st]) (simp_all add: fs_exists_def)
  qed
qed

lemma first_bench:
  assumes st: "shell_step st s" and rep: "fs_rep (fsys s) A" and fr: "fs_frame (fsys st) (fsys s)"
    and o: "\<And>q k. owns (mm (fsys s)) q k \<longleftrightarrow> owns (mm (fsys st)) q k"
    and g: "gap (mm (fsys st)) (malloc_total 400 + g)" "28 \<le> g"
  obtains ls s1 where "mach_malloc (of_nat NANO_MAX_LINES * 4) s = Some (ls, s1)" "ls \<noteq> NULL" "shell_step st s1"
    "bench (fsys st) (fsys s1) ls {} {} A g"
proof -
  have u: "unat (400 :: u32) = 400" "of_nat NANO_MAX_LINES * 4 = (400 :: u32)" by (simp_all add: NANO_MAX_LINES_def)
  have "gap (mm (fsys s)) (malloc_total 400 + g)" by (rule gap_kept [OF g(1)]) (simp add: o)
  then have g': "gap (mm (fsys s)) (malloc_total (unat (400 :: u32)) + g)" by simp
  have sz: "0 < unat (400 :: u32)" "unat (400 :: u32) \<le> 0xFFFFFFF0" by simp_all
  obtain p h where T: "kmalloc 400 (mm (fsys s)) = Some (p, h)" "fs_rep ((fsys s)\<lparr>mm := h\<rparr>) A" "gap h g"
    "agree_on (- arena) (mem_of s) (ram h)" "has_block ((fsys s)\<lparr>mm := h\<rparr>) p 400"
    "\<And>q k. owns h q k \<Longrightarrow> owns (mm (fsys s)) q k \<or> q = p"
    by (rule take_block [OF rep g' g(2) sz, unfolded u(1)]) blast
  let ?s = "s\<lparr>fsys := (fsys s)\<lparr>mm := h\<rparr>\<rparr>"
  have f: "fs_frame (fsys s) (fsys ?s)" using frame_arena [OF T(4)] by simp
  have "shell_step st ?s" using frame_step [OF st T(2)] f by simp
  moreover have "bench (fsys st) (fsys ?s) p {} {} A g"
    unfolding bench_def using T(2,3,5,6) fs_frame_trans [OF fr f] o by (auto simp: desk_def blocks_of_def)
  ultimately show thesis
    using T(1) has_block_bounds(1) [OF T(5)] u(2) by (intro that [of p ?s]) (simp_all add: mach_malloc_def)
qed

section \<open>The session\<close>

definition EDIT_ROOM :: nat where "EDIT_ROOM = 75300"

lemma cmd_nano_runs:
  assumes ok: "shell_ok st" and argc: "2 \<le> length argv"
    and fn: "arg_ok (mem_of st) (unat (command_buffer st)) 255 (argv ! 1) name"
    and rep: "fs_rep (fsys st) A" and bs: "stored_in name (snd (a_add False name A)) bs"
    and room: "gap (mm (fsys st)) (EDIT_ROOM + count_list ks 19 * SAVE_ROOM)"
    and keys: "queue st = ks @ 24 # rest" "24 \<notin> set ks" "joins_ok ks (file_lines bs, 0, 0)"
  shows "\<exists>st'. cmd_nano argv st = Some st' \<and> shell_ok st' \<and> same_drivers st st' \<and> queue st' = rest
    \<and> fs_rep (fsys st') (snd (nano_keys name ks (file_lines bs, 0, 0) (snd (a_add False name A))))
    \<and> (\<forall>q k. owns (mm (fsys st')) q k \<longrightarrow> owns (mm (fsys st)) q k \<or> \<not> not_data (fsys st') q)"
proof -
  let ?fn = "argv ! 1" and ?A = "snd (a_add False name A)" and ?t = "(file_lines bs, 0, 0) :: text_state"
  let ?k = "count_list ks 19 * SAVE_ROOM + 28"
  obtain s1 where O: "(do { exists \<leftarrow> fs_exists (Ptr ?fn) (fsys st);
      if \<not> exists then do { (r, st') \<leftarrow> mach_fs (fs_create (Ptr ?fn)) st; Some st' } else Some st }) = Some s1"
    "shell_step st s1" "fs_rep (fsys s1) ?A" "fs_frame (fsys st) (fsys s1)"
    "\<And>q k. owns (mm (fsys s1)) q k \<longleftrightarrow> owns (mm (fsys st)) q k"
    by (rule nano_opens [OF ok fn rep]) blast
  have g0: "gap (mm (fsys st)) (malloc_total 400 + (100 * malloc_total 80 + (LOAD_ROOM + ?k)))"
    by (rule gap_mono [OF room]) (simp add: EDIT_ROOM_def LOAD_ROOM_def malloc_total_def)
  obtain ls s2 where F: "mach_malloc (of_nat NANO_MAX_LINES * 4) s1 = Some (ls, s2)" "ls \<noteq> NULL" "shell_step st s2"
    "bench (fsys st) (fsys s2) ls {} {} ?A (100 * malloc_total 80 + (LOAD_ROOM + ?k))"
    by (rule first_bench [OF O(2-5) g0]) simp
  have b2: "bench (fsys st) (fsys s2) ls {..<0} {} ?A (100 * malloc_total 80 + (LOAD_ROOM + ?k))" using F(4) by simp
  obtain s3 where M: "nano_alloc ls 0 100 s2 = Some s3" "shell_step s2 s3"
    "bench (fsys st) (fsys s3) ls {..<100} {} ?A (LOAD_ROOM + ?k)" "\<forall>j<100. mem_of s3 (line_ptr (mem_of s3) ls j) = 0"
    using nano_alloc_spec [OF shell_step_ok [OF F(3)] b2] by auto
  have e3: "edit_step st s3" using shell_step_trans [OF F(3) M(2)] by (simp add: shell_step_edit)
  obtain s4 where L: "nano_load ?fn ls s3 = Some (int (length (file_lines bs)), s4)" "shell_step s3 s4"
    "bench (fsys st) (fsys s4) ls {..<100} {} ?A ?k" "lines_hold (mem_of s4) ls (text_map (file_lines bs))"
    using nano_load_spec [OF shell_step_ok [OF M(2)] M(3) _ arg_stays(1) [OF ok e3 fn] bs M(4)] by auto
  let ?e = "\<lparr>nlines = ls, num_lines = int (length (file_lines bs)), cur_line = 0, cur_col = 0, modified = False\<rparr>"
  have st4: "shell_step st s4" by (rule shell_step_trans [OF shell_step_trans [OF F(3) M(2)] L(2)])
  have len: "length (file_lines bs) \<le> 100" "0 < length (file_lines bs)"
    using to_lines_length [of 100 "takeWhile (\<lambda>c. c \<noteq> 0) bs"] by (simp_all add: file_lines_def Let_def)
  have E: "editing st s4 ?e ?t ?A ?k" unfolding editing_def using L(3,4) st4 len by (simp add: shell_step_edit)
  have q4: "queue s4 = ks @ 24 # rest" using st4 keys(1) by (simp add: shell_step_def)
  obtain e5 s5 where N: "nano_loop ?fn ?e s4 = Some (e5, s5)"
    "editing st s5 e5 (fst (nano_keys name ks ?t ?A)) (snd (nano_keys name ks ?t ?A)) 28" "queue s5 = rest" "nlines e5 = ls"
    using nano_loop_spec [OF E _ ok fn q4 keys(2,3)] by auto
  let ?A' = "snd (nano_keys name ks ?t ?A)"
  have e5: "edit_step st s5" and b5: "bench (fsys st) (fsys s5) ls {0..<0 + 100} {} ?A' 28"
    using N(2,4) by (simp_all add: editing_def lessThan_atLeast0)
  have "shell_ok s5" using e5 by (simp add: edit_step_def)
  from nano_free_spec [OF this b5] obtain s6 where R: "nano_free ls 0 100 s5 = Some s6" "shell_step s5 s6"
    "bench (fsys st) (fsys s6) ls {} {} ?A' 28" by auto
  obtain s7 where W: "mach_free ls s6 = Some s7" "shell_step s6 s7" "fs_rep (fsys s7) ?A'"
    "\<And>q k. owns (mm (fsys s7)) q k \<Longrightarrow> owns (mm (fsys st)) q k \<or> \<not> not_data (fsys s7) q"
    by (rule free_array [OF shell_step_ok [OF R(2)] R(3)]) blast
  let ?s = "vga_set_color WHITE BLACK (vga_clear s7)"
  have cs: "console_step s7 ?s" by (intro prints console_step_refl)
  have s57: "shell_step s5 ?s" by (rule shell_step_console [OF shell_step_trans [OF R(2) W(2)] cs])
  then have es: "edit_step st ?s" "queue ?s = rest" using edit_step_trans [OF e5] N(3) by (simp_all add: shell_step_edit)
  from O(1) obtain x where O': "fs_exists (Ptr ?fn) (fsys st) = Some x"
    "(if \<not> x then do { (r, st') \<leftarrow> mach_fs (fs_create (Ptr ?fn)) st; Some st' } else Some st) = Some s1"
    by (auto simp: bind_eq_Some_conv)
  have nl: "NANO_MAX_LINES = 100" by (simp add: NANO_MAX_LINES_def)
  have "cmd_nano argv st = Some ?s"
    unfolding cmd_nano_def Let_def O'(1) bind.bind_lunit O'(2) F(1) case_prod_conv
    using argc F(2) M(1) L(1) N(1) R(1) W(1) by (simp add: nl)
  with es W(3,4) console_step_machine(1) [OF cs] show ?thesis by (simp add: edit_step_def del: not_all)
qed

section \<open>From the prompt\<close>

text \<open>The arguments of a line, after parsing.\<close>

lemma nano_line:
  assumes ok: "shell_ok st" and s: "cstr (mem_of st) (Ptr (command_buffer st)) s" "length s \<le> 255"
    and w: "words s = bytes ''nano'' # name # ws"
  obtains argv m where "execute_command (command_buffer st) st = map_option Running (cmd_nano argv (put_mem m st))"
    "shell_ok (put_mem m st)" "2 \<le> length argv" "agree_on (- cmd_set st) (mem_of st) m"
    "arg_ok (mem_of (put_mem m st)) (unat (command_buffer (put_mem m st))) 255 (argv ! 1) name"
proof -
  from execute_eq [OF ok s] obtain argv m where e: "list_all2 (\<lambda>a w. cstr m (Ptr a) w) argv (take 16 (words s))"
    "agree_on (- cmd_set st) (mem_of st) m" "shell_ok (put_mem m st)" "args_ok (put_mem m st) argv"
    "execute_command (command_buffer st) st =
      (case words s of [] \<Rightarrow> Some (Running (put_mem m st))
       | w # ws \<Rightarrow> (case command_of w of Some c \<Rightarrow> run_cmd c argv (put_mem m st)
                    | None \<Rightarrow> Some (Running (unknown w (put_mem m st)))))" by blast
  have t: "take 16 (words s) = bytes ''nano'' # name # take 14 ws" by (simp add: w)
  from e(1) have n: "2 \<le> length argv" "cstr m (Ptr (argv ! 1)) name"
    unfolding t by (auto simp: list_all2_Cons2 simp del: bytes_Cons)
  then have "argv ! 1 \<in> set argv" by simp
  with e(4) obtain u where u: "arg_ok m (unat (command_buffer (put_mem m st))) 255 (argv ! 1) u" by (auto simp: args_ok_def)
  then have "u = name" using cstr_unique [OF _ n(2)] by (simp add: arg_ok_def)
  moreover have "command_of (bytes ''nano'') = Some Cmd_nano" by (simp add: command_of_def commands_def)
  ultimately show thesis using e(2,3,5) n(1) u by (intro that [of argv m]) (simp_all add: w del: bytes_Cons)
qed

lemma nano_round:
  assumes ok: "shell_ok st" and l: "line_read 255 [] (queue st) = Some (line, echo, ks @ 24 # rest)"
    and w: "words (takeWhile (\<lambda>c. c \<noteq> 0) line) = bytes ''nano'' # name # ws"
    and rep: "fs_rep (fsys st) A" and bs: "stored_in name (snd (a_add False name A)) bs"
    and room: "gap (mm (fsys st)) (EDIT_ROOM + count_list ks 19 * SAVE_ROOM)"
    and keys: "24 \<notin> set ks" "joins_ok ks (file_lines bs, 0, 0)"
  shows "\<exists>st'. shell_round st = Some (Running st') \<and> shell_ok st' \<and> same_drivers st st' \<and> queue st' = rest
    \<and> fs_rep (fsys st') (snd (nano_keys name ks (file_lines bs, 0, 0) (snd (a_add False name A))))
    \<and> (\<forall>q k. owns (mm (fsys st')) q k \<longrightarrow> owns (mm (fsys st)) q k \<or> \<not> not_data (fsys st') q)"
proof -
  obtain s where s: "shell_round st = execute_command (command_buffer s) s" "shell_ok s" "same_drivers st s"
    "queue s = ks @ 24 # rest" "cstr (mem_of s) (Ptr (command_buffer s)) (takeWhile (\<lambda>c. c \<noteq> 0) line)"
    "length (takeWhile (\<lambda>c. c \<noteq> 0) line) \<le> 255"
    "\<And>A. fs_rep (fsys st) A \<Longrightarrow> fs_rep (fsys s) A \<and> (\<forall>q k. owns (mm (fsys s)) q k \<longleftrightarrow> owns (mm (fsys st)) q k)"
    by (rule shell_round_reads [OF ok l]) blast
  obtain argv m where e: "execute_command (command_buffer s) s = map_option Running (cmd_nano argv (put_mem m s))"
    "shell_ok (put_mem m s)" "2 \<le> length argv" "agree_on (- cmd_set s) (mem_of s) m"
    "arg_ok (mem_of (put_mem m s)) (unat (command_buffer (put_mem m s))) 255 (argv ! 1) name"
    by (rule nano_line [OF s(2,5,6) w]) blast
  note f = s(7) [OF rep]
  note lw = line_write_fs [OF s(2) e(4) conjunct1 [OF f]]
  have o: "owns (mm (fsys (put_mem m s))) q k \<longleftrightarrow> owns (mm (fsys st)) q k" for q k using lw(2) f by simp
  have rep2: "fs_rep (fsys (put_mem m s)) A" using lw(1) by simp
  have g: "gap (mm (fsys (put_mem m s))) (EDIT_ROOM + count_list ks 19 * SAVE_ROOM)" by (rule gap_kept [OF room]) (simp only: o)
  have q: "queue (put_mem m s) = ks @ 24 # rest" using s(4) by simp
  from cmd_nano_runs [OF e(2,3,5) rep2 bs g q keys] obtain st' where "cmd_nano argv (put_mem m s) = Some st'" "shell_ok st'"
    "same_drivers (put_mem m s) st'" "queue st' = rest"
    "fs_rep (fsys st') (snd (nano_keys name ks (file_lines bs, 0, 0) (snd (a_add False name A))))"
    "\<forall>q k. owns (mm (fsys st')) q k \<longrightarrow> owns (mm (fsys st)) q k \<or> \<not> not_data (fsys st') q"
    unfolding o by blast
  moreover have "same_drivers st (put_mem m s)" by (rule same_drivers_trans [OF s(3)]) simp
  ultimately show ?thesis using s(1) e(1) same_drivers_trans [of st "put_mem m s"] by (auto simp del: not_all)
qed

section \<open>Property\<close>

text \<open>
  C8: A session of the editor, from the prompt to the prompt. When the keys waiting spell a line
  \<^verbatim>\<open>nano name\<close>, then \<open>ks\<close> and Ctrl-X, with room on the heap and no key joining two lines into one that
  does not fit, the round of the shell returns. The file has been made when there was none, its lines
  loaded, and lines and files are what the keys say on lists of lines: the edits of the
  specification, and on every Ctrl-S the contents of the file replaced by the lines. The keys are
  consumed up to Ctrl-X, the machine keeps its invariant, and every heap block is given back: a live
  block was live before or holds a file.
\<close>
theorem nano_session:
  assumes "shell_ok st" "line_read 255 [] (queue st) = Some (line, echo, ks @ 24 # rest)"
    and "words (takeWhile (\<lambda>c. c \<noteq> 0) line) = bytes ''nano'' # name # ws"
    and "fs_rep (fsys st) A" "stored_in name (snd (a_add False name A)) bs"
    and "gap (mm (fsys st)) (EDIT_ROOM + count_list ks 19 * SAVE_ROOM)"
    and "24 \<notin> set ks" "joins_ok ks (file_lines bs, 0, 0)"
  shows "\<exists>st'. shell_round st = Some (Running st') \<and> shell_ok st' \<and> same_drivers st st' \<and> queue st' = rest
    \<and> fs_rep (fsys st') (snd (nano_keys name ks (file_lines bs, 0, 0) (snd (a_add False name A))))
    \<and> (\<forall>q k. owns (mm (fsys st')) q k \<longrightarrow> owns (mm (fsys st)) q k \<or> \<not> not_data (fsys st') q)"
  by (rule nano_round [OF assms])

text \<open>The text \<open>hi\<close> typed into a new file.\<close>

theorem nano_session_witness:
  "\<exists>(st :: machine) st' A. queue st = bytes ''nano f\<newline>hi'' @ [19, 24] \<and> shell_round st = Some (Running st') \<and> queue st' = []
    \<and> fs_rep (fsys st') A \<and> slots A ! 0 = Some (FEntry (bytes ''f'') False (Stored (bytes ''hi\<newline>'')))"
proof -
  let ?ks = "bytes ''nano f\<newline>hi'' @ [19, 24]" and ?n = "bytes ''f''"
  define st where "st = demo_machine 0 ?ks []"
  have l: "length ?ks < 256" by simp
  have ok: "shell_ok st" "queue st = ?ks" "fsys st = boot_fs"
    using demo_machine_shell [OF l] demo_machine_ok(2) [OF l] by (simp_all add: st_def demo_machine_def)
  have q: "line_read 255 [] (queue st) = Some (bytes ''nano f'', bytes ''nano f\<newline>'', [104, 105, 19] @ 24 # [])"
    unfolding ok(2) by (simp add: echoing_def)
  have w: "words (takeWhile (\<lambda>c. c \<noteq> 0) (bytes ''nano f'')) = bytes ''nano'' # ?n # []"
    by (simp add: words.simps blank_def)
  have rep: "fs_rep (fsys st) empty_fs" "\<not> owns (mm (fsys st)) q k" for q k using boot_fs_rep by (simp_all add: ok(3))
  have room: "gap (mm (fsys st)) (EDIT_ROOM + count_list [104, 105, 19] 19 * SAVE_ROOM)"
    unfolding gap_def using rep(2) by (intro exI [of _ HEAP_START]) (simp add: EDIT_ROOM_def SAVE_ROOM_def heap_consts)
  have A: "snd (a_add False ?n empty_fs) = \<lparr>slots = Some (FEntry ?n False (Stored [])) # replicate (FS_MAX_FILES - 1) None, cwd = bytes ''/''\<rparr>"
    using a_add_empty [of ?n False] by (simp add: FS_MAX_FILENAME_def)
  have s0: "stored_in ?n (snd (a_add False ?n empty_fs)) []" unfolding A by (simp add: stored_in_def)
  have fl: "file_lines [] = [[]]" by (simp add: file_lines_def)
  have j: "24 \<notin> set [104, 105, 19 :: u8]" "joins_ok [104, 105, 19] (file_lines [], 0, 0)" by (simp_all add: fl ed_key_def)
  have "slots (snd (nano_keys ?n [104, 105, 19] ([[]], 0, 0) (snd (a_add False ?n empty_fs)))) ! 0
      = Some (FEntry ?n False (Stored (bytes ''hi\<newline>'')))"
    unfolding A by (simp add: ed_key_def save_in_def set_cont_def)
  with nano_session [OF ok(1) q w rep(1) s0 room j] ok(2) show ?thesis unfolding fl by fastforce
qed

end
