(* ===== verification/Nano_Join.thy ===== *)
theory Nano_Join
  imports Nano_Load
begin

text \<open>
  Joining two long lines: backspace at the start of a line copies it behind the line above without
  looking at the lengths. Where the editor's blocks lie on a fresh heap, and what the copy does to the
  headers between them.
\<close>

section \<open>A header overwritten by text\<close>

text \<open>What memory says of a prefix of the blocks, every reading of the memory agrees on.\<close>

lemma seg_prefix:
  "seg m a xs \<Longrightarrow> seg m a cs \<Longrightarrow> bsum xs \<le> bsum cs \<Longrightarrow> a + bsum cs \<le> HEAP_END \<Longrightarrow> \<exists>ys. cs = xs @ ys"
proof (induction xs arbitrary: a cs)
  case (Cons x xs)
  then obtain c cs' where cs: "cs = c # cs'" by (cases cs) auto
  with Cons.prems have "(of_nat (fst x) :: u32) = of_nat (fst c)" "(of_bool (snd x) :: u8) = of_bool (snd c)" by auto
  moreover have "fst x < 2 ^ 32" "fst c < 2 ^ 32" using Cons.prems cs by (auto simp: heap_consts)
  ultimately have x: "x = c" by (auto simp: of_nat_eq_u32 prod_eq_iff of_bool_def split: if_splits)
  with Cons.prems cs Cons.IH [of "a + fst x" cs'] show ?case by simp
qed simp

lemma load32_big: "m (p + 3) \<noteq> 0 \<Longrightarrow> 2 ^ 24 \<le> unat (load32 m p)"
proof -
  assume "m (p + 3) \<noteq> 0"
  have "drop_bit 24 (load32 m p) = ucast (m (p + 3))"
    by (rule bit_word_eqI) (auto simp: load32_def bit_simps dest: bit_imp_le_length)
  then have "unat (drop_bit 24 (load32 m p)) = unat (m (p + 3))"
    using unat_u8_lt [of "m (p + 3)"] by (simp add: unsigned_ucast_eq take_bit_nat_eq_self)
  then have "unat (load32 m p) div 2 ^ 24 = unat (m (p + 3))" unfolding unat_drop_bit_eq by (simp add: drop_bit_eq_div)
  moreover have "unat (m (p + 3)) \<noteq> 0" using \<open>m (p + 3) \<noteq> 0\<close> by (simp add: unat_eq_zero)
  ultimately show ?thesis by (metis div_less not_le)
qed

lemma owns_split:
  assumes "heap_rep st bs" "owns st p n"
  obtains xs ys where "bs = xs @ (n + 12, True) # ys" "unat p = HEAP_START + bsum xs + 12"
proof -
  from assms obtain a where a: "(a, n + 12) \<in> set (placed HEAP_START bs)" "unat p = a + 12"
    by (metis ownsE heap_rep_unique)
  then show thesis using that by (auto simp: placed_iff)
qed

lemma next_header:
  assumes "heap_rep st bs" "owns st p n" "unat p + n < HEAP_END"
  shows "range_of (unat p + n) 12 \<subseteq> hdrs HEAP_START bs"
proof -
  obtain xs ys where bs: "bs = xs @ (n + 12, True) # ys" "unat p = HEAP_START + bsum xs + 12"
    by (rule owns_split [OF assms(1,2)])
  moreover from this obtain y ys' where "ys = y # ys'"
    using assms(1,3) by (cases ys) (auto simp: heap_rep_def HEAP_END_def)
  ultimately show ?thesis by (auto simp: hdrs_append algebra_simps)
qed

text \<open>
  A live block that is not the last one, its header and those below it as they were, and a byte
  other than 0 in the top byte of the size that follows it: no block of the heap is that large.
\<close>

lemma header_overwritten:
  assumes rep: "heap_rep st bs" and p: "owns st p n" "unat p + n < HEAP_END"
    and w: "agree_on (hdrs HEAP_START bs \<inter> range_of 0 (unat p)) (ram st) m" and z: "m (p + of_nat (n + 3)) \<noteq> 0"
  shows "\<not> heap_ok (st\<lparr>ram := m\<rparr>)"
proof
  assume "heap_ok (st\<lparr>ram := m\<rparr>)"
  then obtain cs where cs: "heap_rep (st\<lparr>ram := m\<rparr>) cs" by (auto simp: heap_ok_def)
  obtain xs ys where bs: "bs = xs @ (n + 12, True) # ys" "unat p = HEAP_START + bsum xs + 12"
    by (rule owns_split [OF rep p(1)])
  let ?xs = "xs @ [(n + 12, True)]"
  have s: "seg (ram st) HEAP_START ?xs" "bsum bs = HEAP_SIZE" using rep bs(1) by (simp_all add: heap_rep_def seg_append)
  have e: "HEAP_START + bsum ?xs = unat p + n" using bs(2) by simp
  have le: "HEAP_START + bsum ?xs \<le> HEAP_END" using s(2) bs(1) by (simp add: HEAP_END_def)
  have "hdrs HEAP_START xs \<subseteq> range_of HEAP_START (bsum xs)" using s(1) by (intro hdrs_subset [of "ram st"]) (simp add: seg_append)
  then have "hdrs HEAP_START ?xs \<subseteq> hdrs HEAP_START bs \<inter> range_of 0 (unat p)"
    using bs(2) unfolding bs(1) hdrs_append by auto
  then have "seg m HEAP_START ?xs" by (intro seg_cong [OF agree_on_mono [OF w] s(1) le])
  moreover have c: "seg m HEAP_START cs" "bsum cs = HEAP_SIZE" using cs by (simp_all add: heap_rep_def)
  ultimately obtain zs where zs: "cs = ?xs @ zs"
    using seg_prefix [of m HEAP_START ?xs cs] le by (auto simp: HEAP_END_def)
  then obtain b zs' where b: "zs = b # zs'" using p(2) e c(2) by (cases zs) (auto simp: HEAP_END_def)
  have "seg m (HEAP_START + bsum ?xs) zs" using c(1) unfolding zs seg_append by blast
  then have h: "load32 m (of_nat (unat p + n)) = of_nat (fst b)"
    unfolding e b by (simp add: hdr_def blk_size_def)
  have "fst b \<le> HEAP_SIZE" using c(2) unfolding zs b by simp
  then have "unat (of_nat (fst b) :: u32) \<le> HEAP_SIZE" by (subst unat_of_nat_lt) (simp_all add: HEAP_SIZE_def)
  moreover have "of_nat (unat p + n) + 3 = p + of_nat (n + 3)" by (simp add: add.assoc)
  then have "2 ^ 24 \<le> unat (load32 m (of_nat (unat p + n)))" using z by (intro load32_big) (simp only: not_False_eq_True)
  ultimately show False unfolding h by (simp add: HEAP_SIZE_def)
qed

section \<open>The join\<close>

lemma long_strcat:
  assumes t: "text_rep m e (ts, Suc j, 0)" "length ts = Suc (Suc j)"
    and p: "p = line_ptr m (nlines e) j" "unat p + 160 \<le> 2 ^ 32" and q: "q = line_ptr m (nlines e) (Suc j)"
    and far: "range_of (unat p + 80) 80 \<inter> range_of (unat (nlines e)) 400 = {}"
  defines "m1 \<equiv> put_bytes m (p + of_nat (length (ts ! j))) (ts ! Suc j @ [0])"
  shows "strcat m p (Ptr q) = Some m1"
    "\<And>i. i < 100 \<Longrightarrow> line_ptr m1 (nlines e) i = line_ptr m (nlines e) i"
    "unat (p + of_nat (length (ts ! j))) = unat p + length (ts ! j)"
proof -
  let ?ls = "nlines e" and ?t1 = "ts ! j" and ?t2 = "ts ! Suc j"
  note r = cursor_line [OF t(1), folded q]
  have f: "text_map ts j = Some ?t1" using r(4) by (simp add: text_map_def)
  note d = lines_holdD [OF r(1) f, folded p(1)]
  have dj: "range_of (unat q) 80 \<inter> range_of (unat p) 80 = {}"
    unfolding p(1) q by (rule lines_disjoint [OF r(1)]) (use r(3,4) in simp_all)
  have pa: "range_of (unat p) 80 \<inter> range_of (unat ?ls) 400 = {}"
    using r(1,3,4) unfolding p(1) lines_hold_def lines_ok_def by auto
  have b: "unat p + length ?t1 + length ?t2 < 2 ^ 32" using p(2) d(2) r(9) by linarith
  then show u: "unat (p + of_nat (length ?t1)) = unat p + length ?t1" by (intro unat_offset) linarith
  have "q \<in> range_of (unat q) 80" "p \<in> range_of (unat p) 80" by simp_all
  with dj have "q \<notin> range_of (unat p) 80" "p \<notin> range_of (unat q) 80" by blast+
  then consider "unat p + 80 \<le> unat q" | "unat q + 80 \<le> unat p" by fastforce
  then show "strcat m p (Ptr q) = Some m1"
  proof cases
    case 1
    then show ?thesis unfolding m1_def using d(2) r(9,11) by (intro strcat_down [OF d(3) r(10)]) simp_all
  next
    case 2
    then show ?thesis unfolding m1_def
      using r(9,11) by (intro strcat_eq [OF d(3) r(10) b]) (auto intro!: range_of_disjoint)
  qed
  have "range_of (unat p) 160 \<subseteq> range_of (unat p) 80 \<union> range_of (unat p + 80) 80" by auto
  with far pa have "range_of (unat ?ls) 400 \<inter> range_of (unat p) 160 = {}" by blast
  then have "agree_on (range_of (unat ?ls) 400) m m1"
    unfolding m1_def by (intro agree_on_put_bytes) (use u d(2) r(9) p(2) in auto)
  then show "line_ptr m1 ?ls i = line_ptr m ?ls i" if "i < 100" for i
    using line_ptr_kept [OF r(12)] that by blast
qed

lemma join_writes:
  assumes t: "text_rep (mem_of st) e (ts, Suc j, 0)" "length ts = Suc (Suc j)"
    and p: "p = line_ptr (mem_of st) (nlines e) j" "unat p + 160 \<le> 2 ^ 32" and q: "q = line_ptr (mem_of st) (nlines e) (Suc j)"
    and far: "range_of (unat p + 80) 80 \<inter> range_of (unat (nlines e)) 400 = {}"
  shows "\<exists>e'. nano_key filename 8 e st = Some (e', True,
    put_mem ((put_bytes (mem_of st) (p + of_nat (length (ts ! j))) (ts ! Suc j @ [0]))(q := 0)) st)"
proof -
  let ?m = "mem_of st" and ?t1 = "ts ! j"
  let ?m1 = "put_bytes ?m (p + of_nat (length ?t1)) (ts ! Suc j @ [0])"
  note r = cursor_line [OF t(1)] and cat = long_strcat [OF assms]
  have f: "text_map ts j = Some ?t1" using r(4) by (simp add: text_map_def)
  let ?e = "e\<lparr>cur_line := int j, cur_col := sint (of_nat (length ?t1) :: u32), num_lines := int (Suc j), modified := True\<rparr>"
  have i: "cur_line e - 1 = int j" "int j + 1 = int (Suc j)" "num_lines e - 1 = int (Suc j)"
    "0 < cur_line e" "\<not> 0 < cur_col e"
    using t(2) r(6-8) by linarith+
  have "strlen ?m (Ptr p) = Some (of_nat (length ?t1))" using line_strlen [OF r(1) f] p(1) by simp
  then have "nano_backspace e ?m = Some (?e, ?m1(q := 0))"
    unfolding nano_backspace_def Let_def i(1) i(2) i(3)
    using i(4,5) cat(1) cat(2) [of "Suc j"] r(3,4) p(1) q by (simp del: fun_upd_apply of_nat_Suc)
  then show ?thesis by (simp add: nano_key_def nano_edit_def del: fun_upd_apply)
qed

lemma join_breaks:
  assumes t: "text_rep (mem_of st) e (ts, Suc j, 0)" "length ts = Suc (Suc j)"
    and p: "p = line_ptr (mem_of st) (nlines e) j" and q: "q = line_ptr (mem_of st) (nlines e) (Suc j)"
    and own: "owns (mm (fsys st)) p n" "owns (mm (fsys st)) q k" "unat p + n < HEAP_END"
    and far: "range_of (unat p + 80) 80 \<inter> range_of (unat (nlines e)) 400 = {}"
    and long: "n + 4 \<le> length (ts ! j) + length (ts ! Suc j)"
  shows "\<exists>e' m'. nano_key filename 8 e st = Some (e', True, put_mem m' st)
    \<and> (\<forall>i\<le>length (ts ! j) + length (ts ! Suc j). p + of_nat i \<noteq> q \<longrightarrow> m' (p + of_nat i) = (ts ! j @ ts ! Suc j @ [0]) ! i)
    \<and> \<not> heap_ok (mm (fsys (put_mem m' st)))"
proof -
  let ?m = "mem_of st" and ?t1 = "ts ! j" and ?t2 = "ts ! Suc j"
  let ?m1 = "put_bytes ?m (p + of_nat (length ?t1)) (?t2 @ [0])"
  note r = cursor_line [OF t(1)]
  have f: "text_map ts j = Some ?t1" using r(4) by (simp add: text_map_def)
  note d = lines_holdD [OF r(1) f, folded p]
  have hi: "unat p + 160 \<le> 2 ^ 32" using own(3) by (simp add: heap_consts)
  have u: "unat (p + of_nat i) = unat p + i" if "i < 160" for i by (rule unat_offset) (use hi that in simp)
  have len: "length ?t1 + length ?t2 < 160" using d(2) r(9) by simp
  have c: "bytes_at ?m p (length ?t1) = ?t1" "0 \<notin> set ?t1" "0 \<notin> set ?t2"
    using d(3) cstr_nonzero [OF d(3)] cstr_nonzero [OF r(10)] by (simp_all add: cstr_Ptr)
  have byte: "(?m1(q := 0)) (p + of_nat i) = (?t1 @ ?t2 @ [0]) ! i" if i: "i \<le> length ?t1 + length ?t2" "p + of_nat i \<noteq> q" for i
  proof (cases "i < length ?t1")
    case True
    then have "?m (p + of_nat i) = ?t1 ! i" using c(1) nth_bytes_at [of i "length ?t1" ?m p] by simp
    with True i(2) u [of i] u [of "length ?t1"] len hi show ?thesis by (simp add: put_bytes_apply nth_append)
  qed (use i u [of i] u [of "length ?t1"] len hi in \<open>simp add: put_bytes_apply nth_append\<close>)
  obtain bs where rep: "heap_rep (mm (fsys st)) bs" using own(1) by (auto elim: ownsE)
  have "q \<in> range_of (unat q) k" using own(2) by (rule ownsE) simp
  then have qh: "q \<notin> hdrs HEAP_START bs" using owns_hdrs [OF rep own(2)] by blast
  have w: "agree_on (hdrs HEAP_START bs \<inter> range_of 0 (unat p)) (ram (mm (fsys st))) (?m1(q := 0))"
  proof (rule agree_on_upd)
    show "agree_on (hdrs HEAP_START bs \<inter> range_of 0 (unat p)) ?m ?m1"
      by (rule agree_on_put_bytes) (use u [of "length ?t1"] len hi in auto)
  qed (use qh in blast)
  have "p + of_nat (n + 3) \<in> hdrs HEAP_START bs"
    using next_header [OF rep own(1,3)] u [of "n + 3"] long len by auto
  then have "p + of_nat (n + 3) \<noteq> q" using qh by blast
  then have "(?m1(q := 0)) (p + of_nat (n + 3)) = (?t1 @ ?t2) ! (n + 3)"
    using byte [of "n + 3"] long nth_append [of "?t1 @ ?t2" "[0]" "n + 3"] by (simp del: fun_upd_apply of_nat_add add: less_diff_conv)
  moreover have "(?t1 @ ?t2) ! (n + 3) \<in> set (?t1 @ ?t2)" by (rule nth_mem) (use long in simp)
  ultimately have "(?m1(q := 0)) (p + of_nat (n + 3)) \<noteq> 0" using c(2,3) by (metis set_append Un_iff)
  from header_overwritten [OF rep own(1,3) w this]
  have "\<not> heap_ok (mm (fsys (put_mem (?m1(q := 0)) st)))" by (simp add: set_ram_def del: fun_upd_apply)
  moreover obtain e' where "nano_key filename 8 e st = Some (e', True, put_mem (?m1(q := 0)) st)"
    using join_writes [OF t p hi q far] by blast
  ultimately show ?thesis using byte by blast
qed

section \<open>The editor's blocks on the fresh heap\<close>

text \<open>The array of pointers and then the lines, one right behind the other: 92 bytes with the header.\<close>

definition line_heap :: "nat \<Rightarrow> blocks" where
  "line_heap i = (412, True) # replicate i (92, True) @ [(HEAP_SIZE - 412 - 92 * i, False)]"

definition line_place :: "nat \<Rightarrow> addr" where
  "line_place i = of_nat (HEAP_START + 424 + 92 * i)"

definition array_place :: addr where
  "array_place = of_nat (HEAP_START + 12)"

lemma alloc_behind:
  "\<forall>b\<in>set xs. snd b \<Longrightarrow> t \<le> sz \<Longrightarrow> alloc_list a t (xs @ (sz, False) # ys) = Some (a + bsum xs, xs @ split_block t sz @ ys)"
  by (induction xs arbitrary: a) auto

lemma alloc_line_heap:
  assumes "i < 100"
  shows "alloc_list HEAP_START 92 (line_heap i) = Some (HEAP_START + 412 + 92 * i, line_heap (Suc i))"
proof -
  have "line_heap i = ((412, True) # replicate i (92, True)) @ (HEAP_SIZE - 412 - 92 * i, False) # []" by (simp add: line_heap_def)
  then have "alloc_list HEAP_START 92 (line_heap i) = Some (HEAP_START + bsum ((412, True) # replicate i (92, True)),
      ((412, True) # replicate i (92, True)) @ split_block 92 (HEAP_SIZE - 412 - 92 * i) @ [])"
    using assms by (simp only:) (rule alloc_behind, auto simp: HEAP_SIZE_def)
  then show ?thesis
    using assms by (simp add: sum_list_replicate split_block_def HEAP_SIZE_def line_heap_def replicate_append_same)
qed

lemma line_place_unat: "i < 100 \<Longrightarrow> unat (line_place i) = HEAP_START + 424 + 92 * i"
  unfolding line_place_def by (intro unat_of_nat_lt) (simp add: HEAP_START_def)

lemma array_place_unat: "unat array_place = HEAP_START + 12"
  unfolding array_place_def by (intro unat_of_nat_lt) (simp add: HEAP_START_def)

lemma line_heap_owns:
  assumes "heap_rep h (line_heap n)"
  shows "owns h array_place 400" "i < n \<Longrightarrow> owns h (line_place i) 80"
proof -
  have "line_heap n = [] @ (400 + 12, True) # replicate n (92, True) @ [(HEAP_SIZE - 412 - 92 * n, False)]"
    by (simp add: line_heap_def)
  then have "(HEAP_START, 400 + 12) \<in> set (placed HEAP_START (line_heap n))" unfolding placed_iff by fastforce
  then show "owns h array_place 400" unfolding owns_rep [OF assms] array_place_def by blast
  assume i: "i < n"
  have "replicate n (92 :: nat, True) = replicate i (92, True) @ (80 + 12, True) # replicate (n - i - 1) (92, True)"
    using i by (simp add: replicate_add [symmetric] replicate_Suc [symmetric] del: replicate_Suc)
  then have "line_heap n = ((412, True) # replicate i (92, True)) @ (80 + 12, True) # replicate (n - i - 1) (92, True)
      @ [(HEAP_SIZE - 412 - 92 * n, False)]" by (simp add: line_heap_def)
  moreover have "HEAP_START + 412 + 92 * i = HEAP_START + bsum ((412, True) # replicate i (92, True))"
    by (simp add: sum_list_replicate)
  ultimately have "(HEAP_START + 412 + 92 * i, 80 + 12) \<in> set (placed HEAP_START (line_heap n))" unfolding placed_iff by blast
  then show "owns h (line_place i) 80" unfolding owns_rep [OF assms] line_place_def by (intro exI conjI) (assumption, simp)
qed

lemma rep_owned_write:
  assumes "heap_rep h bs" "owns h p n" "agree_on (- range_of (unat p) n) (ram h) m"
  shows "heap_rep (h\<lparr>ram := m\<rparr>) bs"
  by (rule heap_rep_write [OF assms(1)], rule agree_on_mono [OF assms(3)]) (use owns_hdrs [OF assms(1,2)] in blast)

lemma alloc_next_line:
  fixes s :: "'a machine_scheme"
  assumes rep: "heap_rep (mm (fsys s)) (line_heap i)" and i: "i < 100"
    and l: "\<forall>j<i. line_ptr (mem_of s) array_place j = line_place j"
  obtains s1 where "nano_alloc array_place i (Suc n) s = nano_alloc array_place (Suc i) n s1"
    "heap_rep (mm (fsys s1)) (line_heap (Suc i))" "\<forall>j<Suc i. line_ptr (mem_of s1) array_place j = line_place j"
proof -
  let ?h = "mm (fsys s)" and ?p = "line_place i"
  have sz: "0 < unat (80 :: u32)" "unat (80 :: u32) \<le> 0xFFFFFFF0" "malloc_total (unat (80 :: u32)) = 92"
    by (simp_all add: malloc_total_def)
  obtain p h where k: "kmalloc 80 ?h = Some (p, h)" "unat p = HEAP_START + 424 + 92 * i" "heap_rep h (line_heap (Suc i))"
    using kmalloc_rep [OF rep sz(1,2)] alloc_line_heap [OF i] unfolding sz(3) by auto
  have p: "p = ?p" using k(2) line_place_unat [OF i] by (simp only: word_unat_eq_iff)
  note own = line_heap_owns [OF k(3)]
  have "heap_ok ?h" using rep by (auto simp: heap_ok_def)
  from kmalloc_owns [OF this sz(1,2)] k(1) line_heap_owns(1) [OF rep] have
    a: "agree_on (range_of (unat array_place) 400) (ram ?h) (ram h)" by (auto simp: agree_on_refl)
  have b: "unat array_place + 400 \<le> 2 ^ 32" by (simp add: array_place_unat HEAP_START_def)
  define m1 where "m1 = store32 (ram h) (array_place + of_nat (4 * i)) p"
  note st = array_store [OF b i, where m = "ram h" and p = p, folded m1_def]
  have pu: "p \<in> range_of (unat p) 80" by simp
  have pa: "p \<notin> range_of (unat array_place) 400" using k(2) array_place_unat by simp
  have kept: "agree_on (range_of (unat array_place) 400) m1 (m1(p := 0))" by (rule agree_on_upd [OF pa agree_on_refl])
  define s1 where "s1 = put_mem (m1(p := 0)) (s\<lparr>fsys := (fsys s)\<lparr>mm := h\<rparr>\<rparr>)"
  have ms: "mem_of s1 = m1(p := 0)" by (simp add: s1_def del: fun_upd_apply)
  have r1: "heap_rep (h\<lparr>ram := m1\<rparr>) (line_heap (Suc i))" by (rule rep_owned_write [OF k(3) own(1) st(3)])
  have "heap_rep (h\<lparr>ram := m1, ram := m1(p := 0)\<rparr>) (line_heap (Suc i))"
    using line_heap_owns(2) [OF r1, of i] pu unfolding p [symmetric]
    by (intro rep_owned_write [OF r1] agree_on_upd agree_on_refl) auto
  then have "heap_rep (mm (fsys s1)) (line_heap (Suc i))" by (simp add: s1_def put_mem_def set_ram_def)
  moreover have "line_ptr (mem_of s1) array_place j = line_place j" if "j < Suc i" for j
  proof -
    have "line_ptr (mem_of s1) array_place j = line_ptr m1 array_place j"
      unfolding ms using that i by (intro line_ptr_kept [OF b kept]) simp
    moreover have "line_ptr (ram h) array_place j = line_ptr (mem_of s) array_place j"
      using that i by (intro line_ptr_kept [OF b a]) simp
    ultimately show ?thesis using st(1,2) p l that i by (cases "j = i") auto
  qed
  moreover have "p \<noteq> NULL" using k(2) by (auto simp: HEAP_START_def)
  then have "nano_alloc array_place i (Suc n) s = nano_alloc array_place (Suc i) n s1"
    using k(1) st(1) by (simp add: mach_malloc_def NANO_LINE_LEN_def s1_def m1_def Let_def del: fun_upd_apply of_nat_add)
  ultimately show thesis by (intro that) blast+
qed

lemma nano_alloc_places:
  "heap_rep (mm (fsys s)) (line_heap i) \<Longrightarrow> i + n \<le> 100 \<Longrightarrow> \<forall>j<i. line_ptr (mem_of s) array_place j = line_place j \<Longrightarrow>
    \<exists>s'. nano_alloc array_place i n s = Some s' \<and> heap_rep (mm (fsys s')) (line_heap (i + n))
      \<and> (\<forall>j<i + n. line_ptr (mem_of s') array_place j = line_place j)"
proof (induction n arbitrary: i s)
  case (Suc n)
  have i: "i < 100" "Suc i + n \<le> 100" using Suc.prems(2) by simp_all
  obtain s1 where s1: "nano_alloc array_place i (Suc n) s = nano_alloc array_place (Suc i) n s1"
    "heap_rep (mm (fsys s1)) (line_heap (Suc i))" "\<forall>j<Suc i. line_ptr (mem_of s1) array_place j = line_place j"
    by (rule alloc_next_line [OF Suc.prems(1) i(1) Suc.prems(3)])
  from Suc.IH [OF s1(2) i(2) s1(3)] s1(1) show ?case by simp
qed simp

lemma boot_fs_heap: "heap_rep (mm boot_fs) [(HEAP_SIZE, False)]"
proof -
  obtain bs where rep: "heap_rep (mm boot_fs) bs" using fs_repD(2) [OF boot_fs_rep(1)] by (auto simp: heap_ok_def)
  have free: "\<not> snd b" if "b \<in> set bs" for b
  proof
    assume "snd b"
    with that obtain xs ys where b: "bs = xs @ (fst b, True) # ys" by (metis split_list prod.collapse)
    then have "20 \<le> fst b" using rep by (auto simp: heap_rep_def seg_append)
    then have "fst b = (fst b - 12) + 12" by simp
    with b have "(HEAP_START + bsum xs, (fst b - 12) + 12) \<in> set (placed HEAP_START bs)" unfolding placed_iff by metis
    then show False using boot_fs_rep(2) unfolding owns_rep [OF rep] by blast
  qed
  have c: "coalesced bs" "bsum bs = HEAP_SIZE" using rep by (simp_all add: heap_rep_def)
  have "bs = [(HEAP_SIZE, False)]"
    using c free by (cases bs rule: coalesced.cases) (auto simp: HEAP_SIZE_def)
  with rep show ?thesis by simp
qed

text \<open>The editor's start on the machine of the examples: the blocks are where the layout says.\<close>

lemma editor_starts:
  obtains s1 s2 where "mach_malloc 400 (demo_machine 0 [] []) = Some (array_place, s1)"
    "nano_alloc array_place 0 100 s1 = Some s2" "heap_rep (mm (fsys s2)) (line_heap 100)"
    "\<And>j. j < 100 \<Longrightarrow> line_ptr (mem_of s2) array_place j = line_place j"
proof -
  let ?s = "demo_machine 0 [] []"
  have f: "mm (fsys ?s) = mm boot_fs" by (simp add: demo_machine_def)
  have sz: "0 < unat (400 :: u32)" "unat (400 :: u32) \<le> 0xFFFFFFF0" "malloc_total (unat (400 :: u32)) = 412"
    by (simp_all add: malloc_total_def)
  have "alloc_list HEAP_START 412 [(HEAP_SIZE, False)] = Some (HEAP_START, line_heap 0)"
    by (simp add: split_block_def line_heap_def HEAP_SIZE_def)
  then obtain p h where k: "kmalloc 400 (mm boot_fs) = Some (p, h)" "unat p = HEAP_START + 12" "heap_rep h (line_heap 0)"
    using kmalloc_rep [OF boot_fs_heap sz(1,2)] unfolding sz(3) by auto
  have p: "p = array_place" using k(2) array_place_unat by (simp only: word_unat_eq_iff)
  define s1 where "s1 = ?s\<lparr>fsys := (fsys ?s)\<lparr>mm := h\<rparr>\<rparr>"
  have m: "mach_malloc 400 ?s = Some (array_place, s1)" using k(1) f p by (simp add: mach_malloc_def s1_def)
  have "heap_rep (mm (fsys s1)) (line_heap 0)" using k(3) by (simp add: s1_def)
  from nano_alloc_places [OF this, of 100] obtain s2 where "nano_alloc array_place 0 100 s1 = Some s2"
    "heap_rep (mm (fsys s2)) (line_heap 100)" "\<forall>j<100. line_ptr (mem_of s2) array_place j = line_place j" by auto
  with m show thesis by (intro that) blast+
qed

lemma line_written:
  assumes h: "lines_hold m ls f" and k: "k < 100" and t: "length t < 80" "0 \<notin> set t"
  obtains m' where "lines_hold m' ls (f(k \<mapsto> t))" "\<And>i. i < 100 \<Longrightarrow> line_ptr m' ls i = line_ptr m ls i"
    "agree_on (- line_set m ls k) m m'"
proof -
  let ?m' = "put_bytes m (line_ptr m ls k) (t @ [0])"
  have b: "unat (line_ptr m ls k) + 80 \<le> 2 ^ 32" using h k by (simp add: lines_hold_def lines_ok_def)
  have w: "agree_on (- line_set m ls k) m ?m'"
    using b t(1) by (intro agree_on_put_bytes) auto
  have "cstr ?m' (Ptr (line_ptr m ls k)) t" using b t by (intro cstr_put_bytes) simp_all
  from lines_store [OF h k w t(1) this] w show thesis by (intro that) blast+
qed

text \<open>Two full lines in the first two blocks.\<close>

lemma two_full_lines:
  assumes rep: "heap_rep (mm (fsys s)) (line_heap 100)"
    and l: "\<And>j. j < 100 \<Longrightarrow> line_ptr (mem_of s) array_place j = line_place j"
    and t: "length t < 80" "length u < 80" "0 \<notin> set t" "0 \<notin> set u"
  obtains m where "heap_rep (mm (fsys (put_mem m s))) (line_heap 100)"
    "lines_hold m array_place (text_map [t, u])" "\<And>j. j < 100 \<Longrightarrow> line_ptr m array_place j = line_place j"
proof -
  have ok: "lines_ok (mem_of s) array_place"
    unfolding lines_ok_def
  proof (intro conjI allI impI)
    show "unat array_place + 400 \<le> 2 ^ 32" by (simp add: array_place_unat HEAP_START_def)
    fix i j :: nat assume i: "i < 100"
    show "unat (line_ptr (mem_of s) array_place i) + 80 \<le> 2 ^ 32"
      using i by (simp only: l line_place_unat) (simp add: HEAP_START_def)
    show "line_set (mem_of s) array_place i \<inter> range_of (unat array_place) 400 = {}"
      using i by (simp only: l line_place_unat array_place_unat) (rule range_of_disjoint, simp)
    assume j: "j < 100" "i \<noteq> j"
    then show "line_set (mem_of s) array_place i \<inter> line_set (mem_of s) array_place j = {}"
      using i by (simp only: l line_place_unat) (rule range_of_disjoint, arith)
  qed
  then have h0: "lines_hold (mem_of s) array_place Map.empty" by (simp add: lines_hold_def)
  obtain m1 where h1: "lines_hold m1 array_place [0 \<mapsto> t]" "agree_on (- line_set (mem_of s) array_place 0) (mem_of s) m1"
    and p1: "\<And>j. j < 100 \<Longrightarrow> line_ptr m1 array_place j = line_ptr (mem_of s) array_place j"
    by (rule line_written [OF h0 _ t(1,3), of 0]) simp_all
  obtain m2 where h2: "lines_hold m2 array_place [0 \<mapsto> t, 1 \<mapsto> u]" "agree_on (- line_set m1 array_place 1) m1 m2"
    and p2: "\<And>j. j < 100 \<Longrightarrow> line_ptr m2 array_place j = line_ptr m1 array_place j"
    by (rule line_written [OF h1(1) _ t(2,4), of 1]) simp_all
  have r1: "heap_rep ((mm (fsys s))\<lparr>ram := m1\<rparr>) (line_heap 100)"
    by (rule rep_owned_write [OF rep line_heap_owns(2) [OF rep, of 0]]) (use h1(2) l [of 0] in simp_all)
  have "heap_rep ((mm (fsys s))\<lparr>ram := m1, ram := m2\<rparr>) (line_heap 100)"
    by (rule rep_owned_write [OF r1 line_heap_owns(2) [OF r1, of 1]]) (use h2(2) p1 [of 1] l [of 1] in simp_all)
  then have r: "heap_rep (mm (fsys (put_mem m2 s))) (line_heap 100)" by (simp add: set_ram_def)
  have "text_map [t, u] = [0 \<mapsto> t, 1 \<mapsto> u]" by (auto simp: text_map_def fun_eq_iff less_Suc_eq)
  with h2(1) have "lines_hold m2 array_place (text_map [t, u])" by simp
  with r show thesis using p1 p2 l by (intro that) simp_all
qed

section \<open>The property\<close>

text \<open>
  C40: Backspace at the start of the last line joins it to the line above without looking at the
  lengths. Let the two lines lie in live blocks of the heap, \<open>n\<close> bytes the upper one (80 for the
  92-byte blocks \<^verbatim>\<open>nano\<close> gets on a fresh heap, one right behind the other), which is not the last block
  of the heap, and let the array of pointers not lie in the 80 bytes behind the upper line. When the
  two texts have \<open>n + 4\<close> characters or more together, the key succeeds, the joined text and its NUL
  stand at the upper line, across the header of the next block and into what follows (but for the
  first byte of the lower block, which is set to 0), and the heap, sound before, is not sound any more.
\<close>

theorem nano_join_breaks_heap:
  assumes "text_rep (mem_of st) e (ts, Suc j, 0)" "length ts = Suc (Suc j)"
    and "p = line_ptr (mem_of st) (nlines e) j" "q = line_ptr (mem_of st) (nlines e) (Suc j)"
    and "owns (mm (fsys st)) p n" "owns (mm (fsys st)) q k" "unat p + n < HEAP_END"
    and "range_of (unat p + 80) 80 \<inter> range_of (unat (nlines e)) 400 = {}"
    and "n + 4 \<le> length (ts ! j) + length (ts ! Suc j)"
  shows "heap_ok (mm (fsys st)) \<and> (\<exists>e' m'. nano_key filename 8 e st = Some (e', True, put_mem m' st)
    \<and> (\<forall>i\<le>length (ts ! j) + length (ts ! Suc j). p + of_nat i \<noteq> q \<longrightarrow> m' (p + of_nat i) = (ts ! j @ ts ! Suc j @ [0]) ! i)
    \<and> \<not> heap_ok (mm (fsys (put_mem m' st))))"
  using assms(5) join_breaks [OF assms, of filename] by (auto simp: heap_ok_def elim: ownsE)

text \<open>The blocks the editor itself takes on the fresh heap, with two lines of 79 characters.\<close>

theorem nano_join_breaks_heap_witness:
  "\<exists>s1 s2 m e e' m'. mach_malloc 400 (demo_machine 0 [] []) = Some (nlines e, s1) \<and> nano_alloc (nlines e) 0 100 s1 = Some s2
     \<and> text_rep m e ([replicate 79 97, replicate 79 98], 1, 0) \<and> heap_ok (mm (fsys (put_mem m s2)))
     \<and> line_ptr m (nlines e) 1 = line_ptr m (nlines e) 0 + 92
     \<and> nano_key 0 8 e (put_mem m s2) = Some (e', True, put_mem m' (put_mem m s2))
     \<and> m' (line_ptr m (nlines e) 0 + 80) = 98 \<and> \<not> heap_ok (mm (fsys (put_mem m' (put_mem m s2))))"
proof -
  let ?ts = "[replicate 79 97, replicate 79 98] :: u8 list list"
  obtain s1 s2 where s: "mach_malloc 400 (demo_machine 0 [] []) = Some (array_place, s1)"
    "nano_alloc array_place 0 100 s1 = Some s2" "heap_rep (mm (fsys s2)) (line_heap 100)"
    and l: "\<And>j. j < 100 \<Longrightarrow> line_ptr (mem_of s2) array_place j = line_place j" by (rule editor_starts, rule that, assumption+)
  obtain m where m: "heap_rep (mm (fsys (put_mem m s2))) (line_heap 100)" "lines_hold m array_place (text_map ?ts)"
    and lm: "\<And>j. j < 100 \<Longrightarrow> line_ptr m array_place j = line_place j"
    by (rule two_full_lines [OF s(3) l, of "replicate 79 97" "replicate 79 98"]) simp_all
  define e where "e = \<lparr>nlines = array_place, num_lines = 2, cur_line = 1, cur_col = 0, modified = False\<rparr>"
  have e: "nlines e = array_place" by (simp add: e_def)
  let ?st = "put_mem m s2"
  have rep: "text_rep (mem_of ?st) e (?ts, Suc 0, 0)" using m(2) by (simp add: e_def)
  have p: "line_place 0 = line_ptr (mem_of ?st) (nlines e) 0" "line_place 1 = line_ptr (mem_of ?st) (nlines e) (Suc 0)"
    unfolding put_mem_sel e using lm [of 0] lm [of 1] by simp_all
  have own: "owns (mm (fsys ?st)) (line_place 0) 80" "owns (mm (fsys ?st)) (line_place 1) 80"
    by (rule line_heap_owns(2) [OF m(1)], simp)+
  have u: "unat (line_place 0) = HEAP_START + 424" using line_place_unat [of 0] by simp
  have low: "unat (line_place 0) + 80 < HEAP_END" unfolding u by (simp add: heap_consts)
  have far: "range_of (unat (line_place 0) + 80) 80 \<inter> range_of (unat (nlines e)) 400 = {}"
    unfolding u e array_place_unat by (rule range_of_disjoint) simp
  from nano_join_breaks_heap [OF rep _ p own low far, of 0] obtain e' m' where r: "heap_ok (mm (fsys ?st))"
    "nano_key 0 8 e ?st = Some (e', True, put_mem m' ?st)" "\<not> heap_ok (mm (fsys (put_mem m' ?st)))"
    "\<And>i. i \<le> 158 \<Longrightarrow> line_place 0 + of_nat i \<noteq> line_place 1 \<Longrightarrow>
      m' (line_place 0 + of_nat i) = (replicate 79 97 @ replicate 79 98 @ [0]) ! i" by auto
  have d: "line_place 1 = line_place 0 + 92" by (simp add: line_place_def)
  then have "m' (line_place 0 + 80) = 98" using r(4) [of 80] by (simp add: nth_append)
  with r(1-3) s(1,2) rep d lm [of 0] lm [of 1] e show ?thesis
    by (intro exI [of _ s1] exI [of _ s2] exI [of _ m] exI [of _ e] exI [of _ e'] exI [of _ m']) simp
qed

end
