(* ===== verification/Spec2Isabelle.thy ===== *)
theory Spec2Isabelle
  imports CString_Num Kernel_Props Key_Types Nano_Command Nano_Join
begin

text \<open>
  KontolOS: a verification library for the C code of the kernel under \<^verbatim>\<open>src/src\<close>, a 32-bit x86
  system with a first-fit heap, a RAM file system, text console, timer and keyboard drivers and a
  command shell. Assembly (\<^verbatim>\<open>boot/\<close>, \<^verbatim>\<open>kernel_entry.asm\<close>, \<^verbatim>\<open>isr.asm\<close>) and the build scripts are
  outside the model.

  \<^bold>\<open>How the program is modelled.\<close> Memory is one function from 32-bit addresses to bytes; every C
  pointer is an address, a string literal a separate kind of pointer (\<open>cptr\<close>). Machine integers are
  words of their width, so every overflow of the code is in the model; a signed overflow wraps, as
  the compiler's output does. A C struct in memory is reached by the code's own offsets (heap
  headers, file entries); a driver's static variables are fields of a record, extended from driver
  to driver: \<open>ports\<close> (the port trace, the devices' answers, the interrupt flag), \<open>vga\<close>, \<open>idt\<close>, \<open>timer\<close>,
  \<open>kbd\<close>, \<open>machine\<close>. The result of a run is an option: \<open>None\<close> is a loop that never ends, a wait that no
  interrupt ends, or a trap (division by zero); \<open>Halted\<close> is a processor stopped for good. Loops over C
  strings and lists in memory are partial functions without fuel, so that termination is always a
  statement that is proved. What comes from outside is a parameter: \<open>dev\<close> answers reads of ports
  from the trace so far, \<open>irqs\<close> lists the interrupts to come.

  \<^bold>\<open>Theories.\<close>
  \<^item> \<open>Prelude\<close>: types, words, address ranges, agreement of memories, arrays.
  \<^item> \<open>CMem\<close>, \<open>CString\<close>, \<open>CString_Num\<close>: \<^verbatim>\<open>memcpy\<close> to \<^verbatim>\<open>memmove\<close> and all of \<^verbatim>\<open>lib/string.c\<close>; properties of
    comparison, concatenation, bounded copy and number conversion.
  \<^item> \<open>Heap\<close>, \<open>Heap_Own\<close>, \<open>Heap_Props\<close>: \<^verbatim>\<open>kernel/memory.c\<close>, first against an abstract list of blocks
    (\<open>heap_rep\<close>), then as ownership of byte ranges; reachable heaps. \<open>Allocator\<close> is the contract its
    clients use, a locale that \<open>Heap_Own\<close> interprets as \<open>heap\<close>; \<open>Heap_Room\<close> adds
    when an allocation must succeed (\<open>gap\<close>, a stretch no live block touches), with its own locale.
  \<^item> \<open>Ramfs\<close>: \<^verbatim>\<open>fs/ramfs.c\<close>. \<open>Ramfs_Inv\<close>, \<open>Ramfs_Ops\<close>, \<open>Ramfs_Files\<close>: the table stands for abstract entries
    (\<open>fs_rep\<close>), and every operation implements its specification on them. \<open>Ramfs_Props\<close>: reachable states
    and properties; \<open>Ramfs_Frame\<close>: what the calls by name leave alone; \<open>Ramfs_List\<close>: the listing.
  \<^item> \<open>Ports\<close>, \<open>Vga\<close>, \<open>Vga_Inv\<close>, \<open>Vga_Props\<close>: \<^verbatim>\<open>drivers/vga.c\<close> against an abstract terminal of 80 by 25;
    \<open>Console\<close> is the locale for what prints character by character.
  \<^item> \<open>Idt\<close>, \<open>Idt_Props\<close>, \<open>Timer\<close>: \<^verbatim>\<open>kernel/idt.c\<close>, the panic path, \<^verbatim>\<open>drivers/timer.c\<close>.
  \<^item> \<open>Keyboard\<close>, \<open>Key_Queue\<close>, \<open>Keyboard_Props\<close>: \<^verbatim>\<open>drivers/keyboard.c\<close>; the ring buffer as an instance of
    the queue locale, decoding of scan codes against the key caps of a US keyboard, and the interleaving of interrupt and reader.
  \<^item> \<open>Machine\<close>, \<open>Machine_Inv\<close>, \<open>Machine_Props\<close>: the whole machine, interrupt dispatch, \<^verbatim>\<open>hlt\<close>, the sleeping
    functions and the blocking reads. \<open>Key_Types\<close>: only nonzero 7-bit characters reach the program.
  \<^item> \<open>Shell\<close>, \<open>Nano\<close>: \<^verbatim>\<open>kernel/shell.c\<close>. \<open>Shell_Parse\<close>: the parser; \<open>Shell_Inv\<close>: the shell's invariant and the
    rules that carry it through a command; \<open>Shell_Cmds\<close>, \<open>Shell_Cat\<close>: the commands; \<open>Shell_Props\<close>: dispatch,
    sessions and \<^verbatim>\<open>cat\<close>.
  \<^item> \<open>Nano_Props\<close>: the keys of the editor on an array of lines implement an editor on a list of strings,
    as long as no two lines are joined into one of 80 characters or more. \<open>Nano_Desk\<close>: the heap blocks of
    the editor and what keeps them; \<open>Nano_Session\<close>: drawing, saving and the loop; \<open>Nano_Lines\<close>, \<open>Nano_Load\<close>:
    loading a file; \<open>Nano_Command\<close>: a round of the shell with the command, from the prompt to the prompt.
    \<open>Nano_Join\<close>: where the editor's blocks lie on the fresh heap (one right behind the other), and that
    joining two long lines overwrites the header of the next block.
  \<^item> \<open>Kernel\<close>, \<open>Kernel_Props\<close>: \<^verbatim>\<open>kernel/kernel.c\<close>, from the loaded image to the shell.

  \<^bold>\<open>How the parts are tied together.\<close> The heap lies in the same memory as the file table, the directory
  name and the shell's buffers; \<open>layout\<close> and \<open>buffers_ok\<close> say that the linker placed them apart, and
  every operation's frame says which of these regions it may write. \<open>shell_ok\<close> collects the
  invariants of console, key ring, timer and file system, and \<open>shell_step\<close> is what a command may do
  to the machine. Interrupts are delivered where the program waits (\<open>halt\<close> services one batch); an
  interrupt that arrives while the program computes only changes the tick counter, the key ring and
  the port trace, and counts to the next batch. The finer interleaving of the keyboard interrupt
  with single steps of the reader is the subject of \<open>key_step\<close>.

  \<^bold>\<open>Bounds.\<close> The loops of the shell and of \<^verbatim>\<open>kernel_main\<close> are endless; \<open>shell_run n\<close> is \<open>n\<close> rounds, for
  every \<open>n\<close>. Nothing else is bounded by the model: the sizes 64 files, 31 characters, 64 KB, 256 keys
  and 16 arguments are the code's.

  \<^bold>\<open>Not modelled.\<close> The assembly files; the code behind the endless loop of \<^verbatim>\<open>kernel_main\<close>, which is never
  reached; stack use; reads of uninitialised locals do not occur. The editor \<^verbatim>\<open>cmd_nano\<close> is modelled, and \<open>shell_session\<close>
  excludes it: it writes into a heap block beyond its end when two long lines are joined, so that
  the heap does not stay sound (\<open>nano_join_breaks_heap\<close>); \<open>nano_session\<close> treats it under the hypotheses that this does not happen
  and that the heap has room (\<open>EDIT_ROOM\<close> for the blocks and the file, \<open>SAVE_ROOM\<close> for each save).
\<close>

end
